(* ===== verification/Prelude.thy ===== *)
theory Prelude
  imports Main "HOL-Library.Word" "HOL-Library.Sublist"
begin

text \<open>
  Shared vocabulary of the development: the machine integer types of the C and C++ sources,
  byte strings with little-endian loads, the layout of C structs, and the generic lemmas on
  words, lists and options that the component theories rely on.

  All sources are modelled for the LP64 little-endian target the code is written for
  (\<^verbatim>\<open>size_t\<close> has 64 bits, \<^verbatim>\<open>int\<close> has 32 bits, \<^verbatim>\<open>char\<close> is signed).
\<close>

unbundle bit_operations_syntax

named_theorems mem_simps \<open>rules that evaluate loads from byte strings\<close>
named_theorems word_nat_simps \<open>rules that read machine words as natural numbers\<close>

type_synonym byte = "8 word"
type_synonym u16 = "16 word"
type_synonym u32 = "32 word"
type_synonym u64 = "64 word"
type_synonym size_t = "64 word"

subsection \<open>Powers of two and bit masks\<close>

lemma and_pred_pow2_nat:
  fixes n :: nat
  assumes "n AND (n - 1) = 0" and "0 < n"
  shows "\<exists>k. n = 2 ^ k"
  using assms
proof (induction n rule: less_induct)
  case (less n)
  show ?case
  proof (cases "even n")
    case True
    then obtain m where m: "n = 2 * m" by (elim evenE)
    with less.prems have "0 < m" by simp
    then have "(n - 1) div 2 = m - 1" and "odd (n - 1)" using m by simp_all
    then have "n AND (n - 1) = 2 * (m AND (m - 1))"
      using m by (subst and_rec) simp
    with less.prems have "m AND (m - 1) = 0" by simp
    with less.IH [of m] \<open>0 < m\<close> m obtain k where "m = 2 ^ k" by auto
    then have "n = 2 ^ Suc k" using m by simp
    then show ?thesis ..
  next
    case False
    then obtain m where m: "n = 2 * m + 1" by (elim oddE)
    have "n AND (n - 1) = 2 * (m AND m)"
      using m by (subst and_rec) simp
    with less.prems have "m = 0" by simp
    with m have "n = 2 ^ 0" by simp
    then show ?thesis ..
  qed
qed

lemma and_pred_pow2_exp: "(2 ^ k :: nat) AND (2 ^ k - 1) = 0"
proof -
  have "(2 ^ k :: nat) AND (2 ^ k - 1) = 2 ^ k AND mask k"
    by (simp add: mask_eq_exp_minus_1)
  then show ?thesis by (simp add: take_bit_eq_mask [symmetric] take_bit_eq_mod)
qed

lemma unat_pred:
  fixes c :: "'a::len word"
  assumes "c \<noteq> 0"
  shows "unat (c - 1) = unat c - 1"
  using assms by (rule unat_minus_one)

lemma unat_mask_and:
  fixes x :: "'a::len word"
  assumes "unat c = 2 ^ k"
  shows "unat (x AND (c - 1)) = unat x mod 2 ^ k"
proof -
  have "c \<noteq> 0" using assms by (metis power_not_zero unat_0 zero_neq_numeral)
  then have "unat (c - 1) = 2 ^ k - 1" using assms by (simp add: unat_pred)
  then have "unat (x AND (c - 1)) = unat x AND mask k"
    by (simp add: unsigned_and_eq mask_eq_exp_minus_1)
  then show ?thesis by (simp add: take_bit_eq_mask [symmetric] take_bit_eq_mod)
qed

lemma unat_add_of_nat_mod:
  fixes t :: "'a::len word"
  assumes "k \<le> LENGTH('a)"
  shows "unat (t + of_nat i) mod 2 ^ k = (unat t + i) mod 2 ^ k"
proof -
  have d: "(2 ^ k :: nat) dvd 2 ^ LENGTH('a)" using assms by (rule le_imp_power_dvd)
  have "unat (t + of_nat i) = (unat t + i) mod 2 ^ LENGTH('a)"
    by (simp add: unat_word_ariths unat_of_nat mod_simps)
  then show ?thesis using d by (simp add: mod_mod_cancel)
qed

lemma mod_shift_inj:
  fixes t i j c :: nat
  assumes "(t + i) mod c = (t + j) mod c" and "i < c" and "j < c"
  shows "i = j"
proof -
  have "i mod c = j mod c"
    using assms(1) by (simp add: nat_mod_eq_iff)
  with assms show ?thesis by simp
qed

lemma word_eq_add_diff:
  fixes h t :: "'a::len word"
  shows "h = t + of_nat (unat (h - t))"
  by simp

subsection \<open>Bytes in memory\<close>

text \<open>The little-endian reading of a byte string, and the \<open>k\<close> bytes of a number.\<close>

fun le_nat :: "byte list \<Rightarrow> nat" where
  "le_nat [] = 0"
| "le_nat (b # bs) = unat b + 256 * le_nat bs"

fun le_bytes :: "nat \<Rightarrow> nat \<Rightarrow> byte list" where
  "le_bytes 0 n = []"
| "le_bytes (Suc k) n = of_nat n # le_bytes k (n div 256)"

lemma length_le_bytes [simp]: "length (le_bytes k n) = k"
  by (induction k arbitrary: n) auto

lemma unat_byte_of_nat: "unat (of_nat n :: byte) = n mod 256"
  by (simp add: unat_of_nat take_bit_eq_mod)

lemma le_nat_le_bytes [word_nat_simps]: "le_nat (le_bytes k n) = n mod 256 ^ k"
proof (induction k arbitrary: n)
  case 0
  then show ?case by simp
next
  case (Suc k)
  then show ?case by (simp add: unat_byte_of_nat mod_mult2_eq)
qed

lemma le_bytes_le_nat [simp]: "le_bytes (length bs) (le_nat bs) = bs"
proof (induction bs)
  case Nil
  then show ?case by simp
next
  case (Cons b bs)
  have "unat b < 256" using unsigned_less [of b, where ?'a = nat] by simp
  moreover from this have "unat (of_nat (unat b + 256 * le_nat bs) :: byte) = unat b"
    by (simp only: unat_byte_of_nat) simp
  then have "(of_nat (unat b + 256 * le_nat bs) :: byte) = b" by (rule word_unat_eq_iff [THEN iffD2])
  ultimately show ?case using Cons by simp
qed

lemma le_nat_less: "le_nat bs < 256 ^ length bs"
proof (induction bs)
  case Nil
  then show ?case by simp
next
  case (Cons b bs)
  have "unat b < 256" using unsigned_less [of b, where ?'a = nat] by simp
  with Cons show ?case by simp
qed

lemma of_nat_le_nat_le_bytes:
  fixes w :: "'a::len word"
  assumes "LENGTH('a) \<le> 8 * k"
  shows "of_nat (le_nat (le_bytes k (unat w))) = w"
proof -
  have "unat w < 2 ^ LENGTH('a)" by (rule unsigned_less)
  also have "\<dots> \<le> 2 ^ (8 * k)" using assms by (intro power_increasing) auto
  also have "\<dots> = 256 ^ k" by (simp add: power_mult)
  finally show ?thesis by (simp add: le_nat_le_bytes)
qed

lemma le_bytes_of_nat_le_nat:
  assumes "length bs = k" and "LENGTH('a::len) = 8 * k"
  shows "le_bytes k (unat (of_nat (le_nat bs) :: 'a word)) = bs"
proof -
  have "le_nat bs < 2 ^ LENGTH('a)" using le_nat_less [of bs] assms by (simp add: power_mult)
  then have "unat (of_nat (le_nat bs) :: 'a word) = le_nat bs" by (simp add: unat_of_nat take_bit_nat_eq_self)
  then show ?thesis using le_bytes_le_nat [of bs] assms(1) by simp
qed

lemma take_drop_append: "j = i + k \<Longrightarrow> take k (drop i bs) @ drop j bs = drop i bs"
  by (metis add.commute append_take_drop_id drop_drop)

text \<open>A read of \<open>w\<close> bytes at an offset; \<open>None\<close> where it leaves the object.\<close>

definition read_at :: "byte list \<Rightarrow> nat \<Rightarrow> nat \<Rightarrow> byte list option" where
  "read_at m off w = (if off + w \<le> length m then Some (take w (drop off m)) else None)"

definition load_le :: "byte list \<Rightarrow> nat \<Rightarrow> nat \<Rightarrow> nat option" where
  "load_le m off w = map_option le_nat (read_at m off w)"

lemma read_at_append [mem_simps]:
  "off = length pre \<Longrightarrow> w = length bs \<Longrightarrow> read_at (pre @ bs @ post) off w = Some bs"
  by (simp add: read_at_def)

lemma read_at_length: "read_at m off w = Some bs \<Longrightarrow> length bs = w"
  by (auto simp: read_at_def split: if_splits)

lemma read_at_inside: "read_at m off w \<noteq> None \<longleftrightarrow> off + w \<le> length m"
  by (simp add: read_at_def)

subsection \<open>The layout of C structs\<close>

text \<open>
  A member is its name, its size and its alignment. \<open>layout\<close> gives every member its
  offset; a packed struct has alignment 1 throughout.
\<close>

type_synonym c_field = "string \<times> nat \<times> nat"

definition align_up :: "nat \<Rightarrow> nat \<Rightarrow> nat" where
  "align_up n a = (n + a - 1) div a * a"

fun layout :: "nat \<Rightarrow> c_field list \<Rightarrow> (string \<times> nat \<times> nat) list" where
  "layout off [] = []"
| "layout off ((f, sz, al) # fs) = (f, align_up off al, sz) # layout (align_up off al + sz) fs"

fun layout_end :: "nat \<Rightarrow> c_field list \<Rightarrow> nat" where
  "layout_end off [] = off"
| "layout_end off ((f, sz, al) # fs) = layout_end (align_up off al + sz) fs"

definition struct_size :: "c_field list \<Rightarrow> nat" where
  "struct_size fs = align_up (layout_end 0 fs) (fold (\<lambda>(f, sz, al). max al) fs 1)"

definition offset_of :: "c_field list \<Rightarrow> string \<Rightarrow> nat option" where
  "offset_of fs f = map_option fst (map_of (layout 0 fs) f)"

text \<open>The bytes of a member inside the object representation of a struct.\<close>

definition member_bytes :: "c_field list \<Rightarrow> string \<Rightarrow> byte list \<Rightarrow> byte list" where
  "member_bytes fs f bs =
     (case map_of (layout 0 fs) f of None \<Rightarrow> [] | Some (off, sz) \<Rightarrow> take sz (drop off bs))"

definition member_nat :: "c_field list \<Rightarrow> string \<Rightarrow> byte list \<Rightarrow> nat" where
  "member_nat fs f bs = le_nat (member_bytes fs f bs)"

lemma align_up_1 [simp]: "align_up n (Suc 0) = n"
  by (simp add: align_up_def)

lemma align_up_dvd [simp]: "a dvd align_up n a"
  by (simp add: align_up_def)

lemma align_up_ge: "0 < a \<Longrightarrow> n \<le> align_up n a"
proof -
  assume "0 < a"
  then have "(n + a - 1) mod a < a" by simp
  moreover have "(n + a - 1) div a * a + (n + a - 1) mod a = n + a - 1" by (rule div_mult_mod_eq)
  ultimately show ?thesis using \<open>0 < a\<close> unfolding align_up_def by linarith
qed

section \<open>Errors\<close>

text \<open>A computation that may stop with an error, the left injection, and the next one.\<close>

definition and_then :: "'e + 'a \<Rightarrow> ('a \<Rightarrow> 'e + 'b) \<Rightarrow> 'e + 'b" where
  "and_then m f = (case m of Inl e \<Rightarrow> Inl e | Inr x \<Rightarrow> f x)"

lemma and_then_simps [simp]: "and_then (Inl e) f = Inl e" "and_then (Inr x) f = f x"
  by (simp_all add: and_then_def)

lemma and_then_Inr: "and_then m f = Inr y \<longleftrightarrow> (\<exists>x. m = Inr x \<and> f x = Inr y)"
  by (cases m) simp_all

text \<open>The values of a 32-bit \<^verbatim>\<open>int\<close>; a signed result outside of them is undefined in C and C++.\<close>

definition int32 :: "int \<Rightarrow> bool" where
  "int32 x \<longleftrightarrow> - (2 ^ 31) \<le> x \<and> x < 2 ^ 31"

definition checked :: "'e \<Rightarrow> int \<Rightarrow> 'e + int" where
  "checked e x = (if int32 x then Inr x else Inl e)"

lemma checked_in_range: "int32 x \<Longrightarrow> checked e x = Inr x"
  by (simp add: checked_def)

lemma int32_of_nat: "n < 2 ^ 31 \<Longrightarrow> int32 (int n)"
  by (simp add: int32_def)

end
