(* ===== verification/Ring_Buffer.thy ===== *)
theory Ring_Buffer
  imports Prelude
begin

text \<open>
  The class \<^verbatim>\<open>LockFreeMempoolBuffer\<close> of
  \<^verbatim>\<open>src/02-High-Frequency-Trading-Engine/lock-free-ring-buffer.cpp\<close>: its state, its
  compile-time capacity check, \<^verbatim>\<open>push\<close> and \<^verbatim>\<open>pop\<close>, with every index a 64-bit word
  that wraps around. The bounded FIFO contract is a locale; the class is shown to
  implement it. (The thread interleavings are in \<^verbatim>\<open>Ring_Interleaving\<close>.)
\<close>

section \<open>State and operations\<close>

record RawTransaction =
  txid :: "byte list"
  fee :: u64
  payload_size :: u32
  signature_v :: byte
  signature_r :: "byte list"
  signature_s :: "byte list"

text \<open>The value-initialised \<^verbatim>\<open>RawTransaction tx{}\<close>: every member is zero.\<close>

definition raw_transaction_zero :: RawTransaction where
  "raw_transaction_zero =
     \<lparr>txid = replicate 32 0, fee = 0, payload_size = 0, signature_v = 0,
      signature_r = replicate 32 0, signature_s = replicate 32 0\<rparr>"

text \<open>The \<^verbatim>\<open>static_assert\<close> on the template parameter.\<close>

definition capacity_ok :: "size_t \<Rightarrow> bool" where
  "capacity_ok Capacity \<longleftrightarrow> Capacity \<noteq> 0 \<and> (Capacity AND (Capacity - 1)) = 0"

record 'a LockFreeMempoolBuffer =
  mp_buffer :: "'a list"
  mp_head :: size_t
  mp_tail :: size_t

text \<open>A new buffer: \<^verbatim>\<open>std::array\<close> holds \<^verbatim>\<open>Capacity\<close> elements with indeterminate values, the
  argument \<open>junk\<close>; both counters are 0.\<close>

definition mempool_init :: "size_t \<Rightarrow> (nat \<Rightarrow> 'a) \<Rightarrow> 'a LockFreeMempoolBuffer" where
  "mempool_init Capacity junk =
     \<lparr>mp_buffer = map junk [0..<unat Capacity], mp_head = 0, mp_tail = 0\<rparr>"

text \<open>The array index \<^verbatim>\<open>x & (Capacity - 1)\<close>.\<close>

definition slot :: "size_t \<Rightarrow> size_t \<Rightarrow> nat" where
  "slot Capacity x = unat (x AND (Capacity - 1))"

definition push :: "size_t \<Rightarrow> 'a \<Rightarrow> 'a LockFreeMempoolBuffer \<Rightarrow> bool \<times> 'a LockFreeMempoolBuffer" where
  "push Capacity item b =
     (let current_head = mp_head b;
          current_tail = mp_tail b
      in if current_head - current_tail = Capacity then (False, b)
         else (True, b\<lparr>mp_buffer := (mp_buffer b)[slot Capacity current_head := item],
                       mp_head := current_head + 1\<rparr>))"

definition pop :: "size_t \<Rightarrow> 'a LockFreeMempoolBuffer \<Rightarrow> 'a option \<times> 'a LockFreeMempoolBuffer" where
  "pop Capacity b =
     (let current_tail = mp_tail b;
          current_head = mp_head b
      in if current_tail = current_head then (None, b)
         else (Some (mp_buffer b ! slot Capacity current_tail), b\<lparr>mp_tail := current_tail + 1\<rparr>))"

section \<open>Abstraction and invariant\<close>

text \<open>The number of stored items and the items themselves, oldest first.\<close>

definition occupancy :: "'a LockFreeMempoolBuffer \<Rightarrow> nat" where
  "occupancy b = unat (mp_head b - mp_tail b)"

definition contents :: "size_t \<Rightarrow> 'a LockFreeMempoolBuffer \<Rightarrow> 'a list" where
  "contents Capacity b =
     map (\<lambda>i. mp_buffer b ! slot Capacity (mp_tail b + of_nat i)) [0..<occupancy b]"

definition ring_inv :: "size_t \<Rightarrow> 'a LockFreeMempoolBuffer \<Rightarrow> bool" where
  "ring_inv Capacity b \<longleftrightarrow> capacity_ok Capacity \<and> length (mp_buffer b) = unat Capacity
     \<and> occupancy b \<le> unat Capacity"

section \<open>Index arithmetic\<close>

lemma capacity_ok_unat:
  assumes "capacity_ok c"
  obtains k where "unat c = 2 ^ k" and "k < 64"
proof -
  from assms have c: "c \<noteq> 0" "(c AND (c - 1)) = 0" by (simp_all add: capacity_ok_def)
  then have "unat c AND (unat c - 1) = 0"
    by (metis unat_0 unat_pred unsigned_and_eq)
  moreover from c(1) have "0 < unat c" by (simp add: unat_gt_0)
  ultimately obtain k where k: "unat c = 2 ^ k" using and_pred_pow2_nat by blast
  have "unat c < 2 ^ 64" using unsigned_less [of c, where ?'a = nat] by simp
  with k have "k < 64" by (metis nat_power_less_imp_less numeral_2_eq_2 zero_less_Suc)
  with k that show thesis by blast
qed

lemma unat_power_lower64: "k < 64 \<Longrightarrow> unat (2 ^ k :: size_t) = 2 ^ k"
proof -
  assume "k < 64"
  then have "(2::nat) ^ k < 2 ^ 64" by (rule power_strict_increasing) simp
  moreover have "(2 ^ k :: size_t) = of_nat (2 ^ k)" by simp
  ultimately show ?thesis by (simp only: unat_of_nat len_of_numeral_defs) simp
qed

lemma slot_eq_mod:
  assumes "capacity_ok c"
  shows "slot c x = unat x mod unat c"
  using assms by (metis capacity_ok_unat slot_def unat_mask_and)

lemma capacity_pos: "capacity_ok c \<Longrightarrow> 0 < unat c"
  by (simp add: capacity_ok_def unat_gt_0)

lemma slot_less [intro]: "capacity_ok c \<Longrightarrow> slot c x < unat c"
  by (simp add: slot_eq_mod capacity_pos)

lemma slot_offset:
  assumes "capacity_ok c"
  shows "slot c (t + of_nat i) = (unat t + i) mod unat c"
proof -
  from assms obtain k where "unat c = 2 ^ k" "k < 64" by (rule capacity_ok_unat)
  then show ?thesis
    using unat_add_of_nat_mod [of k t i] assms by (simp add: slot_eq_mod)
qed

text \<open>Two live positions never share an array element, also where the counters wrap.\<close>

lemma slot_distinct:
  assumes "capacity_ok c" and "i < unat c" and "j < unat c"
    and "slot c (t + of_nat i) = slot c (t + of_nat j)"
  shows "i = j"
  using assms mod_shift_inj by (metis slot_offset)

lemma head_as_offset: "mp_head b = mp_tail b + of_nat (occupancy b)"
  unfolding occupancy_def by (rule word_eq_add_diff)

lemma full_iff_occupancy: "mp_head b - mp_tail b = c \<longleftrightarrow> occupancy b = unat c"
  by (simp add: occupancy_def word_unat_eq_iff)

lemma empty_iff_occupancy: "mp_tail b = mp_head b \<longleftrightarrow> occupancy b = 0"
  by (auto simp: occupancy_def unat_eq_0)

lemma length_contents [simp]: "length (contents c b) = occupancy b"
  by (simp add: contents_def)

section \<open>The operations refine a bounded FIFO queue\<close>

lemma contents_nth:
  "i < occupancy b \<Longrightarrow> contents c b ! i = mp_buffer b ! slot c (mp_tail b + of_nat i)"
  by (simp add: contents_def)

lemma unat_succ_of_less:
  fixes x :: size_t
  assumes "unat x < unat (c :: size_t)"
  shows "unat (x + 1) = unat x + 1"
proof -
  have "unat x + 1 < 2 ^ 64"
    using assms unsigned_less [of c, where ?'a = nat] by simp
  then show ?thesis by (simp add: unat_word_ariths)
qed

text \<open>Writing the next free element and publishing the new head appends the item.\<close>

lemma occupancy_head_succ:
  assumes "occupancy b < unat (c :: size_t)"
  shows "occupancy (b\<lparr>mp_buffer := xs, mp_head := mp_head b + 1\<rparr>) = occupancy b + 1"
  using unat_succ_of_less [of "mp_head b - mp_tail b" c] assms
  by (simp add: occupancy_def add_diff_eq [symmetric] diff_add_eq)

lemma contents_publish:
  assumes inv: "ring_inv c b" and room: "occupancy b < unat c"
  shows "contents c (b\<lparr>mp_buffer := (mp_buffer b)[slot c (mp_head b) := x],
           mp_head := mp_head b + 1\<rparr>) = contents c b @ [x]"
proof (rule nth_equalityI)
  let ?b = "b\<lparr>mp_buffer := (mp_buffer b)[slot c (mp_head b) := x], mp_head := mp_head b + 1\<rparr>"
  have occ: "occupancy ?b = occupancy b + 1" using room by (rule occupancy_head_succ)
  then show "length (contents c ?b) = length (contents c b @ [x])" by simp
  fix i assume i: "i < length (contents c ?b)"
  have cap: "capacity_ok c" and len: "length (mp_buffer b) = unat c"
    using inv by (simp_all add: ring_inv_def)
  have head: "mp_head b = mp_tail b + of_nat (occupancy b)" by (rule head_as_offset)
  have "(mp_buffer b)[slot c (mp_head b) := x] ! slot c (mp_tail b + of_nat i)
      = (contents c b @ [x]) ! i"
  proof (cases "i = occupancy b")
    case True
    then show ?thesis using head len slot_less [OF cap] by (simp add: nth_append)
  next
    case False
    then have "i < occupancy b" using i occ by simp
    moreover have "slot c (mp_tail b + of_nat i) \<noteq> slot c (mp_head b)"
      using slot_distinct [OF cap, of i "occupancy b" "mp_tail b"] calculation room head by auto
    ultimately show ?thesis by (simp add: nth_append contents_nth)
  qed
  then show "contents c ?b ! i = (contents c b @ [x]) ! i"
    using i occ by (simp add: contents_nth)
qed

text \<open>Advancing the tail drops the oldest item.\<close>

lemma occupancy_tail_succ:
  assumes "0 < occupancy b"
  shows "occupancy (b\<lparr>mp_tail := mp_tail b + 1\<rparr>) = occupancy b - 1"
proof -
  have "mp_head b - mp_tail b \<noteq> 0" using assms by (auto simp: occupancy_def)
  then have "unat (mp_head b - mp_tail b - 1) = unat (mp_head b - mp_tail b) - 1"
    by (rule unat_pred)
  then show ?thesis by (simp add: occupancy_def diff_diff_eq)
qed

lemma contents_consume:
  assumes "0 < occupancy b"
  shows "contents c b =
    mp_buffer b ! slot c (mp_tail b) # contents c (b\<lparr>mp_tail := mp_tail b + 1\<rparr>)"
proof -
  let ?g = "\<lambda>i. mp_buffer b ! slot c (mp_tail b + of_nat i)"
  have "contents c b = map ?g (0 # [Suc 0..<occupancy b])"
    using assms by (simp add: contents_def upt_conv_Cons)
  also have "[Suc 0..<occupancy b] = map Suc [0..<occupancy b - 1]"
    using assms by (simp add: map_Suc_upt)
  finally show ?thesis
    using occupancy_tail_succ [OF assms] by (simp add: contents_def add.assoc o_def)
qed

lemma ring_inv_publish:
  assumes "ring_inv c b" and "occupancy b < unat c"
  shows "ring_inv c (b\<lparr>mp_buffer := (mp_buffer b)[i := x], mp_head := mp_head b + 1\<rparr>)"
  using assms occupancy_head_succ [OF assms(2)] by (simp add: ring_inv_def)

lemma ring_inv_consume:
  assumes "ring_inv c b" and "0 < occupancy b"
  shows "ring_inv c (b\<lparr>mp_tail := mp_tail b + 1\<rparr>)"
  using assms occupancy_tail_succ [OF assms(2)] by (auto simp: ring_inv_def)

lemma ring_inv_init: "capacity_ok c \<Longrightarrow> ring_inv c (mempool_init c d)"
  by (simp add: ring_inv_def mempool_init_def occupancy_def)

lemma contents_init: "contents c (mempool_init c d) = []"
  by (simp add: contents_def mempool_init_def occupancy_def)

lemma push_full:
  "occupancy b = unat c \<Longrightarrow> push c x b = (False, b)"
  by (simp add: push_def full_iff_occupancy)

lemma push_room:
  "occupancy b \<noteq> unat c \<Longrightarrow> push c x b =
     (True, b\<lparr>mp_buffer := (mp_buffer b)[slot c (mp_head b) := x], mp_head := mp_head b + 1\<rparr>)"
  by (simp add: push_def full_iff_occupancy Let_def)

lemma pop_empty: "occupancy b = 0 \<Longrightarrow> pop c b = (None, b)"
  by (simp add: pop_def empty_iff_occupancy)

lemma pop_item:
  "occupancy b \<noteq> 0 \<Longrightarrow>
     pop c b = (Some (mp_buffer b ! slot c (mp_tail b)), b\<lparr>mp_tail := mp_tail b + 1\<rparr>)"
  by (simp add: pop_def empty_iff_occupancy Let_def)

section \<open>The bounded FIFO contract\<close>

text \<open>
  What a client of a bounded queue may rely on. A run of operations is the sequence of calls
  one observer makes: it returns the items accepted by \<open>enq\<close>, the items returned by
  \<open>deq\<close> and the final queue.
\<close>

datatype 'a fifo_op = Enq 'a | Deq

fun run_ops :: "('a \<Rightarrow> 'q \<Rightarrow> bool \<times> 'q) \<Rightarrow> ('q \<Rightarrow> 'a option \<times> 'q) \<Rightarrow> 'a fifo_op list \<Rightarrow> 'q
    \<Rightarrow> 'a list \<times> 'a list \<times> 'q" where
  "run_ops enq deq [] q = ([], [], q)"
| "run_ops enq deq (Enq x # ops) q =
     (let (b, q') = enq x q; (acc, out, r) = run_ops enq deq ops q'
      in (if b then x # acc else acc, out, r))"
| "run_ops enq deq (Deq # ops) q =
     (let (v, q') = deq q; (acc, out, r) = run_ops enq deq ops q'
      in (acc, case v of None \<Rightarrow> out | Some y \<Rightarrow> y # out, r))"

locale bounded_fifo =
  fixes cap :: nat
    and enq :: "'a \<Rightarrow> 'q \<Rightarrow> bool \<times> 'q"
    and deq :: "'q \<Rightarrow> 'a option \<times> 'q"
    and items :: "'q \<Rightarrow> 'a list"
    and ok :: "'q \<Rightarrow> bool"
  assumes bound: "ok q \<Longrightarrow> length (items q) \<le> cap"
    and enq_full: "ok q \<Longrightarrow> length (items q) = cap \<Longrightarrow> enq x q = (False, q)"
    and enq_room: "ok q \<Longrightarrow> length (items q) < cap \<Longrightarrow>
          \<exists>q'. enq x q = (True, q') \<and> items q' = items q @ [x] \<and> ok q'"
    and deq_empty: "ok q \<Longrightarrow> items q = [] \<Longrightarrow> deq q = (None, q)"
    and deq_item: "ok q \<Longrightarrow> items q = y # ys \<Longrightarrow>
          \<exists>q'. deq q = (Some y, q') \<and> items q' = ys \<and> ok q'"
begin

lemma enq_cases:
  assumes "ok q" and "enq x q = (b, q')"
  shows "ok q' \<and> items q' = items q @ (if b then [x] else [])"
  using assms bound [OF assms(1)] enq_full [OF assms(1), of x] enq_room [OF assms(1), of x]
  by (cases "length (items q) = cap") auto

lemma deq_cases:
  assumes "ok q" and "deq q = (v, q')"
  shows "ok q' \<and> items q = (case v of None \<Rightarrow> [] | Some y \<Rightarrow> [y]) @ items q'"
  using assms deq_empty [OF assms(1)] deq_item [OF assms(1)]
  by (cases "items q") auto

text \<open>
  No item is lost, duplicated or reordered: what was returned, followed by what is stored,
  is what was stored before, followed by what was accepted.
\<close>

lemma run_fifo:
  assumes "ok q" and "run_ops enq deq ops q = (acc, out, q')"
  shows "ok q' \<and> out @ items q' = items q @ acc"
  using assms
proof (induction ops arbitrary: q acc out q')
  case Nil
  then show ?case by simp
next
  case (Cons p ops)
  show ?case
  proof (cases p)
    case (Enq x)
    obtain b q1 where e: "enq x q = (b, q1)" by fastforce
    obtain acc1 out1 q2 where r: "run_ops enq deq ops q1 = (acc1, out1, q2)" by (metis prod_cases3)
    show ?thesis
      using enq_cases [OF Cons.prems(1) e] Cons.IH [OF _ r] Cons.prems(2) Enq e r
      by (auto split: if_splits)
  next
    case Deq
    obtain v q1 where e: "deq q = (v, q1)" by fastforce
    obtain acc1 out1 q2 where r: "run_ops enq deq ops q1 = (acc1, out1, q2)" by (metis prod_cases3)
    show ?thesis
      using deq_cases [OF Cons.prems(1) e] Cons.IH [OF _ r] Cons.prems(2) Deq e r
      by (auto split: option.splits)
  qed
qed

end

lemma ring_bounded_fifo:
  "bounded_fifo (unat c) (push c) (pop c) (contents c) (ring_inv c)"
proof unfold_locales
  fix q :: "'a LockFreeMempoolBuffer" and x
  assume inv: "ring_inv c q"
  then show "length (contents c q) \<le> unat c" by (simp add: ring_inv_def)
  show "push c x q = (False, q)" if "length (contents c q) = unat c"
    using that by (simp add: push_full)
  show "\<exists>q'. push c x q = (True, q') \<and> contents c q' = contents c q @ [x] \<and> ring_inv c q'"
    if "length (contents c q) < unat c"
    using that inv by (simp add: push_room contents_publish ring_inv_publish)
  show "pop c q = (None, q)" if "contents c q = []"
    using that by (metis length_contents list.size(3) pop_empty)
  show "\<exists>q'. pop c q = (Some y, q') \<and> contents c q' = ys \<and> ring_inv c q'"
    if "contents c q = y # ys" for y ys
  proof -
    have occ: "0 < occupancy q" using that by (metis length_contents length_greater_0_conv list.distinct(1))
    then have "pop c q = (Some y, q\<lparr>mp_tail := mp_tail q + 1\<rparr>)"
      and "contents c (q\<lparr>mp_tail := mp_tail q + 1\<rparr>) = ys"
      using that contents_consume [OF occ, of c] by (simp_all add: pop_item)
    then show ?thesis using ring_inv_consume [OF inv occ] by blast
  qed
qed

interpretation ring: bounded_fifo "unat c" "push c" "pop c" "contents c" "ring_inv c" for c
  by (rule ring_bounded_fifo)

section \<open>Properties\<close>

text \<open>C1. A run of \<^verbatim>\<open>push\<close> and \<^verbatim>\<open>pop\<close> calls on a new buffer of any admissible capacity
  is FIFO: the items popped, followed by the items still stored, are exactly the items whose
  push returned true, in order, and at most \<^verbatim>\<open>Capacity\<close> items are stored. The counters
  are 64-bit words, so this covers the wrap-around of \<^verbatim>\<open>head_\<close> and \<^verbatim>\<open>tail_\<close>.\<close>

theorem mempool_run_fifo:
  assumes "capacity_ok Capacity"
    and "run_ops (push Capacity) (pop Capacity) ops (mempool_init Capacity d) = (acc, out, b)"
  shows "out @ contents Capacity b = acc \<and> length (contents Capacity b) \<le> unat Capacity"
  using ring.run_fifo [OF ring_inv_init [OF assms(1)] assms(2)] ring.bound
  by (auto simp: contents_init)

theorem mempool_run_fifo_witness:
  "\<exists>acc out b. run_ops (push 2) (pop 2) [Enq (7::nat), Enq 8, Enq 9, Deq] (mempool_init 2 (\<lambda>_. 0))
     = (acc, out, b) \<and> acc = [7, 8] \<and> out = [7] \<and> out @ contents 2 b = acc"
proof -
  obtain acc out b where r: "run_ops (push 2) (pop 2) [Enq (7::nat), Enq 8, Enq 9, Deq]
      (mempool_init 2 (\<lambda>_. 0)) = (acc, out, b)" by (metis prod_cases3)
  have "capacity_ok 2" by (simp add: capacity_ok_def)
  from mempool_run_fifo [OF this r] r show ?thesis
    by (auto simp: push_def pop_def mempool_init_def slot_def)
qed

text \<open>C2. The buffer refines a bounded queue from every state that satisfies the invariant:
  \<^verbatim>\<open>push\<close> returns false and changes nothing exactly when \<^verbatim>\<open>Capacity\<close> items are stored,
  and appends otherwise; \<^verbatim>\<open>pop\<close> returns nothing exactly when no item is stored, and removes
  the oldest item otherwise; both keep the invariant. No bound on the counters is assumed.\<close>

theorem mempool_refines_queue:
  assumes "ring_inv Capacity b"
  shows "(case push Capacity x b of (accepted, b') \<Rightarrow> ring_inv Capacity b' \<and>
            (if length (contents Capacity b) = unat Capacity then \<not> accepted \<and> b' = b
             else accepted \<and> contents Capacity b' = contents Capacity b @ [x]))
       \<and> (case pop Capacity b of (r, b') \<Rightarrow> ring_inv Capacity b' \<and>
            (case contents Capacity b of
               [] \<Rightarrow> r = None \<and> b' = b
             | y # ys \<Rightarrow> r = Some y \<and> contents Capacity b' = ys))"
proof -
  have "length (contents Capacity b) \<le> unat Capacity" using assms by (rule ring.bound)
  then show ?thesis
    using assms ring.enq_full [OF assms, of x] ring.enq_room [OF assms, of x]
      ring.deq_empty [OF assms] ring.deq_item [OF assms]
    by (cases "contents Capacity b") (auto simp: le_less)
qed

text \<open>The invariant also holds where the head counter has wrapped and the tail has not.\<close>

theorem mempool_refines_queue_witness:
  "contents 2 (snd (push 2 (5::nat) \<lparr>mp_buffer = [0, 4], mp_head = 0, mp_tail = - 1\<rparr>)) = [4, 5]"
proof -
  let ?b = "\<lparr>mp_buffer = [0, 4::nat], mp_head = 0, mp_tail = - 1\<rparr>"
  have "ring_inv 2 ?b" by (simp add: ring_inv_def capacity_ok_def occupancy_def)
  moreover have "contents 2 ?b = [4]" by (simp add: contents_def occupancy_def slot_def)
  ultimately show ?thesis using mempool_refines_queue [of 2 ?b 5] by (auto split: prod.splits)
qed

text \<open>C32. The compile-time check accepts exactly the powers of two that fit in
  \<^verbatim>\<open>size_t\<close>, and for these the mask index \<^verbatim>\<open>x & (Capacity - 1)\<close> is the remainder
  modulo \<^verbatim>\<open>Capacity\<close>, hence inside the array.\<close>

theorem capacity_check_power_of_two:
  "capacity_ok Capacity = (\<exists>k<64. Capacity = 2 ^ k) \<and>
   (capacity_ok Capacity \<longrightarrow>
      slot Capacity x = unat x mod unat Capacity \<and> slot Capacity x < unat Capacity)"
proof -
  have "capacity_ok Capacity" if "k < 64" and "Capacity = 2 ^ k" for k
  proof -
    have k: "unat Capacity = 2 ^ k" using that by (simp add: unat_power_lower64)
    then have "Capacity \<noteq> 0" by auto
    moreover have "unat (Capacity AND (Capacity - 1)) = 0"
      using unat_mask_and [OF k, of Capacity] k by simp
    ultimately show ?thesis by (simp add: capacity_ok_def unat_eq_0)
  qed
  moreover have "\<exists>k<64. Capacity = 2 ^ k" if "capacity_ok Capacity"
    using capacity_ok_unat [OF that] by (metis word_unat_eq_iff unat_power_lower64)
  ultimately show ?thesis using slot_eq_mod slot_less by blast
qed

theorem capacity_check_power_of_two_witness:
  "capacity_ok 1024 \<and> slot 1024 5000 = 904 \<and> \<not> capacity_ok 1000"
  using capacity_check_power_of_two [of 1024 5000] by (simp add: capacity_ok_def)

end
