(* ===== verification/Ring_Interleaving.thy ===== *)
theory Ring_Interleaving
  imports Ring_Buffer
begin

text \<open>
  The function \<^verbatim>\<open>simulate_gossip_protocol\<close> of
  \<^verbatim>\<open>src/02-High-Frequency-Trading-Engine/lock-free-ring-buffer.cpp\<close>: the network thread
  and the mining thread run \<^verbatim>\<open>push\<close> and \<^verbatim>\<open>pop\<close> concurrently on one buffer. Each
  access to shared memory (an atomic load, an atomic store, a read or a write of an array
  element) is one step, and the steps of the two threads interleave in any order. Every load
  returns the last value stored: the theorems here are about interleavings of atomic steps. The
  memory orders are the subject of \<open>Ring_Memory_Orders\<close>.

  \<open>Capacity\<close> and \<open>n_txs\<close> (the 50000 of the source) are parameters of the
  definitions; \<open>received\<close> records the popped transactions, which the source only counts.
\<close>

section \<open>Threads as program counters\<close>

datatype producer_pc = PLoop | PLoadHead | PLoadTail | PWrite | PPublish | PDone
datatype consumer_pc = CLoop | CLoadTail | CLoadHead | CRead | CRelease | CDone

record gossip =
  mempool :: "RawTransaction LockFreeMempoolBuffer"
  p_pc :: producer_pc
  p_i :: u64
  p_tx :: RawTransaction
  p_current_head :: size_t
  p_current_tail :: size_t
  c_pc :: consumer_pc
  c_current_tail :: size_t
  c_current_head :: size_t
  c_item :: RawTransaction
  processed_count :: u64
  received :: "RawTransaction list"

definition gossip_tx :: "u64 \<Rightarrow> RawTransaction" where
  "gossip_tx i = raw_transaction_zero\<lparr>fee := i * 10\<rparr>"

definition gossip_init :: "size_t \<Rightarrow> (nat \<Rightarrow> RawTransaction) \<Rightarrow> gossip" where
  "gossip_init Capacity junk =
     \<lparr>mempool = mempool_init Capacity junk,
      p_pc = PLoop, p_i = 1, p_tx = raw_transaction_zero, p_current_head = 0, p_current_tail = 0,
      c_pc = CLoop, c_current_tail = 0, c_current_head = 0, c_item = raw_transaction_zero,
      processed_count = 0, received = []\<rparr>"

text \<open>
  The network thread: the \<^verbatim>\<open>for\<close> test and the construction of \<open>tx\<close>; in
  \<^verbatim>\<open>push\<close> the load of the head, the load of the tail with the full test (a failed push
  yields and tries again), the write of the element, the store of the head (after which
  \<^verbatim>\<open>push\<close> returns true and the loop counter advances).
\<close>

definition producer_step :: "size_t \<Rightarrow> u64 \<Rightarrow> gossip \<Rightarrow> gossip" where
  "producer_step Capacity n_txs s =
     (case p_pc s of
        PLoop \<Rightarrow> if p_i s \<le> n_txs then s\<lparr>p_tx := gossip_tx (p_i s), p_pc := PLoadHead\<rparr>
                 else s\<lparr>p_pc := PDone\<rparr>
      | PLoadHead \<Rightarrow> s\<lparr>p_current_head := mp_head (mempool s), p_pc := PLoadTail\<rparr>
      | PLoadTail \<Rightarrow>
          (let t = mp_tail (mempool s)
           in s\<lparr>p_current_tail := t,
                p_pc := (if p_current_head s - t = Capacity then PLoadHead else PWrite)\<rparr>)
      | PWrite \<Rightarrow>
          s\<lparr>mempool := (mempool s)\<lparr>mp_buffer :=
               (mp_buffer (mempool s))[slot Capacity (p_current_head s) := p_tx s]\<rparr>,
            p_pc := PPublish\<rparr>
      | PPublish \<Rightarrow>
          s\<lparr>mempool := (mempool s)\<lparr>mp_head := p_current_head s + 1\<rparr>,
            p_i := p_i s + 1, p_pc := PLoop\<rparr>
      | PDone \<Rightarrow> s)"

text \<open>
  The mining thread: the \<^verbatim>\<open>while\<close> test; in \<^verbatim>\<open>pop\<close> the load of the tail, the load of
  the head with the empty test, the read of the element, the store of the tail (after which
  \<^verbatim>\<open>pop\<close> returns the item and it is counted).
\<close>

definition consumer_step :: "size_t \<Rightarrow> u64 \<Rightarrow> gossip \<Rightarrow> gossip" where
  "consumer_step Capacity n_txs s =
     (case c_pc s of
        CLoop \<Rightarrow> s\<lparr>c_pc := (if processed_count s < n_txs then CLoadTail else CDone)\<rparr>
      | CLoadTail \<Rightarrow> s\<lparr>c_current_tail := mp_tail (mempool s), c_pc := CLoadHead\<rparr>
      | CLoadHead \<Rightarrow>
          (let h = mp_head (mempool s)
           in s\<lparr>c_current_head := h,
                c_pc := (if c_current_tail s = h then CLoop else CRead)\<rparr>)
      | CRead \<Rightarrow>
          s\<lparr>c_item := mp_buffer (mempool s) ! slot Capacity (c_current_tail s), c_pc := CRelease\<rparr>
      | CRelease \<Rightarrow>
          s\<lparr>mempool := (mempool s)\<lparr>mp_tail := c_current_tail s + 1\<rparr>,
            processed_count := processed_count s + 1,
            received := received s @ [c_item s], c_pc := CLoop\<rparr>
      | CDone \<Rightarrow> s)"

inductive gossip_step :: "size_t \<Rightarrow> u64 \<Rightarrow> gossip \<Rightarrow> gossip \<Rightarrow> bool" for Capacity n_txs where
  network: "p_pc s \<noteq> PDone \<Longrightarrow> gossip_step Capacity n_txs s (producer_step Capacity n_txs s)"
| mining: "c_pc s \<noteq> CDone \<Longrightarrow> gossip_step Capacity n_txs s (consumer_step Capacity n_txs s)"

inductive_cases gossip_stepE: "gossip_step Capacity n_txs s t"

inductive gossip_reach :: "size_t \<Rightarrow> u64 \<Rightarrow> gossip \<Rightarrow> bool" for Capacity n_txs where
  start: "gossip_reach Capacity n_txs (gossip_init Capacity junk)"
| step: "gossip_reach Capacity n_txs s \<Longrightarrow> gossip_step Capacity n_txs s t \<Longrightarrow>
     gossip_reach Capacity n_txs t"

text \<open>Both threads have been joined.\<close>

definition joined :: "gossip \<Rightarrow> bool" where
  "joined s \<longleftrightarrow> p_pc s = PDone \<and> c_pc s = CDone"

text \<open>An executable schedule: \<open>True\<close> runs the network thread, \<open>False\<close> the mining thread.\<close>

fun run_schedule :: "size_t \<Rightarrow> u64 \<Rightarrow> bool list \<Rightarrow> gossip \<Rightarrow> gossip" where
  "run_schedule Capacity n_txs [] s = s"
| "run_schedule Capacity n_txs (b # bs) s =
     run_schedule Capacity n_txs bs
       (if b then producer_step Capacity n_txs s else consumer_step Capacity n_txs s)"

section \<open>The invariant\<close>

text \<open>The transactions \<open>1, \<dots>, k\<close> the network thread sends.\<close>

definition sent_txs :: "nat \<Rightarrow> RawTransaction list" where
  "sent_txs k = map (\<lambda>j. gossip_tx (of_nat j)) [1..<Suc k]"

definition producer_inv :: "size_t \<Rightarrow> u64 \<Rightarrow> gossip \<Rightarrow> bool" where
  "producer_inv c N s \<longleftrightarrow>
     1 \<le> unat (p_i s) \<and> unat (p_i s) \<le> unat N + 1
     \<and> (p_pc s \<in> {PLoadHead, PLoadTail, PWrite, PPublish} \<longrightarrow> p_i s \<le> N \<and> p_tx s = gossip_tx (p_i s))
     \<and> (p_pc s \<in> {PLoadTail, PWrite, PPublish} \<longrightarrow> p_current_head s = mp_head (mempool s))
     \<and> (p_pc s \<in> {PWrite, PPublish} \<longrightarrow> occupancy (mempool s) < unat c)
     \<and> (p_pc s = PPublish \<longrightarrow> mp_buffer (mempool s) ! slot c (mp_head (mempool s)) = p_tx s)
     \<and> (p_pc s = PDone \<longrightarrow> unat (p_i s) = unat N + 1)"

definition consumer_inv :: "size_t \<Rightarrow> u64 \<Rightarrow> gossip \<Rightarrow> bool" where
  "consumer_inv c N s \<longleftrightarrow>
     unat (processed_count s) = length (received s) \<and> processed_count s \<le> N
     \<and> (c_pc s \<in> {CLoadTail, CLoadHead, CRead, CRelease} \<longrightarrow> processed_count s < N)
     \<and> (c_pc s \<in> {CLoadHead, CRead, CRelease} \<longrightarrow> c_current_tail s = mp_tail (mempool s))
     \<and> (c_pc s \<in> {CRead, CRelease} \<longrightarrow> 0 < occupancy (mempool s))
     \<and> (c_pc s = CRelease \<longrightarrow> c_item s = mp_buffer (mempool s) ! slot c (mp_tail (mempool s)))
     \<and> (c_pc s = CDone \<longrightarrow> processed_count s = N)"

definition channel_inv :: "size_t \<Rightarrow> gossip \<Rightarrow> bool" where
  "channel_inv c s \<longleftrightarrow> ring_inv c (mempool s)
     \<and> received s @ contents c (mempool s) = sent_txs (unat (p_i s) - 1)"

definition gossip_inv :: "size_t \<Rightarrow> u64 \<Rightarrow> gossip \<Rightarrow> bool" where
  "gossip_inv c N s \<longleftrightarrow> channel_inv c s \<and> producer_inv c N s \<and> consumer_inv c N s"

lemmas gossip_inv_defs = gossip_inv_def channel_inv_def producer_inv_def consumer_inv_def

lemma gossip_inv_init: "capacity_ok c \<Longrightarrow> gossip_inv c N (gossip_init c junk)"
  by (simp add: gossip_inv_defs gossip_init_def ring_inv_init contents_init sent_txs_def)

section \<open>Every step keeps the invariant\<close>

text \<open>Writing the free element under the head changes no stored item.\<close>

lemma occupancy_write [simp]: "occupancy (b\<lparr>mp_buffer := xs\<rparr>) = occupancy b"
  by (simp add: occupancy_def)

lemma slot_head_not_live:
  assumes "ring_inv c b" and "occupancy b < unat c" and "i < occupancy b"
  shows "slot c (mp_tail b + of_nat i) \<noteq> slot c (mp_head b)"
  using assms slot_distinct [of c i "occupancy b" "mp_tail b"] head_as_offset [of b]
  by (auto simp: ring_inv_def)

lemma slot_head_not_tail:
  assumes "ring_inv c b" and "occupancy b < unat c" and "0 < occupancy b"
  shows "slot c (mp_head b) \<noteq> slot c (mp_tail b)"
  using slot_head_not_live [OF assms] by simp

lemma contents_write:
  assumes "ring_inv c b" and "occupancy b < unat c"
  shows "contents c (b\<lparr>mp_buffer := (mp_buffer b)[slot c (mp_head b) := x]\<rparr>) = contents c b"
  using slot_head_not_live [OF assms]
  by (simp add: contents_def nth_list_update eq_commute [of "slot c (mp_head b)"])

lemma ring_inv_write: "ring_inv c b \<Longrightarrow> ring_inv c (b\<lparr>mp_buffer := (mp_buffer b)[i := x]\<rparr>)"
  by (simp add: ring_inv_def)

text \<open>Publishing the head makes the element under it the newest item.\<close>

lemma contents_publish_only:
  assumes "ring_inv c b" and "occupancy b < unat c"
  shows "contents c (b\<lparr>mp_head := mp_head b + 1\<rparr>) = contents c b @ [mp_buffer b ! slot c (mp_head b)]"
  using contents_publish [OF assms, of "mp_buffer b ! slot c (mp_head b)"] by simp

lemma occupancy_publish_only:
  assumes "occupancy b < unat (c :: size_t)"
  shows "occupancy (b\<lparr>mp_head := mp_head b + 1\<rparr>) = occupancy b + 1"
  using occupancy_head_succ [OF assms, of "mp_buffer b"] by simp

lemma ring_inv_publish_only:
  assumes "ring_inv c b" and "occupancy b < unat c"
  shows "ring_inv c (b\<lparr>mp_head := mp_head b + 1\<rparr>)"
  using ring_inv_publish [OF assms, of 0 "mp_buffer b ! 0"] by simp

lemma length_sent_txs [simp]: "length (sent_txs k) = k"
  by (simp add: sent_txs_def del: upt_Suc)

lemma prefix_sent_txs: "j \<le> k \<Longrightarrow> prefix (sent_txs j) (sent_txs k)"
  unfolding sent_txs_def by (intro map_mono_prefix) (metis le_add_diff_inverse Suc_le_mono
      append_prefixD le_Suc_eq not_less_eq_eq prefix_order.refl upt_add_eq_append One_nat_def Suc_leI zero_less_Suc)

lemma sent_txs_Suc:
  "1 \<le> unat i \<Longrightarrow> sent_txs (unat i) = sent_txs (unat i - 1) @ [gossip_tx i]"
  by (simp add: sent_txs_def)

lemma unat_Suc_le:
  fixes i N :: u64
  assumes "i \<le> N" and "N \<noteq> - 1"
  shows "unat (i + 1) = unat i + 1"
  using assms by (metis Suc_eq_plus1 add.commute unatSuc word_le_less_eq word_not_simps(3) add_eq_0_iff)

lemma producer_publish_inv:
  assumes inv: "gossip_inv c N s" and N: "N \<noteq> - 1" and PPublish: "p_pc s = PPublish"
  shows "gossip_inv c N (producer_step c N s)"
proof -
  let ?b = "(mempool s)\<lparr>mp_head := mp_head (mempool s) + 1\<rparr>"
  from PPublish inv have occ: "occupancy (mempool s) < unat c" and le: "p_i s \<le> N"
    and ring: "ring_inv c (mempool s)" and head: "p_current_head s = mp_head (mempool s)"
    and item: "mp_buffer (mempool s) ! slot c (mp_head (mempool s)) = gossip_tx (p_i s)"
    and sent: "received s @ contents c (mempool s) = sent_txs (unat (p_i s) - 1)"
    and pos: "1 \<le> unat (p_i s)"
    by (simp_all add: gossip_inv_defs)
  have i: "unat (p_i s + 1) = unat (p_i s) + 1" using le N by (rule unat_Suc_le)
  have "received s @ contents c ?b = sent_txs (unat (p_i s))"
    using sent sent_txs_Suc [OF pos] contents_publish_only [OF ring occ] item by simp
  then have chan: "channel_inv c (producer_step c N s)"
    using PPublish head i ring_inv_publish_only [OF ring occ]
    by (simp add: channel_inv_def producer_step_def)
  have prod: "producer_inv c N (producer_step c N s)"
    using PPublish i le by (simp add: producer_inv_def producer_step_def word_le_nat_alt)
  have "consumer_inv c N (producer_step c N s)"
    using PPublish inv head occupancy_publish_only [OF occ]
    by (simp add: gossip_inv_def consumer_inv_def producer_step_def)
  with chan prod show ?thesis by (simp add: gossip_inv_def)
qed

lemma producer_step_inv:
  assumes inv: "gossip_inv c N s" and N: "N \<noteq> - 1"
  shows "gossip_inv c N (producer_step c N s)"
proof (cases "p_pc s")
  case PLoop
  show ?thesis
  proof (cases "p_i s \<le> N")
    case True
    with PLoop inv show ?thesis by (simp add: gossip_inv_defs producer_step_def)
  next
    case False
    then have "unat N < unat (p_i s)" by (simp add: word_le_nat_alt)
    moreover from inv have "unat (p_i s) \<le> unat N + 1" by (simp add: gossip_inv_defs)
    ultimately have "unat (p_i s) = unat N + 1" by simp
    with False PLoop inv show ?thesis by (simp add: gossip_inv_defs producer_step_def)
  qed
next
  case PLoadHead
  then show ?thesis using inv by (simp add: gossip_inv_defs producer_step_def)
next
  case PLoadTail
  then show ?thesis using inv full_iff_occupancy [of "mempool s" c]
    by (auto simp: gossip_inv_defs producer_step_def Let_def ring_inv_def)
next
  case PWrite
  then show ?thesis
    using inv slot_head_not_tail [of c "mempool s"] slot_less [of c "mp_head (mempool s)"]
    by (auto simp: gossip_inv_defs producer_step_def contents_write ring_inv_write ring_inv_def)
next
  case PPublish
  with inv N show ?thesis by (rule producer_publish_inv)
next
  case PDone
  then show ?thesis using inv by (simp add: producer_step_def)
qed

lemma consumer_release_inv:
  assumes inv: "gossip_inv c N s" and CRelease: "c_pc s = CRelease"
  shows "gossip_inv c N (consumer_step c N s)"
proof -
  let ?b = "(mempool s)\<lparr>mp_tail := mp_tail (mempool s) + 1\<rparr>"
  from CRelease inv have occ: "0 < occupancy (mempool s)" and lt: "processed_count s < N"
    and ring: "ring_inv c (mempool s)" by (simp_all add: gossip_inv_defs)
  from occ have "contents c (mempool s) = mp_buffer (mempool s) ! slot c (mp_tail (mempool s)) # contents c ?b"
    by (rule contents_consume)
  moreover have item: "c_item s = mp_buffer (mempool s) ! slot c (mp_tail (mempool s))"
    and tail: "c_current_tail s = mp_tail (mempool s)"
    and sent: "received s @ contents c (mempool s) = sent_txs (unat (p_i s) - 1)"
    using CRelease inv by (simp_all add: gossip_inv_def consumer_inv_def channel_inv_def)
  ultimately have "(received s @ [c_item s]) @ contents c ?b = sent_txs (unat (p_i s) - 1)"
    by (metis append.assoc append_Cons append_Nil)
  then have chan: "channel_inv c (consumer_step c N s)"
    using CRelease tail ring_inv_consume [OF ring occ]
    by (simp add: channel_inv_def consumer_step_def)
  have "unat (processed_count s + 1) = unat (processed_count s) + 1"
    using lt by (intro unat_succ_of_less [of _ N]) (simp add: word_less_nat_alt)
  then have cons: "consumer_inv c N (consumer_step c N s)"
    using CRelease inv lt
    by (simp add: gossip_inv_def consumer_inv_def consumer_step_def word_le_nat_alt word_less_nat_alt)
  have "producer_inv c N (consumer_step c N s)"
    using CRelease inv occupancy_tail_succ [OF occ]
    by (simp add: gossip_inv_def producer_inv_def consumer_inv_def consumer_step_def less_imp_diff_less)
  with chan cons show ?thesis by (simp add: gossip_inv_def)
qed

lemma consumer_step_inv:
  assumes inv: "gossip_inv c N s"
  shows "gossip_inv c N (consumer_step c N s)"
proof (cases "c_pc s")
  case CLoop
  show ?thesis
  proof (cases "processed_count s < N")
    case True
    with CLoop inv show ?thesis by (simp add: gossip_inv_defs consumer_step_def)
  next
    case False
    moreover from inv have "processed_count s \<le> N" by (simp add: gossip_inv_defs)
    ultimately have "processed_count s = N" by (simp add: order_le_less)
    with CLoop inv show ?thesis by (simp add: gossip_inv_defs consumer_step_def)
  qed
next
  case CLoadTail
  then show ?thesis using inv by (simp add: gossip_inv_defs consumer_step_def)
next
  case CLoadHead
  then show ?thesis using inv empty_iff_occupancy [of "mempool s"]
    by (auto simp: gossip_inv_defs consumer_step_def Let_def)
next
  case CRead
  then show ?thesis using inv by (simp add: gossip_inv_defs consumer_step_def)
next
  case CRelease
  with inv show ?thesis by (rule consumer_release_inv)
next
  case CDone
  then show ?thesis using inv by (simp add: consumer_step_def)
qed

lemma gossip_reach_inv:
  assumes "gossip_reach c N s" and "capacity_ok c" and "N \<noteq> - 1"
  shows "gossip_inv c N s"
  using assms(1)
proof (induction rule: gossip_reach.induct)
  case start
  show ?case using assms(2) by (rule gossip_inv_init)
next
  case (step s t)
  then show ?case
    by (auto elim!: gossip_stepE intro: producer_step_inv [OF _ assms(3)] consumer_step_inv)
qed

section \<open>Progress\<close>

text \<open>
  The work a thread has left: five steps per item still to be sent or received, less the
  steps already made for the current one. Only a failed \<^verbatim>\<open>push\<close> or \<^verbatim>\<open>pop\<close> increases it.
\<close>

definition producer_work :: "u64 \<Rightarrow> gossip \<Rightarrow> nat" where
  "producer_work N s = 5 * (unat N + 1 - unat (p_i s)) +
     (case p_pc s of PLoop \<Rightarrow> 5 | PLoadHead \<Rightarrow> 4 | PLoadTail \<Rightarrow> 3 | PWrite \<Rightarrow> 2 | PPublish \<Rightarrow> 1 | PDone \<Rightarrow> 0)"

definition consumer_work :: "u64 \<Rightarrow> gossip \<Rightarrow> nat" where
  "consumer_work N s = 5 * (unat N - unat (processed_count s)) +
     (case c_pc s of CLoop \<Rightarrow> 5 | CLoadTail \<Rightarrow> 4 | CLoadHead \<Rightarrow> 3 | CRead \<Rightarrow> 2 | CRelease \<Rightarrow> 1 | CDone \<Rightarrow> 0)"

definition gossip_work :: "u64 \<Rightarrow> gossip \<Rightarrow> nat" where
  "gossip_work N s = producer_work N s + consumer_work N s"

lemmas work_defs = gossip_work_def producer_work_def consumer_work_def

text \<open>The network thread makes progress unless it sees a full buffer.\<close>

lemma producer_progress:
  assumes inv: "gossip_inv c N s" and N: "N \<noteq> - 1" and pc: "p_pc s \<noteq> PDone"
    and room: "\<not> (p_pc s = PLoadTail \<and> occupancy (mempool s) = unat c)"
  shows "gossip_work N (producer_step c N s) < gossip_work N s"
proof (cases "p_pc s")
  case PLoadTail
  then have "p_current_head s - mp_tail (mempool s) \<noteq> c"
    using inv room full_iff_occupancy [of "mempool s" c] by (simp add: gossip_inv_defs)
  then show ?thesis using PLoadTail by (simp add: work_defs producer_step_def Let_def)
next
  case PPublish
  then have le: "p_i s \<le> N" using inv by (simp add: gossip_inv_def producer_inv_def)
  then have "unat (p_i s) \<le> unat N" by (simp add: word_le_nat_alt)
  then show ?thesis using PPublish unat_Suc_le [OF le N]
    by (simp add: work_defs producer_step_def)
qed (use pc in \<open>auto simp: work_defs producer_step_def\<close>)

text \<open>The mining thread makes progress unless it sees an empty buffer.\<close>

lemma consumer_progress:
  assumes inv: "gossip_inv c N s" and pc: "c_pc s \<noteq> CDone"
    and item: "\<not> (c_pc s = CLoadHead \<and> occupancy (mempool s) = 0)"
  shows "gossip_work N (consumer_step c N s) < gossip_work N s"
proof (cases "c_pc s")
  case CLoadHead
  then have "c_current_tail s \<noteq> mp_head (mempool s)"
    using inv item empty_iff_occupancy [of "mempool s"] by (simp add: gossip_inv_def consumer_inv_def)
  then show ?thesis using CLoadHead by (simp add: work_defs consumer_step_def Let_def)
next
  case CRelease
  then have "unat (processed_count s) < unat N"
    using inv by (simp add: gossip_inv_def consumer_inv_def word_less_nat_alt)
  then show ?thesis using CRelease unat_succ_of_less [of "processed_count s" N]
    by (simp add: work_defs consumer_step_def)
qed (use pc in \<open>auto simp: work_defs consumer_step_def\<close>)

text \<open>Counting items: sent = received + stored.\<close>

lemma gossip_count:
  assumes "gossip_inv c N s"
  shows "unat (p_i s) - 1 = length (received s) + occupancy (mempool s)"
proof -
  have "length (received s @ contents c (mempool s)) = length (sent_txs (unat (p_i s) - 1))"
    using assms by (simp add: gossip_inv_def channel_inv_def)
  then show ?thesis by simp
qed

text \<open>The two threads never wait for each other: some step always makes progress.\<close>

lemma gossip_progress:
  assumes inv: "gossip_inv c N s" and N: "N \<noteq> - 1" and nf: "\<not> joined s"
  shows "\<exists>t. gossip_step c N s t \<and> gossip_work N t < gossip_work N s"
proof (cases "p_pc s = PDone \<or> p_pc s = PLoadTail \<and> occupancy (mempool s) = unat c")
  case False
  then show ?thesis using producer_progress [OF inv N] gossip_step.network [of s c N] by blast
next
  case True
  have count: "unat (p_i s) - 1 = length (received s) + occupancy (mempool s)"
    using inv by (rule gossip_count)
  have pos: "0 < unat c" using inv by (simp add: gossip_inv_def channel_inv_def ring_inv_def capacity_pos)
  have proc: "unat (processed_count s) = length (received s)" "1 \<le> unat (p_i s)"
    "unat (p_i s) \<le> unat N + 1" "p_pc s = PDone \<Longrightarrow> unat (p_i s) = unat N + 1"
    "c_pc s = CDone \<Longrightarrow> processed_count s = N" "c_pc s = CLoadHead \<Longrightarrow> unat (processed_count s) < unat N"
    using inv by (simp_all add: gossip_inv_def producer_inv_def consumer_inv_def word_less_nat_alt)
  have "c_pc s \<noteq> CDone" using True nf count pos proc by (auto simp: joined_def)
  moreover have "\<not> (c_pc s = CLoadHead \<and> occupancy (mempool s) = 0)"
    using True count pos proc by auto
  ultimately show ?thesis using consumer_progress [OF inv] gossip_step.mining [of s c N] by blast
qed

text \<open>What the invariant says of the received transactions.\<close>

lemma gossip_inv_prefix:
  assumes inv: "gossip_inv c N s"
  shows "prefix (received s) (sent_txs (unat N))"
proof -
  have "prefix (received s) (sent_txs (unat (p_i s) - 1))"
    using inv by (metis channel_inv_def gossip_inv_def prefixI)
  moreover have "unat (p_i s) \<le> unat N + 1"
    using inv by (simp add: gossip_inv_def producer_inv_def)
  then have "unat (p_i s) - 1 \<le> unat N" by simp
  ultimately show ?thesis using prefix_sent_txs prefix_order.trans by blast
qed

lemma gossip_inv_joined:
  assumes inv: "gossip_inv c N s" and "joined s"
  shows "received s = sent_txs (unat N) \<and> contents c (mempool s) = []"
proof -
  have sent: "received s @ contents c (mempool s) = sent_txs (unat N)" and "length (received s) = unat N"
    using assms by (auto simp: gossip_inv_defs joined_def)
  then have "contents c (mempool s) = []"
    by (metis add_cancel_right_right length_0_conv length_append length_sent_txs)
  with sent show ?thesis by simp
qed

section \<open>Properties\<close>

text \<open>C3. In every reachable state of the concurrent simulation the mining thread has received
  a prefix of the transactions 1 to n in order, with nothing lost, duplicated or torn,
  whatever the interleaving of the two threads.\<close>

theorem gossip_received_prefix:
  assumes "capacity_ok Capacity" and "n_txs \<noteq> - 1" and "gossip_reach Capacity n_txs s"
  shows "prefix (received s) (sent_txs (unat n_txs))"
  using assms gossip_reach_inv gossip_inv_prefix by blast

lemma run_schedule_reach:
  "gossip_reach c N s \<Longrightarrow> gossip_reach c N (run_schedule c N bs s)"
proof (induction bs arbitrary: s)
  case Nil
  then show ?case by simp
next
  case (Cons b bs)
  have "gossip_reach c N (producer_step c N s)"
    using Cons.prems gossip_reach.step gossip_step.network
    by (cases "p_pc s = PDone") (auto simp: producer_step_def)
  moreover have "gossip_reach c N (consumer_step c N s)"
    using Cons.prems gossip_reach.step gossip_step.mining
    by (cases "c_pc s = CDone") (auto simp: consumer_step_def)
  ultimately show ?case using Cons.IH by simp
qed

theorem gossip_received_prefix_witness:
  "\<exists>s. gossip_reach 2 3 s \<and> map fee (received s) = [10] \<and> prefix (received s) (sent_txs (unat (3 :: u64)))"
proof -
  let ?s = "run_schedule 2 3 [True, True, True, True, True, False, False, False, False, False] (gossip_init 2 (\<lambda>_. raw_transaction_zero))"
  have r: "gossip_reach 2 3 ?s" using gossip_reach.start by (rule run_schedule_reach)
  have "map fee (received ?s) = [10]" by code_simp
  then show ?thesis
    using r gossip_received_prefix [of 2 3 ?s] by (auto simp: capacity_ok_def)
qed

text \<open>C4. When both threads have been joined, every transaction has been received exactly once
  and in order, and the buffer is empty.\<close>

theorem gossip_joined_complete:
  assumes "capacity_ok Capacity" and "n_txs \<noteq> - 1" and "gossip_reach Capacity n_txs s"
    and "joined s"
  shows "received s = sent_txs (unat n_txs) \<and> contents Capacity (mempool s) = []"
  using assms gossip_reach_inv gossip_inv_joined by blast

theorem gossip_joined_complete_witness:
  "\<exists>s. gossip_reach 1 1 s \<and> joined s \<and> received s = sent_txs (unat (1 :: u64))"
proof -
  let ?s = "run_schedule 1 1 [True, True, True, True, True, True, False, False, False, False, False, False] (gossip_init 1 (\<lambda>_. raw_transaction_zero))"
  have r: "gossip_reach 1 1 ?s" using gossip_reach.start by (rule run_schedule_reach)
  have "joined ?s" by code_simp
  then show ?thesis
    using r gossip_joined_complete [of 1 1 ?s] by (auto simp: capacity_ok_def)
qed

text \<open>C5. The two threads never access the same array element at the same time: whenever the
  network thread is about to write an element and the mining thread is about to read one, the
  two indices differ, and both are inside the array.\<close>

theorem gossip_no_element_race:
  assumes "capacity_ok Capacity" and "n_txs \<noteq> - 1" and "gossip_reach Capacity n_txs s"
    and "p_pc s = PWrite" and "c_pc s = CRead"
  shows "slot Capacity (p_current_head s) \<noteq> slot Capacity (c_current_tail s)
    \<and> slot Capacity (p_current_head s) < length (mp_buffer (mempool s))
    \<and> slot Capacity (c_current_tail s) < length (mp_buffer (mempool s))"
proof -
  have inv: "gossip_inv Capacity n_txs s" using assms gossip_reach_inv by blast
  then have "p_current_head s = mp_head (mempool s)" and "c_current_tail s = mp_tail (mempool s)"
    and "occupancy (mempool s) < unat Capacity" and "0 < occupancy (mempool s)"
    and "ring_inv Capacity (mempool s)"
    using assms(4,5) by (auto simp: gossip_inv_defs)
  then show ?thesis
    using slot_head_not_tail [of Capacity "mempool s"] slot_less [OF assms(1)]
    by (auto simp: ring_inv_def)
qed

theorem gossip_no_element_race_witness:
  "\<exists>s. gossip_reach 2 3 s \<and> p_pc s = PWrite \<and> c_pc s = CRead
     \<and> slot 2 (p_current_head s) \<noteq> slot 2 (c_current_tail s)"
proof -
  let ?s = "run_schedule 2 3 [True, True, True, True, True, True, True, True, False, False, False] (gossip_init 2 (\<lambda>_. raw_transaction_zero))"
  have r: "gossip_reach 2 3 ?s" using gossip_reach.start by (rule run_schedule_reach)
  have "p_pc ?s = PWrite" by code_simp
  moreover have "c_pc ?s = CRead" by code_simp
  ultimately show ?thesis
    using r gossip_no_element_race [of 2 3 ?s] by (auto simp: capacity_ok_def)
qed

text \<open>C6. The simulation cannot get stuck: from every reachable state some continuation joins
  both threads, so no state is a deadlock and neither spin loop waits for ever on a condition
  that the other thread can no longer establish.\<close>

theorem gossip_can_finish:
  assumes "capacity_ok Capacity" and "n_txs \<noteq> - 1" and "gossip_reach Capacity n_txs s"
  shows "\<exists>t. (gossip_step Capacity n_txs)\<^sup>*\<^sup>* s t \<and> joined t"
  using assms(3)
proof (induction "gossip_work n_txs s" arbitrary: s rule: less_induct)
  case less
  have inv: "gossip_inv Capacity n_txs s" using assms(1,2) less.prems gossip_reach_inv by blast
  show ?case
  proof (cases "joined s")
    case True
    then show ?thesis by blast
  next
    case False
    then obtain t where t: "gossip_step Capacity n_txs s t" "gossip_work n_txs t < gossip_work n_txs s"
      using gossip_progress [OF inv assms(2)] by blast
    then obtain u where "(gossip_step Capacity n_txs)\<^sup>*\<^sup>* t u" "joined u"
      using less gossip_reach.step by blast
    then show ?thesis using t(1) by (meson converse_rtranclp_into_rtranclp)
  qed
qed

theorem gossip_can_finish_witness:
  "\<exists>t. (gossip_step 1024 50000)\<^sup>*\<^sup>* (gossip_init 1024 (\<lambda>_. raw_transaction_zero)) t \<and> joined t"
  by (rule gossip_can_finish) (simp_all add: capacity_ok_def gossip_reach.start)

end
