(* ===== verification/Ring_Memory_Orders.thy ===== *)
theory Ring_Memory_Orders
  imports Ring_Interleaving
begin

text \<open>
  The memory orders of \<^verbatim>\<open>push\<close> and \<^verbatim>\<open>pop\<close> in
  \<^verbatim>\<open>src/02-High-Frequency-Trading-Engine/lock-free-ring-buffer.cpp\<close>. Here a load of the other
  thread's counter may return a stale value: any value in the modification order of the counter
  that is not older than one the thread has already read. A release store carries the clock of the
  storing thread, and an acquire load that reads it makes everything up to this clock happen before
  what follows. Every access to an array element is stamped with the clock of its thread; an access is
  a data race if a conflicting access of the other thread does not happen before it. The two threads
  are those of \<^verbatim>\<open>simulate_gossip_protocol\<close>, with the program counters of \<open>Ring_Interleaving\<close>.

  Each counter is stored to by one thread only, so a thread's relaxed load of its own counter returns
  the last value it stored, by coherence. Loads of the other thread's counter are never reordered with
  later stores in this model; in the source they are acquire loads, for which the language forbids it.
\<close>

section \<open>Orders and clocks\<close>

datatype memory_order = Relaxed | Acquire | Release

record ring_orders =
  push_tail_load :: memory_order
  push_head_store :: memory_order
  pop_head_load :: memory_order
  pop_tail_store :: memory_order

definition source_orders :: ring_orders where
  "source_orders = \<lparr>push_tail_load = Acquire, push_head_store = Release,
     pop_head_load = Acquire, pop_tail_store = Release\<rparr>"

definition released :: "memory_order \<Rightarrow> nat \<Rightarrow> nat" where
  "released ord clock = (if ord = Release then clock else 0)"

definition acquired :: "memory_order \<Rightarrow> nat \<Rightarrow> nat \<Rightarrow> nat" where
  "acquired ord known clock = (if ord = Acquire then max known clock else known)"

text \<open>
  The state: the threads with the current contents of memory; the modification order of each counter,
  as the stored values with the clocks they release; for each thread the position up to which it has
  read the other's counter, its own clock, and the clock of the other thread that happens before its next
  step; and the clocks of the last write and of the last read of each element.
\<close>

record ra_gossip =
  threads :: gossip
  head_mo :: "(size_t \<times> nat) list"
  tail_mo :: "(size_t \<times> nat) list"
  p_seen :: nat
  c_seen :: nat
  p_clock :: nat
  c_clock :: nat
  p_knows :: nat
  c_knows :: nat
  write_time :: "nat list"
  read_time :: "nat list"

definition ra_init :: "size_t \<Rightarrow> (nat \<Rightarrow> RawTransaction) \<Rightarrow> ra_gossip" where
  "ra_init Capacity junk =
     \<lparr>threads = gossip_init Capacity junk, head_mo = [(0, 0)], tail_mo = [(0, 0)], p_seen = 0, c_seen = 0,
      p_clock = 0, c_clock = 0, p_knows = 0, c_knows = 0,
      write_time = replicate (unat Capacity) 0, read_time = replicate (unat Capacity) 0\<rparr>"

text \<open>A step of the network thread; \<open>k\<close> is the position of the value that a load of the tail returns.\<close>

definition ra_producer :: "ring_orders \<Rightarrow> size_t \<Rightarrow> u64 \<Rightarrow> nat \<Rightarrow> ra_gossip \<Rightarrow> ra_gossip" where
  "ra_producer ord Capacity n_txs k s =
     (let g = threads s; now = Suc (p_clock s); s = s\<lparr>p_clock := now\<rparr>
      in case p_pc g of
        PLoadTail \<Rightarrow>
          (let (t, clock) = tail_mo s ! k
           in s\<lparr>threads := g\<lparr>p_current_tail := t,
                  p_pc := (if p_current_head g - t = Capacity then PLoadHead else PWrite)\<rparr>,
                p_seen := k, p_knows := acquired (push_tail_load ord) (p_knows s) clock\<rparr>)
      | PWrite \<Rightarrow> s\<lparr>threads := producer_step Capacity n_txs g,
            write_time := (write_time s)[slot Capacity (p_current_head g) := now]\<rparr>
      | PPublish \<Rightarrow> s\<lparr>threads := producer_step Capacity n_txs g,
            head_mo := head_mo s @ [(p_current_head g + 1, released (push_head_store ord) now)]\<rparr>
      | _ \<Rightarrow> s\<lparr>threads := producer_step Capacity n_txs g\<rparr>)"

text \<open>A step of the mining thread; \<open>k\<close> is the position of the value that a load of the head returns.\<close>

definition ra_consumer :: "ring_orders \<Rightarrow> size_t \<Rightarrow> u64 \<Rightarrow> nat \<Rightarrow> ra_gossip \<Rightarrow> ra_gossip" where
  "ra_consumer ord Capacity n_txs k s =
     (let g = threads s; now = Suc (c_clock s); s = s\<lparr>c_clock := now\<rparr>
      in case c_pc g of
        CLoadHead \<Rightarrow>
          (let (h, clock) = head_mo s ! k
           in s\<lparr>threads := g\<lparr>c_current_head := h,
                  c_pc := (if c_current_tail g = h then CLoop else CRead)\<rparr>,
                c_seen := k, c_knows := acquired (pop_head_load ord) (c_knows s) clock\<rparr>)
      | CRead \<Rightarrow> s\<lparr>threads := consumer_step Capacity n_txs g,
            read_time := (read_time s)[slot Capacity (c_current_tail g) := now]\<rparr>
      | CRelease \<Rightarrow> s\<lparr>threads := consumer_step Capacity n_txs g,
            tail_mo := tail_mo s @ [(c_current_tail g + 1, released (pop_tail_store ord) now)]\<rparr>
      | _ \<Rightarrow> s\<lparr>threads := consumer_step Capacity n_txs g\<rparr>)"

inductive ra_reach :: "ring_orders \<Rightarrow> size_t \<Rightarrow> u64 \<Rightarrow> ra_gossip \<Rightarrow> bool" for ord Capacity n_txs where
  start: "ra_reach ord Capacity n_txs (ra_init Capacity junk)"
| network: "ra_reach ord Capacity n_txs s \<Longrightarrow> p_pc (threads s) \<noteq> PDone \<Longrightarrow>
    p_seen s \<le> k \<Longrightarrow> k < length (tail_mo s) \<Longrightarrow> ra_reach ord Capacity n_txs (ra_producer ord Capacity n_txs k s)"
| mining: "ra_reach ord Capacity n_txs s \<Longrightarrow> c_pc (threads s) \<noteq> CDone \<Longrightarrow>
    c_seen s \<le> k \<Longrightarrow> k < length (head_mo s) \<Longrightarrow> ra_reach ord Capacity n_txs (ra_consumer ord Capacity n_txs k s)"

text \<open>The next step of a thread is a data race.\<close>

definition ra_race :: "size_t \<Rightarrow> ra_gossip \<Rightarrow> bool" where
  "ra_race Capacity s \<longleftrightarrow>
     p_pc (threads s) = PWrite \<and> p_knows s < read_time s ! slot Capacity (p_current_head (threads s))
   \<or> c_pc (threads s) = CRead \<and> c_knows s < write_time s ! slot Capacity (c_current_tail (threads s))"

section \<open>The invariant\<close>

text \<open>How often the head and the tail have been advanced.\<close>

definition pushes :: "ra_gossip \<Rightarrow> nat" where "pushes s = length (head_mo s) - 1"
definition pops :: "ra_gossip \<Rightarrow> nat" where "pops s = length (tail_mo s) - 1"

text \<open>A modification order: the \<open>k\<close>-th value is \<open>k\<close>, and the clocks ascend, up to the current one.\<close>

definition mo_ok :: "(size_t \<times> nat) list \<Rightarrow> nat \<Rightarrow> bool" where
  "mo_ok mo clock \<longleftrightarrow> mo \<noteq> [] \<and> map fst mo = map of_nat [0..<length mo] \<and> sorted (map snd mo)
     \<and> (\<forall>m \<in> set mo. snd m \<le> clock)"

definition counters_inv :: "size_t \<Rightarrow> ra_gossip \<Rightarrow> bool" where
  "counters_inv c s \<longleftrightarrow> mo_ok (head_mo s) (p_clock s) \<and> mo_ok (tail_mo s) (c_clock s)
     \<and> mp_head (mempool (threads s)) = of_nat (pushes s) \<and> mp_tail (mempool (threads s)) = of_nat (pops s)
     \<and> pops s \<le> c_seen s \<and> c_seen s \<le> pushes s \<and> p_seen s \<le> pops s \<and> pushes s \<le> p_seen s + unat c
     \<and> (p_pc (threads s) \<in> {PWrite, PPublish} \<longrightarrow> pushes s < p_seen s + unat c)
     \<and> (c_pc (threads s) \<in> {CRead, CRelease} \<longrightarrow> pops s < c_seen s)
     \<and> snd (tail_mo s ! p_seen s) \<le> p_knows s \<and> snd (head_mo s ! c_seen s) \<le> c_knows s"

text \<open>An item in the buffer was written before its push was published; a slot that may be written
  again was last read before the pop of its item was published, or never.\<close>

definition times_inv :: "size_t \<Rightarrow> ra_gossip \<Rightarrow> bool" where
  "times_inv c s \<longleftrightarrow> length (write_time s) = unat c \<and> length (read_time s) = unat c
     \<and> (\<forall>i < unat c. write_time s ! i \<le> p_clock s \<and> read_time s ! i \<le> c_clock s)
     \<and> (\<forall>j. pops s \<le> j \<and> j < pushes s \<longrightarrow> write_time s ! (j mod unat c) \<le> snd (head_mo s ! Suc j))
     \<and> (\<forall>j. j < pops s \<and> pushes s \<le> j + unat c \<longrightarrow> read_time s ! (j mod unat c) \<le> snd (tail_mo s ! Suc j))
     \<and> (\<forall>i. pushes s \<le> i \<and> i < unat c \<longrightarrow> read_time s ! i = 0)"

definition ra_inv :: "size_t \<Rightarrow> u64 \<Rightarrow> ra_gossip \<Rightarrow> bool" where
  "ra_inv c N s \<longleftrightarrow> capacity_ok c \<and> gossip_inv c N (threads s) \<and> counters_inv c s \<and> times_inv c s"

lemma mo_ok_nth: "mo_ok mo clock \<Longrightarrow> k < length mo \<Longrightarrow> fst (mo ! k) = of_nat k"
  unfolding mo_ok_def by (drule conjunct2, drule conjunct1, drule arg_cong [of _ _ "\<lambda>xs. xs ! k"]) simp

lemma mo_ok_mono: "mo_ok mo clock \<Longrightarrow> i \<le> j \<Longrightarrow> j < length mo \<Longrightarrow> snd (mo ! i) \<le> snd (mo ! j)"
  unfolding mo_ok_def using sorted_nth_mono [of "map snd mo" i j] by simp

lemma mo_ok_tick: "mo_ok mo clock \<Longrightarrow> mo_ok mo (Suc clock)"
  by (auto simp: mo_ok_def)

lemma mo_ok_store: "mo_ok mo clock \<Longrightarrow> v = of_nat (length mo) \<Longrightarrow> mo_ok (mo @ [(v, Suc clock)]) (Suc clock)"
  by (auto simp: mo_ok_def sorted_append)

lemma slot_of_nat: "capacity_ok c \<Longrightarrow> slot c (of_nat j) = j mod unat c"
  using slot_offset [of c 0 j] by simp

lemma of_nat_diff_size_t:
  fixes c :: size_t
  assumes "k \<le> h" and "h \<le> k + unat c"
  shows "(of_nat h - of_nat k = c) = (h = k + unat c)" "unat (of_nat h - of_nat k :: size_t) = h - k"
proof -
  have "(of_nat h - of_nat k :: size_t) = of_nat (h - k)" using assms(1) by simp
  moreover have "h - k \<le> unat c" using assms by simp
  then have "h - k < 2 ^ 64" using unsigned_less [of c, where ?'a = nat] by simp
  then have "unat (of_nat (h - k) :: size_t) = h - k" by (simp only: unat_of_nat) (simp add: take_bit_nat_eq_self)
  ultimately show u: "unat (of_nat h - of_nat k :: size_t) = h - k" by (simp only:)
  show "(of_nat h - of_nat k = c) = (h = k + unat c)"
    using u assms(1) by (auto simp: word_unat_eq_iff)
qed

lemma ra_inv_init: "capacity_ok c \<Longrightarrow> ra_inv c N (ra_init c junk)"
  using gossip_inv_init [of c N junk]
  by (auto simp: ra_inv_def counters_inv_def times_inv_def mo_ok_def pushes_def pops_def
      ra_init_def gossip_init_def mempool_init_def capacity_pos)

text \<open>The invariant of the threads bounds the occupancy by the positions.\<close>

lemma ra_occupancy:
  assumes "counters_inv c s"
  shows "occupancy (mempool (threads s)) = pushes s - pops s"
  using assms of_nat_diff_size_t(2) [of "pops s" "pushes s" c] by (simp add: counters_inv_def occupancy_def)

text \<open>No race in a state with the invariant.\<close>

lemma ra_inv_no_race:
  assumes "ra_inv c N s"
  shows "\<not> ra_race c s"
proof -
  let ?H = "pushes s" and ?T = "pops s"
  have cap: "capacity_ok c" and g: "gossip_inv c N (threads s)" and ct: "counters_inv c s" and tm: "times_inv c s"
    using assms by (simp_all add: ra_inv_def)
  have hm: "mo_ok (head_mo s) (p_clock s)" and tmo: "mo_ok (tail_mo s) (c_clock s)"
    and len: "length (head_mo s) = Suc ?H" "length (tail_mo s) = Suc ?T"
    using ct by (auto simp: counters_inv_def mo_ok_def pushes_def pops_def)
  have "read_time s ! slot c (p_current_head (threads s)) \<le> p_knows s" if pc: "p_pc (threads s) = PWrite"
  proof -
    have "p_current_head (threads s) = of_nat ?H" using g ct pc by (simp add: gossip_inv_defs counters_inv_def)
    then have sl: "slot c (p_current_head (threads s)) = ?H mod unat c" using slot_of_nat [OF cap] by simp
    show ?thesis
    proof (cases "?H < unat c")
      case True
      then show ?thesis using tm sl by (simp add: times_inv_def)
    next
      case False
      let ?j = "?H - unat c"
      have j: "Suc ?j \<le> p_seen s" "p_seen s \<le> ?T" "?j mod unat c = ?H mod unat c" "?H \<le> ?j + unat c"
        using False ct pc by (auto simp: counters_inv_def le_mod_geq)
      have "read_time s ! (?j mod unat c) \<le> snd (tail_mo s ! Suc ?j)"
        using tm j(1,2,4) unfolding times_inv_def by (meson Suc_le_lessD order_less_le_trans)
      also have "\<dots> \<le> snd (tail_mo s ! p_seen s)" using mo_ok_mono [OF tmo j(1)] j(2) len by simp
      also have "\<dots> \<le> p_knows s" using ct by (simp add: counters_inv_def)
      finally show ?thesis using sl j(3) by simp
    qed
  qed
  moreover have "write_time s ! slot c (c_current_tail (threads s)) \<le> c_knows s" if pc: "c_pc (threads s) = CRead"
  proof -
    have "c_current_tail (threads s) = of_nat ?T" using g ct pc by (simp add: gossip_inv_defs counters_inv_def)
    then have sl: "slot c (c_current_tail (threads s)) = ?T mod unat c" using slot_of_nat [OF cap] by simp
    have j: "Suc ?T \<le> c_seen s" "c_seen s \<le> ?H" using ct pc by (auto simp: counters_inv_def)
    have "write_time s ! (?T mod unat c) \<le> snd (head_mo s ! Suc ?T)"
      using tm j unfolding times_inv_def by (meson Suc_le_lessD order_less_le_trans order_refl)
    also have "\<dots> \<le> snd (head_mo s ! c_seen s)" using mo_ok_mono [OF hm j(1)] j(2) len by simp
    also have "\<dots> \<le> c_knows s" using ct by (simp add: counters_inv_def)
    finally show ?thesis using sl by simp
  qed
  ultimately show ?thesis by (auto simp: ra_race_def)
qed

section \<open>Every step keeps the invariant\<close>

lemma stale_tail_load:
  assumes "gossip_inv c N g" and "p_pc g = PLoadTail" and "p_current_head g - t \<noteq> c \<Longrightarrow> occupancy (mempool g) < unat c"
  shows "gossip_inv c N (g\<lparr>p_current_tail := t, p_pc := (if p_current_head g - t = c then PLoadHead else PWrite)\<rparr>)"
  using assms by (auto simp: gossip_inv_defs)

lemma stale_head_load:
  assumes "gossip_inv c N g" and "c_pc g = CLoadHead" and "c_current_tail g \<noteq> h \<Longrightarrow> 0 < occupancy (mempool g)"
  shows "gossip_inv c N (g\<lparr>c_current_head := h, c_pc := (if c_current_tail g = h then CLoop else CRead)\<rparr>)"
  using assms by (auto simp: gossip_inv_defs)

lemma ra_load_tail_inv:
  assumes inv: "ra_inv c N s" and pc: "p_pc (threads s) = PLoadTail" and k: "p_seen s \<le> k" "k < length (tail_mo s)"
  shows "ra_inv c N (ra_producer source_orders c N k s)"
proof -
  let ?g = "threads s"
  obtain t clock where m: "tail_mo s ! k = (t, clock)" by fastforce
  have ct: "counters_inv c s" and g: "gossip_inv c N ?g" using inv by (simp_all add: ra_inv_def)
  have kT: "k \<le> pops s" "pops s \<le> pushes s" "pushes s \<le> k + unat c" "k \<le> pushes s"
    using ct k by (auto simp: counters_inv_def pops_def)
  have t: "t = of_nat k" using mo_ok_nth [of "tail_mo s" "c_clock s" k] ct k m by (simp add: counters_inv_def)
  have h: "p_current_head ?g = of_nat (pushes s)" using g ct pc by (simp add: gossip_inv_defs counters_inv_def)
  have full: "(p_current_head ?g - t = c) = (pushes s = k + unat c)"
    using of_nat_diff_size_t(1) [OF kT(4,3)] h t by simp
  have "gossip_inv c N (?g\<lparr>p_current_tail := t, p_pc := (if p_current_head ?g - t = c then PLoadHead else PWrite)\<rparr>)"
    by (rule stale_tail_load [OF g pc]) (use full kT ra_occupancy [OF ct] in auto)
  then show ?thesis
    using inv pc m full k kT
    by (auto simp: ra_inv_def ra_producer_def counters_inv_def times_inv_def pushes_def pops_def
        source_orders_def acquired_def Let_def mo_ok_tick le_SucI)
qed

lemma ra_load_head_inv:
  assumes inv: "ra_inv c N s" and pc: "c_pc (threads s) = CLoadHead" and k: "c_seen s \<le> k" "k < length (head_mo s)"
  shows "ra_inv c N (ra_consumer source_orders c N k s)"
proof -
  let ?g = "threads s"
  obtain h clock where m: "head_mo s ! k = (h, clock)" by fastforce
  have ct: "counters_inv c s" and g: "gossip_inv c N ?g" using inv by (simp_all add: ra_inv_def)
  have kH: "k \<le> pushes s" "pops s \<le> k" "k \<le> pops s + unat c"
    using ct k by (auto simp: counters_inv_def pushes_def)
  have h: "h = of_nat k" using mo_ok_nth [of "head_mo s" "p_clock s" k] ct k m by (simp add: counters_inv_def)
  have t: "c_current_tail ?g = of_nat (pops s)" using g ct pc by (simp add: gossip_inv_defs counters_inv_def)
  have "(of_nat k - of_nat (pops s) = (0 :: size_t)) = (k = pops s)"
    using of_nat_diff_size_t(2) [OF kH(2,3)] kH(2) by (metis diff_self_eq_0 le_antisym diff_is_0_eq' unat_eq_0 diff_is_0_eq)
  then have empty: "(c_current_tail ?g = h) = (k = pops s)" using h t by auto
  have "gossip_inv c N (?g\<lparr>c_current_head := h, c_pc := (if c_current_tail ?g = h then CLoop else CRead)\<rparr>)"
    by (rule stale_head_load [OF g pc]) (use empty kH ra_occupancy [OF ct] in auto)
  then show ?thesis
    using inv pc m empty k kH
    by (auto simp: ra_inv_def ra_consumer_def counters_inv_def times_inv_def pushes_def pops_def
        source_orders_def acquired_def Let_def mo_ok_tick le_SucI)
qed

lemma ra_write_inv:
  assumes inv: "ra_inv c N s" and N: "N \<noteq> - 1" and pc: "p_pc (threads s) = PWrite"
  shows "ra_inv c N (ra_producer source_orders c N k s)"
proof -
  let ?g = "threads s" and ?s = "ra_producer source_orders c N k s"
  have ct: "counters_inv c s" and g: "gossip_inv c N ?g" and cap: "capacity_ok c" and tm: "times_inv c s"
    using inv by (simp_all add: ra_inv_def)
  have sl: "slot c (p_current_head ?g) = pushes s mod unat c"
    using g ct pc slot_of_nat [OF cap] by (simp add: gossip_inv_defs counters_inv_def)
  have s: "?s = s\<lparr>p_clock := Suc (p_clock s), threads := producer_step c N ?g,
      write_time := (write_time s)[pushes s mod unat c := Suc (p_clock s)]\<rparr>"
    using pc sl by (simp add: ra_producer_def Let_def)
  have "gossip_inv c N (producer_step c N ?g)" using g N by (rule producer_step_inv)
  moreover have "counters_inv c ?s"
    using ct pc by (auto simp: s counters_inv_def producer_step_def pushes_def pops_def mo_ok_tick)
  moreover have other: "j mod unat c \<noteq> pushes s mod unat c" if "pops s \<le> j" "j < pushes s" for j
  proof
    assume eq: "j mod unat c = pushes s mod unat c"
    have "pushes s < pops s + unat c" using ct pc by (auto simp: counters_inv_def)
    then have lt: "pushes s - j < unat c" "0 < pushes s - j" using that by auto
    have "(pushes s - j) mod unat c = 0" using eq that by (simp add: mod_eq_dvd_iff_nat [symmetric])
    then show False using lt by simp
  qed
  have "times_inv c ?s"
    using tm other other [symmetric] capacity_pos [OF cap]
    by (auto simp: s times_inv_def pushes_def pops_def nth_list_update le_SucI)
  ultimately show ?thesis using cap by (simp add: ra_inv_def s)
qed

lemma ra_read_inv:
  assumes inv: "ra_inv c N s" and pc: "c_pc (threads s) = CRead"
  shows "ra_inv c N (ra_consumer source_orders c N k s)"
proof -
  let ?g = "threads s" and ?s = "ra_consumer source_orders c N k s"
  have ct: "counters_inv c s" and g: "gossip_inv c N ?g" and cap: "capacity_ok c" and tm: "times_inv c s"
    using inv by (simp_all add: ra_inv_def)
  have sl: "slot c (c_current_tail ?g) = pops s mod unat c"
    using g ct pc slot_of_nat [OF cap] by (simp add: gossip_inv_defs counters_inv_def)
  have s: "?s = s\<lparr>c_clock := Suc (c_clock s), threads := consumer_step c N ?g,
      read_time := (read_time s)[pops s mod unat c := Suc (c_clock s)]\<rparr>"
    using pc sl by (simp add: ra_consumer_def Let_def)
  have "gossip_inv c N (consumer_step c N ?g)" using g by (rule consumer_step_inv)
  moreover have "counters_inv c ?s"
    using ct pc by (auto simp: s counters_inv_def consumer_step_def pushes_def pops_def mo_ok_tick)
  moreover have lt: "pops s < pushes s" using ct pc by (auto simp: counters_inv_def)
  have other: "j mod unat c \<noteq> pops s mod unat c" if "j < pops s" "pushes s \<le> j + unat c" for j
  proof
    assume eq: "j mod unat c = pops s mod unat c"
    have "(pops s - j) mod unat c = 0" using eq that by (simp add: mod_eq_dvd_iff_nat [symmetric])
    moreover have "pops s - j < unat c" "0 < pops s - j" using that lt by auto
    ultimately show False by simp
  qed
  have "pops s mod unat c < pushes s" using lt mod_less_eq_dividend [of "pops s" "unat c"] by linarith
  then have "times_inv c ?s"
    using tm other other [symmetric] capacity_pos [OF cap]
    by (auto simp: s times_inv_def pushes_def pops_def nth_list_update le_SucI)
  ultimately show ?thesis using cap by (simp add: ra_inv_def s)
qed

lemma ra_publish_inv:
  assumes inv: "ra_inv c N s" and N: "N \<noteq> - 1" and pc: "p_pc (threads s) = PPublish"
  shows "ra_inv c N (ra_producer source_orders c N k s)"
proof -
  let ?g = "threads s" and ?s = "ra_producer source_orders c N k s"
  have ct: "counters_inv c s" and g: "gossip_inv c N ?g" and cap: "capacity_ok c" and tm: "times_inv c s"
    using inv by (simp_all add: ra_inv_def)
  have len: "length (head_mo s) = Suc (pushes s)" using ct by (auto simp: counters_inv_def mo_ok_def pushes_def)
  have h: "p_current_head ?g = of_nat (pushes s)" using g ct pc by (simp add: gossip_inv_defs counters_inv_def)
  have s: "?s = s\<lparr>p_clock := Suc (p_clock s), threads := producer_step c N ?g,
      head_mo := head_mo s @ [(of_nat (Suc (pushes s)), Suc (p_clock s))]\<rparr>"
    using pc h by (simp add: ra_producer_def Let_def source_orders_def released_def add.commute)
  have n: "pushes ?s = Suc (pushes s)" "pops ?s = pops s" using len by (simp_all add: s pushes_def pops_def)
  have "gossip_inv c N (producer_step c N ?g)" using g N by (rule producer_step_inv)
  moreover have "mo_ok (head_mo s @ [(of_nat (Suc (pushes s)), Suc (p_clock s))]) (Suc (p_clock s))"
    using ct len by (intro mo_ok_store) (simp_all add: counters_inv_def)
  then have "counters_inv c ?s"
    unfolding counters_inv_def n using ct pc h len
    by (auto simp: s counters_inv_def producer_step_def nth_append add.commute)
  moreover have "write_time s ! (pushes s mod unat c) \<le> p_clock s"
    using tm capacity_pos [OF cap] by (simp add: times_inv_def)
  then have "times_inv c ?s"
    unfolding times_inv_def n using tm len
    by (auto simp: s times_inv_def nth_append le_SucI less_Suc_eq)
  ultimately show ?thesis using cap by (simp add: ra_inv_def s)
qed

lemma ra_release_inv:
  assumes inv: "ra_inv c N s" and pc: "c_pc (threads s) = CRelease"
  shows "ra_inv c N (ra_consumer source_orders c N k s)"
proof -
  let ?g = "threads s" and ?s = "ra_consumer source_orders c N k s"
  have ct: "counters_inv c s" and g: "gossip_inv c N ?g" and cap: "capacity_ok c" and tm: "times_inv c s"
    using inv by (simp_all add: ra_inv_def)
  have len: "length (tail_mo s) = Suc (pops s)" using ct by (auto simp: counters_inv_def mo_ok_def pops_def)
  have h: "c_current_tail ?g = of_nat (pops s)" using g ct pc by (simp add: gossip_inv_defs counters_inv_def)
  have s: "?s = s\<lparr>c_clock := Suc (c_clock s), threads := consumer_step c N ?g,
      tail_mo := tail_mo s @ [(of_nat (Suc (pops s)), Suc (c_clock s))]\<rparr>"
    using pc h by (simp add: ra_consumer_def Let_def source_orders_def released_def add.commute)
  have n: "pops ?s = Suc (pops s)" "pushes ?s = pushes s" using len by (simp_all add: s pushes_def pops_def)
  have "gossip_inv c N (consumer_step c N ?g)" using g by (rule consumer_step_inv)
  moreover have "mo_ok (tail_mo s @ [(of_nat (Suc (pops s)), Suc (c_clock s))]) (Suc (c_clock s))"
    using ct len by (intro mo_ok_store) (simp_all add: counters_inv_def)
  then have "counters_inv c ?s"
    unfolding counters_inv_def n using ct pc h len
    by (auto simp: s counters_inv_def consumer_step_def nth_append add.commute)
  moreover have "read_time s ! (pops s mod unat c) \<le> c_clock s"
    using tm capacity_pos [OF cap] by (simp add: times_inv_def)
  then have "read_time s ! (j mod unat c) \<le> snd ((tail_mo s @ [(v, Suc (c_clock s))]) ! Suc j)"
    if "j < Suc (pops s)" "pushes s \<le> j + unat c" for j v
    using that tm len by (cases "j = pops s") (simp_all add: times_inv_def nth_append)
  then have "times_inv c ?s"
    unfolding times_inv_def n using tm by (auto simp: s times_inv_def le_SucI)
  ultimately show ?thesis using cap by (simp add: ra_inv_def s)
qed

lemma ra_producer_inv:
  assumes inv: "ra_inv c N s" and N: "N \<noteq> - 1" and k: "p_seen s \<le> k" "k < length (tail_mo s)"
  shows "ra_inv c N (ra_producer source_orders c N k s)"
proof -
  have g: "gossip_inv c N (producer_step c N (threads s))"
    using inv N producer_step_inv by (simp add: ra_inv_def)
  show ?thesis
  proof (cases "p_pc (threads s)")
    case PLoadTail
    then show ?thesis using inv k by (intro ra_load_tail_inv)
  next
    case PWrite
    then show ?thesis using inv N by (intro ra_write_inv)
  next
    case PPublish
    then show ?thesis using inv N by (intro ra_publish_inv)
  qed (use inv g in \<open>auto simp: ra_inv_def ra_producer_def counters_inv_def times_inv_def pushes_def pops_def
      producer_step_def Let_def mo_ok_tick le_SucI\<close>)
qed

lemma ra_consumer_inv:
  assumes inv: "ra_inv c N s" and k: "c_seen s \<le> k" "k < length (head_mo s)"
  shows "ra_inv c N (ra_consumer source_orders c N k s)"
proof -
  have g: "gossip_inv c N (consumer_step c N (threads s))"
    using inv consumer_step_inv by (simp add: ra_inv_def)
  show ?thesis
  proof (cases "c_pc (threads s)")
    case CLoadHead
    then show ?thesis using inv k by (intro ra_load_head_inv)
  next
    case CRead
    then show ?thesis using inv by (intro ra_read_inv)
  next
    case CRelease
    then show ?thesis using inv by (intro ra_release_inv)
  qed (use inv g in \<open>auto simp: ra_inv_def ra_consumer_def counters_inv_def times_inv_def pushes_def pops_def
      consumer_step_def Let_def mo_ok_tick le_SucI\<close>)
qed

lemma ra_reach_inv:
  assumes "ra_reach source_orders c N s" and "capacity_ok c" and "N \<noteq> - 1"
  shows "ra_inv c N s"
  using assms(1)
proof (induction rule: ra_reach.induct)
  case (start junk)
  show ?case using assms(2) by (rule ra_inv_init)
next
  case (network s k)
  then show ?case using ra_producer_inv [OF _ assms(3)] by blast
next
  case (mining s k)
  then show ?case using ra_consumer_inv by blast
qed

text \<open>An executable schedule: the thread of each step (\<open>True\<close> for the network thread) and the position it
  reads if the step is a load of the other thread's counter; \<open>None\<close> if the choice is not possible.\<close>

fun ra_run :: "ring_orders \<Rightarrow> size_t \<Rightarrow> u64 \<Rightarrow> (bool \<times> nat) list \<Rightarrow> ra_gossip \<Rightarrow> ra_gossip option" where
  "ra_run ord c N [] s = Some s"
| "ra_run ord c N ((b, k) # xs) s =
     (if b then (if p_pc (threads s) \<noteq> PDone \<and> p_seen s \<le> k \<and> k < length (tail_mo s)
                 then ra_run ord c N xs (ra_producer ord c N k s) else None)
      else (if c_pc (threads s) \<noteq> CDone \<and> c_seen s \<le> k \<and> k < length (head_mo s)
            then ra_run ord c N xs (ra_consumer ord c N k s) else None))"

lemma ra_run_reach:
  "ra_reach ord c N s \<Longrightarrow> ra_run ord c N xs s = Some t \<Longrightarrow> ra_reach ord c N t"
proof (induction xs arbitrary: s)
  case (Cons x xs)
  obtain b k where "x = (b, k)" by fastforce
  then show ?case
    using Cons.prems by (cases b) (auto split: if_splits intro: Cons.IH ra_reach.network ra_reach.mining)
qed simp

section \<open>Properties\<close>

text \<open>C40. With the acquire loads and release stores of the source, and with loads of the other
  thread's counter that may return stale values: in every reachable state no access to an array element
  is a data race (whatever the other thread did to the element happens before it), the mining thread
  has received a prefix of the transactions in order, and once both threads are joined it has received
  all of them.\<close>

theorem gossip_release_acquire:
  assumes "capacity_ok Capacity" and "n_txs \<noteq> - 1" and "ra_reach source_orders Capacity n_txs s"
  shows "\<not> ra_race Capacity s \<and> prefix (received (threads s)) (sent_txs (unat n_txs))
    \<and> (joined (threads s) \<longrightarrow> received (threads s) = sent_txs (unat n_txs))"
proof -
  have inv: "ra_inv Capacity n_txs s" using assms ra_reach_inv by blast
  then have g: "gossip_inv Capacity n_txs (threads s)" by (simp add: ra_inv_def)
  show ?thesis
    using ra_inv_no_race [OF inv] gossip_inv_prefix [OF g] gossip_inv_joined [OF g] by blast
qed

text \<open>A run in which the mining thread first reads a stale head and finds the buffer empty.\<close>

definition stale_run :: "(bool \<times> nat) list" where
  "stale_run = replicate 5 (True, 0) @ [(False, 0), (False, 0), (False, 0), (False, 1), (False, 1), (False, 1)]"

theorem gossip_release_acquire_witness:
  "\<exists>s. ra_run source_orders 2 3 stale_run (ra_init 2 (\<lambda>_. raw_transaction_zero)) = Some s
     \<and> c_pc (threads s) = CRead \<and> \<not> ra_race 2 s"
proof -
  let ?r = "ra_run source_orders 2 3 stale_run (ra_init 2 (\<lambda>_. raw_transaction_zero))"
  have "map_option (\<lambda>s. c_pc (threads s)) ?r = Some CRead" by code_simp
  then obtain s where s: "?r = Some s" "c_pc (threads s) = CRead" by auto
  have "ra_reach source_orders 2 3 s" by (rule ra_run_reach [OF ra_reach.start s(1)])
  then show ?thesis using s gossip_release_acquire [of 2 3 s] by (auto simp: capacity_ok_def)
qed

text \<open>The orders are needed: with a relaxed store of the head, or a relaxed load of it, the mining
  thread's first read of an element is a race.\<close>

lemma relaxed_head_races:
  assumes "ord = source_orders\<lparr>push_head_store := Relaxed\<rparr> \<or> ord = source_orders\<lparr>pop_head_load := Relaxed\<rparr>"
  shows "\<exists>s. ra_reach ord 2 3 s \<and> ra_race 2 s"
proof -
  let ?r = "ra_run ord 2 3 stale_run (ra_init 2 (\<lambda>_. raw_transaction_zero))"
  have "map_option (ra_race 2) (ra_run (source_orders\<lparr>push_head_store := Relaxed\<rparr>) 2 3 stale_run
      (ra_init 2 (\<lambda>_. raw_transaction_zero))) = Some True" by code_simp
  moreover have "map_option (ra_race 2) (ra_run (source_orders\<lparr>pop_head_load := Relaxed\<rparr>) 2 3 stale_run
      (ra_init 2 (\<lambda>_. raw_transaction_zero))) = Some True" by code_simp
  ultimately have "map_option (ra_race 2) ?r = Some True" using assms by blast
  then show ?thesis using ra_run_reach [OF ra_reach.start] by blast
qed

end
