(* ===== verification/Heap_Allocator.thy ===== *)
theory Heap_Allocator
  imports Prelude
begin

text \<open>
  \<^verbatim>\<open>src/01-Core-Systems-and-Bare-Metal/custom-memory-allocator.c\<close> over a byte-addressed heap
  segment between its start and the break. Headers are read and written as bytes at the offsets of
  the C layout, so that the returned memory and the headers share one address space. An operation
  ends with its result or with the fault that stops it: a load or store outside the segment, a wait
  for a mutex that is held, or a search that never ends. \<^verbatim>\<open>sbrk\<close> belongs to the operating
  system: \<open>grant b n\<close> says whether the kernel agrees to move the break \<open>b\<close> by \<open>n\<close> bytes. Accesses are
  not checked for alignment: after an odd size the next header is misaligned, which the target
  tolerates and the C standard does not.
\<close>

section \<open>Memory\<close>

record heap_state =
  mem :: "nat \<Rightarrow> byte"
  heap_start :: nat
  brk :: nat
  global_base :: nat
  global_malloc_lock :: bool
  printed :: "string list"

datatype heap_fault =
    LoadOutside nat nat
  | StoreOutside nat nat
  | NoSuchMember string
  | Blocked
  | Diverges

definition mem_read :: "(nat \<Rightarrow> byte) \<Rightarrow> nat \<Rightarrow> nat \<Rightarrow> byte list" where
  "mem_read m a n = map m [a..<a + n]"

definition mem_write :: "(nat \<Rightarrow> byte) \<Rightarrow> nat \<Rightarrow> byte list \<Rightarrow> nat \<Rightarrow> byte" where
  "mem_write m a bs = (\<lambda>x. if a \<le> x \<and> x < a + length bs then bs ! (x - a) else m x)"

definition in_segment :: "heap_state \<Rightarrow> nat \<Rightarrow> nat \<Rightarrow> bool" where
  "in_segment s a n \<longleftrightarrow> heap_start s \<le> a \<and> a + n \<le> brk s"

text \<open>The header and access to its members through a pointer.\<close>

definition block_meta :: "c_field list" where
  "block_meta = [(''size'', 8, 8), (''next'', 8, 8), (''free'', 4, 4), (''magic'', 4, 4)]"

definition META_SIZE :: nat where
  "META_SIZE = struct_size block_meta"

definition MAGIC_NUM :: nat where
  "MAGIC_NUM = 0x77777777"

definition meta_get :: "string \<Rightarrow> nat \<Rightarrow> heap_state \<Rightarrow> heap_fault + nat" where
  "meta_get f a s = (case map_of (layout 0 block_meta) f of
     None \<Rightarrow> Inl (NoSuchMember f)
   | Some (off, w) \<Rightarrow> if in_segment s (a + off) w then Inr (le_nat (mem_read (mem s) (a + off) w))
       else Inl (LoadOutside (a + off) w))"

definition meta_set :: "string \<Rightarrow> nat \<Rightarrow> nat \<Rightarrow> heap_state \<Rightarrow> heap_fault + heap_state" where
  "meta_set f v a s = (case map_of (layout 0 block_meta) f of
     None \<Rightarrow> Inl (NoSuchMember f)
   | Some (off, w) \<Rightarrow> if in_segment s (a + off) w
       then Inr (s\<lparr>mem := mem_write (mem s) (a + off) (le_bytes w v)\<rparr>) else Inl (StoreOutside (a + off) w))"

section \<open>Operations\<close>

text \<open>The loop of \<^verbatim>\<open>find_free_block\<close> returns the last visited and the found header; \<open>None\<close> if it
  never ends.\<close>

definition suitable :: "size_t \<Rightarrow> nat \<Rightarrow> heap_state \<Rightarrow> heap_fault + bool" where
  "suitable sz current s = and_then (meta_get ''free'' current s) (\<lambda>f.
     if f = 0 then Inr False else and_then (meta_get ''size'' current s) (\<lambda>n. Inr (unat sz \<le> n)))"

partial_function (option) find_loop ::
  "size_t \<Rightarrow> heap_state \<Rightarrow> nat \<Rightarrow> nat \<Rightarrow> (heap_fault + nat \<times> nat) option" where
  "find_loop sz s lst current =
     (if current = 0 then Some (Inr (lst, current))
      else case suitable sz current s of
        Inl e \<Rightarrow> Some (Inl e)
      | Inr found \<Rightarrow>
          if found then Some (Inr (lst, current))
          else (case meta_get ''next'' current s of
                  Inl e \<Rightarrow> Some (Inl e)
                | Inr nx \<Rightarrow> find_loop sz s current nx))"

definition find_free_block :: "nat \<Rightarrow> size_t \<Rightarrow> heap_state \<Rightarrow> heap_fault + nat \<times> nat" where
  "find_free_block lst sz s =
     (case find_loop sz s lst (global_base s) of None \<Rightarrow> Inl Diverges | Some r \<Rightarrow> r)"

text \<open>The increment is converted to the signed argument of \<^verbatim>\<open>sbrk\<close>; a null pointer is 0.\<close>

definition request_space ::
  "(nat \<Rightarrow> int \<Rightarrow> bool) \<Rightarrow> nat \<Rightarrow> size_t \<Rightarrow> heap_state \<Rightarrow> heap_fault + nat \<times> heap_state" where
  "request_space grant lst sz s =
     (let block = brk s; inc = sint (sz + of_nat META_SIZE)
      in if \<not> grant (brk s) inc then Inr (0, s)
         else
           let s = s\<lparr>brk := nat (int (brk s) + inc)\<rparr> in
           and_then (if lst \<noteq> 0 then meta_set ''next'' block lst s else Inr s) (\<lambda>s.
           and_then (meta_set ''size'' (unat sz) block s) (\<lambda>s.
           and_then (meta_set ''next'' 0 block s) (\<lambda>s.
           and_then (meta_set ''free'' 0 block s) (\<lambda>s.
           and_then (meta_set ''magic'' MAGIC_NUM block s) (\<lambda>s.
           Inr (block, s)))))))"

definition mutex_lock :: "heap_state \<Rightarrow> heap_fault + heap_state" where
  "mutex_lock s = (if global_malloc_lock s then Inl Blocked else Inr (s\<lparr>global_malloc_lock := True\<rparr>))"

definition mutex_unlock :: "heap_state \<Rightarrow> heap_state" where
  "mutex_unlock s = s\<lparr>global_malloc_lock := False\<rparr>"

definition my_malloc :: "(nat \<Rightarrow> int \<Rightarrow> bool) \<Rightarrow> size_t \<Rightarrow> heap_state \<Rightarrow> heap_fault + nat \<times> heap_state" where
  "my_malloc grant sz s =
     (if sz \<le> 0 then Inr (0, s)
      else
        and_then (mutex_lock s) (\<lambda>s.
        and_then
          (if global_base s = 0
           then and_then (request_space grant 0 sz s) (\<lambda>(block, s).
             if block = 0 then Inr (0, s) else Inr (block, s\<lparr>global_base := block\<rparr>))
           else and_then (find_free_block (global_base s) sz s) (\<lambda>(lst, block).
             if block = 0 then request_space grant lst sz s
             else
               and_then (meta_set ''free'' 0 block s) (\<lambda>s.
               and_then (meta_set ''magic'' MAGIC_NUM block s) (\<lambda>s.
               Inr (block, s))))) (\<lambda>(block, s).
        Inr (if block = 0 then 0 else block + META_SIZE, mutex_unlock s))))"

definition corruption_message :: string where
  "corruption_message = ''CRITICAL ERROR: Memory Corruption Detected during free()!'' @ [char_of (10 :: nat)]"

text \<open>Pointer arithmetic wraps at the end of the address space.\<close>

definition my_free :: "nat \<Rightarrow> heap_state \<Rightarrow> heap_fault + heap_state" where
  "my_free p s =
     (if p = 0 then Inr s
      else
        and_then (mutex_lock s) (\<lambda>s.
        let block_ptr = (if p < META_SIZE then p + 2 ^ 64 - META_SIZE else p - META_SIZE) in
        and_then (meta_get ''magic'' block_ptr s) (\<lambda>magic.
        and_then (if magic = MAGIC_NUM then meta_set ''free'' 1 block_ptr s
                  else Inr (s\<lparr>printed := printed s @ [corruption_message]\<rparr>)) (\<lambda>s.
        Inr (mutex_unlock s)))))"

section \<open>Headers in memory\<close>

lemma META_SIZE [simp]: "META_SIZE = 24"
  by code_simp

lemma block_meta_layout:
  "map_of (layout 0 block_meta) ''size'' = Some (0, 8)"
  "map_of (layout 0 block_meta) ''next'' = Some (8, 8)"
  "map_of (layout 0 block_meta) ''free'' = Some (16, 4)"
  "map_of (layout 0 block_meta) ''magic'' = Some (20, 4)"
  by code_simp+

lemma length_mem_read [simp]: "length (mem_read m a n) = n"
  by (simp add: mem_read_def)

lemma mem_read_write_same: "length bs = n \<Longrightarrow> mem_read (mem_write m a bs) a n = bs"
  by (rule nth_equalityI) (auto simp: mem_read_def mem_write_def)

lemma mem_read_cong:
  "(\<And>x. a \<le> x \<Longrightarrow> x < a + n \<Longrightarrow> m' x = m x) \<Longrightarrow> mem_read m' a n = mem_read m a n"
  by (simp add: mem_read_def)

lemma mem_write_other: "x < a \<or> a + length bs \<le> x \<Longrightarrow> mem_write m a bs x = m x"
  by (auto simp: mem_write_def)

text \<open>The members of the header at an address.\<close>

definition header_at :: "heap_state \<Rightarrow> nat \<Rightarrow> nat \<Rightarrow> nat \<Rightarrow> bool \<Rightarrow> bool" where
  "header_at s a n nx fr \<longleftrightarrow> meta_get ''size'' a s = Inr n \<and> meta_get ''next'' a s = Inr nx
     \<and> meta_get ''free'' a s = Inr (if fr then 1 else 0) \<and> meta_get ''magic'' a s = Inr MAGIC_NUM"

lemma block_meta_members:
  "map_of (layout 0 block_meta) f = Some (off, w) \<Longrightarrow>
     f = ''size'' \<and> off = 0 \<and> w = 8 \<or> f = ''next'' \<and> off = 8 \<and> w = 8
   \<or> f = ''free'' \<and> off = 16 \<and> w = 4 \<or> f = ''magic'' \<and> off = 20 \<and> w = 4"
  by (auto simp: block_meta_def align_up_def split: if_splits)

text \<open>Two members of one header never overlap.\<close>

lemma members_disjoint:
  assumes "map_of (layout 0 block_meta) f = Some (o1, w1)" and "map_of (layout 0 block_meta) g = Some (o2, w2)"
    and "f \<noteq> g"
  shows "o1 + w1 \<le> o2 \<or> o2 + w2 \<le> o1"
  using block_meta_members [OF assms(1)] block_meta_members [OF assms(2)] assms(3) by auto

lemma member_inside: "map_of (layout 0 block_meta) f = Some (off, w) \<Longrightarrow> off + w \<le> 24"
  by (drule block_meta_members) auto

lemma meta_get_set:
  assumes "meta_set f v a s = Inr s'"
  shows "meta_get g a s' = (if g = f then Inr (v mod 256 ^ snd (the (map_of (layout 0 block_meta) f)))
                            else meta_get g a s)"
proof -
  from assms obtain off w where f: "map_of (layout 0 block_meta) f = Some (off, w)"
    and seg: "in_segment s (a + off) w" and s': "s' = s\<lparr>mem := mem_write (mem s) (a + off) (le_bytes w v)\<rparr>"
    by (auto simp: meta_set_def split: option.splits if_splits)
  have seg': "in_segment s' = in_segment s" by (simp add: s' in_segment_def fun_eq_iff)
  show ?thesis
  proof (cases "g = f")
    case True
    then show ?thesis
      using f seg seg' by (simp add: meta_get_def s' mem_read_write_same le_nat_le_bytes)
  next
    case False
    have "mem_read (mem s') (a + off') w' = mem_read (mem s) (a + off') w'"
      if "map_of (layout 0 block_meta) g = Some (off', w')" for off' w'
      using members_disjoint [OF f that] False unfolding s'
      by (auto intro!: mem_read_cong mem_write_other)
    then show ?thesis
      using False seg' by (auto simp: meta_get_def split: option.split)
  qed
qed

lemma meta_set_frame:
  assumes "meta_set f v a s = Inr s'"
  shows "s' = s\<lparr>mem := mem s'\<rparr>" and "x < a \<or> a + 24 \<le> x \<Longrightarrow> mem s' x = mem s x"
proof -
  from assms obtain off w where f: "map_of (layout 0 block_meta) f = Some (off, w)"
    and s': "s' = s\<lparr>mem := mem_write (mem s) (a + off) (le_bytes w v)\<rparr>"
    by (auto simp: meta_set_def split: option.splits if_splits)
  show "s' = s\<lparr>mem := mem s'\<rparr>" by (simp add: s')
  show "mem s' x = mem s x" if "x < a \<or> a + 24 \<le> x"
    using that member_inside [OF f] by (auto simp: s' intro!: mem_write_other)
qed

lemma mem_only_trans:
  "s' = s\<lparr>mem := mem s'\<rparr> \<Longrightarrow> s'' = s'\<lparr>mem := mem s''\<rparr> \<Longrightarrow> s'' = s\<lparr>mem := mem s''\<rparr>"
  by (cases s; cases s'; cases s'') simp

lemma meta_set_defined:
  "in_segment s a 24 \<Longrightarrow> f \<in> {''size'', ''next'', ''free'', ''magic''} \<Longrightarrow> \<exists>s'. meta_set f v a s = Inr s'"
  by (auto simp: meta_set_def block_meta_layout in_segment_def)

lemma header_at_segment: "header_at s a n nx fr \<Longrightarrow> in_segment s a 24"
  by (auto simp: header_at_def meta_get_def block_meta_layout in_segment_def split: if_splits)

lemma header_at_size: "header_at s a n nx fr \<Longrightarrow> n < 2 ^ 64"
proof -
  assume "header_at s a n nx fr"
  then have "n = le_nat (mem_read (mem s) a 8)"
    by (auto simp: header_at_def meta_get_def block_meta_layout split: if_splits)
  then show ?thesis using le_nat_less [of "mem_read (mem s) a 8"] by simp
qed

text \<open>Headers survive every change outside their own bytes.\<close>

lemma meta_get_cong:
  assumes "\<And>x. a \<le> x \<Longrightarrow> x < a + 24 \<Longrightarrow> mem s' x = mem s x" and "heap_start s' = heap_start s"
    and "brk s \<le> brk s'" and "meta_get f a s = Inr v"
  shows "meta_get f a s' = Inr v"
proof -
  from assms(4) obtain off w where f: "map_of (layout 0 block_meta) f = Some (off, w)"
    and seg: "in_segment s (a + off) w" and v: "v = le_nat (mem_read (mem s) (a + off) w)"
    by (auto simp: meta_get_def split: option.splits if_splits)
  have "mem_read (mem s') (a + off) w = mem_read (mem s) (a + off) w"
    using assms(1) member_inside [OF f] by (intro mem_read_cong) auto
  then show ?thesis using f seg v assms(2,3) by (auto simp: meta_get_def in_segment_def)
qed

lemma header_at_cong:
  assumes "\<And>x. a \<le> x \<Longrightarrow> x < a + 24 \<Longrightarrow> mem s' x = mem s x" and "heap_start s' = heap_start s"
    and "brk s \<le> brk s'" and "header_at s a n nx fr"
  shows "header_at s' a n nx fr"
  using assms(4) unfolding header_at_def by (auto intro!: meta_get_cong [OF assms(1-3)])

lemma set_next:
  "meta_set ''next'' v a s = Inr s' \<Longrightarrow> v < 2 ^ 64 \<Longrightarrow> header_at s a n nx fr \<Longrightarrow> header_at s' a n v fr"
  by (simp add: header_at_def meta_get_set block_meta_layout)

lemma set_free:
  "meta_set ''free'' (if fr' then 1 else 0) a s = Inr s' \<Longrightarrow> header_at s a n nx fr \<Longrightarrow> header_at s' a n nx fr'"
  by (simp add: header_at_def meta_get_set block_meta_layout)

lemma set_magic:
  "meta_set ''magic'' MAGIC_NUM a s = Inr s' \<Longrightarrow> header_at s a n nx fr \<Longrightarrow> header_at s' a n nx fr"
  by (simp add: header_at_def meta_get_set block_meta_layout MAGIC_NUM_def)

section \<open>The list of blocks\<close>

text \<open>A block: its header address, the size of its payload, and whether it is free.\<close>

type_synonym block = "nat \<times> nat \<times> bool"

fun first_block :: "block list \<Rightarrow> nat \<Rightarrow> nat" where
  "first_block [] nx = nx"
| "first_block ((a, n, fr) # bs) nx = a"

fun last_block :: "nat \<Rightarrow> block list \<Rightarrow> nat" where
  "last_block l [] = l"
| "last_block l ((a, n, fr) # bs) = last_block a bs"

fun chain_end :: "nat \<Rightarrow> block list \<Rightarrow> nat" where
  "chain_end lo [] = lo"
| "chain_end lo ((a, n, fr) # bs) = chain_end (a + 24 + n) bs"

text \<open>The headers are linked in ascending order, with room for each payload.\<close>

fun chain :: "heap_state \<Rightarrow> nat \<Rightarrow> block list \<Rightarrow> nat \<Rightarrow> bool" where
  "chain s lo [] nx = True"
| "chain s lo ((a, n, fr) # bs) nx =
     (lo \<le> a \<and> 0 < a \<and> header_at s a n (first_block bs nx) fr \<and> chain s (a + 24 + n) bs nx)"

definition heap_inv :: "heap_state \<Rightarrow> block list \<Rightarrow> bool" where
  "heap_inv s bs \<longleftrightarrow> 0 < heap_start s \<and> brk s < 2 ^ 63 \<and> \<not> global_malloc_lock s
     \<and> global_base s = first_block bs 0 \<and> chain s (heap_start s) bs 0 \<and> chain_end (heap_start s) bs \<le> brk s"

definition fits :: "size_t \<Rightarrow> block \<Rightarrow> bool" where
  "fits sz = (\<lambda>(a, n, fr). fr \<and> unat sz \<le> n)"

lemma fits_simps [simp]: "fits sz (a, n, fr) \<longleftrightarrow> fr \<and> unat sz \<le> n"
  by (simp add: fits_def)

lemma first_block_append [simp]: "first_block (as @ bs) nx = first_block as (first_block bs nx)"
  by (cases as) auto

lemma last_block_append [simp]: "last_block l (as @ bs) = last_block (last_block l as) bs"
  by (induction as arbitrary: l) auto

lemma chain_end_append [simp]: "chain_end lo (as @ bs) = chain_end (chain_end lo as) bs"
  by (induction as arbitrary: lo) auto

lemma chain_append:
  "chain s lo (as @ bs) nx \<longleftrightarrow> chain s lo as (first_block bs nx) \<and> chain s (chain_end lo as) bs nx"
  by (induction as arbitrary: lo) auto

lemma chain_end_ge: "chain s lo bs nx \<Longrightarrow> lo \<le> chain_end lo bs"
  by (induction bs arbitrary: lo) fastforce+

text \<open>Every block lies between the bounds of the list, and blocks do not overlap.\<close>

lemma chain_bounds:
  "chain s lo bs nx \<Longrightarrow> (a, n, fr) \<in> set bs \<Longrightarrow> lo \<le> a \<and> a + 24 + n \<le> chain_end lo bs"
proof (induction bs arbitrary: lo)
  case (Cons b bs)
  obtain a' n' fr' where b: "b = (a', n', fr')" by (cases b)
  show ?case
  proof (cases "(a, n, fr) = b")
    case True
    then show ?thesis using Cons.prems b chain_end_ge by auto
  next
    case False
    then have "a' + 24 + n' \<le> a \<and> a + 24 + n \<le> chain_end (a' + 24 + n') bs"
      using Cons b by auto
    then show ?thesis using Cons.prems b by auto
  qed
qed simp

lemma chain_disjoint:
  assumes "chain s lo bs nx" and "(a, n, fr) \<in> set bs" and "(a', n', fr') \<in> set bs"
    and "(a, n, fr) \<noteq> (a', n', fr')"
  shows "a + 24 + n \<le> a' \<or> a' + 24 + n' \<le> a"
  using assms
proof (induction bs arbitrary: lo)
  case (Cons b bs)
  obtain a0 n0 fr0 where b: "b = (a0, n0, fr0)" by (cases b)
  then have rest: "chain s (a0 + 24 + n0) bs nx" using Cons.prems by simp
  show ?case
    using Cons.IH [OF rest] Cons.prems b chain_bounds [OF rest, of a n fr] chain_bounds [OF rest, of a' n' fr'] by auto
qed simp

lemma chain_header: "chain s lo bs nx \<Longrightarrow> (a, n, fr) \<in> set bs \<Longrightarrow> \<exists>nx. header_at s a n nx fr"
  by (induction bs arbitrary: lo) auto

lemma chain_cong:
  assumes "\<And>a n fr x. (a, n, fr) \<in> set bs \<Longrightarrow> a \<le> x \<Longrightarrow> x < a + 24 \<Longrightarrow> mem s' x = mem s x"
    and "heap_start s' = heap_start s" and "brk s \<le> brk s'" and "chain s lo bs nx"
  shows "chain s' lo bs nx"
  using assms(1,4)
proof (induction bs arbitrary: lo)
  case (Cons b bs)
  obtain a n fr where b: "b = (a, n, fr)" by (cases b)
  have "header_at s' a n (first_block bs nx) fr"
    using Cons.prems b by (intro header_at_cong [OF _ assms(2,3)]) auto
  moreover have "chain s' (a + 24 + n) bs nx"
  proof (rule Cons.IH)
    show "mem s' x = mem s x" if "(a', n', fr') \<in> set bs" "a' \<le> x" "x < a' + 24" for a' n' fr' x
      using Cons.prems(1) [of a' n' fr' x] that by simp
    show "chain s (a + 24 + n) bs nx" using Cons.prems(2) b by simp
  qed
  ultimately show ?case using Cons.prems b by simp
qed simp

text \<open>The search visits the blocks before the first free block that is large enough.\<close>

lemma find_loop_first_fit:
  "chain s lo bs 0 \<Longrightarrow>
   find_loop sz s l (first_block bs 0) =
     Some (Inr (last_block l (takeWhile (\<lambda>b. \<not> fits sz b) bs), first_block (dropWhile (\<lambda>b. \<not> fits sz b) bs) 0))"
proof (induction bs arbitrary: lo l)
  case Nil
  then show ?case by (simp add: find_loop.simps)
next
  case (Cons b bs)
  obtain a n fr where b: "b = (a, n, fr)" by (cases b)
  with Cons show ?case
    by (subst find_loop.simps) (auto simp: header_at_def suitable_def)
qed

section \<open>Refinement of the list of blocks\<close>

text \<open>Initialising a header.\<close>

lemma init_header:
  assumes seg: "in_segment s a 24" and v: "v < 2 ^ 64"
  shows "\<exists>s'. and_then (meta_set ''size'' v a s) (\<lambda>s. and_then (meta_set ''next'' 0 a s) (\<lambda>s.
               and_then (meta_set ''free'' 0 a s) (\<lambda>s. and_then (meta_set ''magic'' MAGIC_NUM a s) (\<lambda>s.
               Inr (b, s))))) = Inr (b, s')
    \<and> s' = s\<lparr>mem := mem s'\<rparr> \<and> header_at s' a v 0 False \<and> (\<forall>x. x < a \<or> a + 24 \<le> x \<longrightarrow> mem s' x = mem s x)"
proof -
  have seg_eq: "in_segment t a 24" if "t = r\<lparr>mem := mem t\<rparr>" "in_segment r a 24" for t r
    using that by (metis heap_state.ext_inject heap_state.surjective heap_state.update_convs(1) in_segment_def)
  obtain s1 where s1: "meta_set ''size'' v a s = Inr s1" using meta_set_defined [OF seg] by blast
  have seg1: "in_segment s1 a 24" using seg_eq [OF meta_set_frame(1) [OF s1] seg] .
  obtain s2 where s2: "meta_set ''next'' 0 a s1 = Inr s2" using meta_set_defined [OF seg1] by blast
  have seg2: "in_segment s2 a 24" using seg_eq [OF meta_set_frame(1) [OF s2] seg1] .
  obtain s3 where s3: "meta_set ''free'' 0 a s2 = Inr s3" using meta_set_defined [OF seg2] by blast
  have seg3: "in_segment s3 a 24" using seg_eq [OF meta_set_frame(1) [OF s3] seg2] .
  obtain s4 where s4: "meta_set ''magic'' MAGIC_NUM a s3 = Inr s4" using meta_set_defined [OF seg3] by blast
  have "header_at s4 a v 0 False"
    using v by (simp add: header_at_def meta_get_set [OF s1] meta_get_set [OF s2] meta_get_set [OF s3]
        meta_get_set [OF s4] block_meta_layout MAGIC_NUM_def)
  moreover have "s4 = s\<lparr>mem := mem s4\<rparr>"
    by (rule mem_only_trans [OF _ meta_set_frame(1) [OF s4]], rule mem_only_trans [OF _ meta_set_frame(1) [OF s3]],
        rule mem_only_trans [OF meta_set_frame(1) [OF s1] meta_set_frame(1) [OF s2]])
  moreover have "\<forall>x. x < a \<or> a + 24 \<le> x \<longrightarrow> mem s4 x = mem s x"
    using meta_set_frame(2) [OF s1] meta_set_frame(2) [OF s2] meta_set_frame(2) [OF s3] meta_set_frame(2) [OF s4]
    by auto
  ultimately show ?thesis using s1 s2 s3 s4 by auto
qed

lemma sbrk_increment:
  assumes "unat sz < 2 ^ 63 - 24"
  shows "sint (sz + of_nat META_SIZE :: size_t) = int (unat sz) + 24"
proof -
  have "(sz + of_nat META_SIZE :: size_t) = of_int (int (unat sz) + 24)" by simp
  then have "sint (sz + of_nat META_SIZE :: size_t) = signed_take_bit 63 (int (unat sz) + 24)"
    by (simp only: signed_of_int) simp
  moreover have "signed_take_bit 63 (int u + 24) = int u + 24" if "u < 2 ^ 63 - 24" for u :: nat
    using that by (intro signed_take_bit_int_eq_self) simp_all
  ultimately show ?thesis by (simp only: assms)
qed

text \<open>A granted request: a new block at the old break, linked behind \<open>lst\<close> if there is one.\<close>

lemma request_space_granted:
  assumes sz: "unat sz < 2 ^ 63 - 24" and g: "grant (brk s) (int (unat sz) + 24)"
    and pos: "heap_start s \<le> brk s" "brk s < 2 ^ 63"
    and l: "lst \<noteq> 0 \<Longrightarrow> header_at s lst n nx fr"
  shows "\<exists>s'. request_space grant lst sz s = Inr (brk s, s')
    \<and> s' = s\<lparr>mem := mem s', brk := brk s + unat sz + 24\<rparr> \<and> header_at s' (brk s) (unat sz) 0 False
    \<and> (lst \<noteq> 0 \<longrightarrow> header_at s' lst n (brk s) fr)
    \<and> (\<forall>x < brk s. lst = 0 \<or> x < lst \<or> lst + 24 \<le> x \<longrightarrow> mem s' x = mem s x)"
proof -
  let ?s0 = "s\<lparr>brk := brk s + unat sz + 24\<rparr>"
  have inc: "sint (sz + of_nat META_SIZE :: size_t) = int (unat sz) + 24" by (rule sbrk_increment [OF sz])
  have nb: "nat (int k + (int u + 24)) = k + u + 24" for k u by simp
  obtain s1 where s1: "(if lst \<noteq> 0 then meta_set ''next'' (brk s) lst ?s0 else Inr ?s0) = Inr s1"
    and f1: "s1 = ?s0\<lparr>mem := mem s1\<rparr>" and h1: "lst \<noteq> 0 \<Longrightarrow> header_at s1 lst n (brk s) fr"
    and m1: "\<And>x. lst = 0 \<or> x < lst \<or> lst + 24 \<le> x \<Longrightarrow> mem s1 x = mem s x"
  proof (cases "lst = 0")
    case True
    then show thesis using that [of ?s0] by simp
  next
    case False
    have h0: "header_at ?s0 lst n nx fr" by (rule header_at_cong [OF _ _ _ l [OF False]]) simp_all
    then obtain s1 where s1: "meta_set ''next'' (brk s) lst ?s0 = Inr s1"
      using meta_set_defined [OF header_at_segment] by blast
    show thesis
      using that [of s1] s1 False meta_set_frame [OF s1] set_next [OF s1 _ h0] pos(2) by simp
  qed
  have seg: "in_segment s1 (brk s) 24" by (subst f1) (simp add: in_segment_def pos)
  have below: "lst + 24 \<le> brk s" if "lst \<noteq> 0"
    using header_at_segment [OF l [OF that]] by (simp add: in_segment_def)
  define b where "b = brk s"
  obtain s2 where s2: "and_then (meta_set ''size'' (unat sz) b s1) (\<lambda>s. and_then (meta_set ''next'' 0 b s) (\<lambda>s.
       and_then (meta_set ''free'' 0 b s) (\<lambda>s. and_then (meta_set ''magic'' MAGIC_NUM b s) (\<lambda>s.
       Inr (b, s))))) = Inr (b, s2)"
    and f2: "s2 = s1\<lparr>mem := mem s2\<rparr>" and h2: "header_at s2 b (unat sz) 0 False"
    and m2: "\<And>x. x < b \<or> b + 24 \<le> x \<Longrightarrow> mem s2 x = mem s1 x"
    using init_header [of s1 b "unat sz" b] seg sz unfolding b_def by fastforce
  have run: "request_space grant lst sz s = Inr (b, s2)"
    using s1 s2 g unfolding request_space_def Let_def inc nb by (simp only: b_def not_True_eq_False if_False and_then_simps)
  moreover have "s2 = s\<lparr>mem := mem s2, brk := brk s + unat sz + 24\<rparr>"
    using f1 f2 by (cases s; cases s1; cases s2) simp
  moreover have "lst \<noteq> 0 \<longrightarrow> header_at s2 lst n (brk s) fr"
  proof
    assume "lst \<noteq> 0"
    then have "\<And>x. lst \<le> x \<Longrightarrow> x < lst + 24 \<Longrightarrow> mem s2 x = mem s1 x" using below m2 b_def by force
    moreover have "heap_start s2 = heap_start s1" "brk s1 \<le> brk s2" by (subst f2; simp)+
    ultimately show "header_at s2 lst n (brk s) fr" using header_at_cong h1 \<open>lst \<noteq> 0\<close> by blast
  qed
  moreover have "mem s2 x = mem s x" if "x < brk s" "lst = 0 \<or> x < lst \<or> lst + 24 \<le> x" for x
    using m1 m2 that b_def by simp
  ultimately show ?thesis using h2 b_def by blast
qed

text \<open>First fit on the list of blocks, with the new break. A pointer of 0 is a refusal.\<close>

definition malloc_spec ::
  "(nat \<Rightarrow> int \<Rightarrow> bool) \<Rightarrow> size_t \<Rightarrow> nat \<Rightarrow> block list \<Rightarrow> nat \<times> nat \<times> block list" where
  "malloc_spec grant sz b bs =
     (case dropWhile (\<lambda>b. \<not> fits sz b) bs of
        (a, n, fr) # cs \<Rightarrow> (a + 24, b, takeWhile (\<lambda>b. \<not> fits sz b) bs @ (a, n, False) # cs)
      | [] \<Rightarrow> if grant b (int (unat sz) + 24)
              then (b + 24, b + unat sz + 24, bs @ [(b, unat sz, False)]) else (0, b, bs))"

text \<open>The kernel keeps the break inside the address space.\<close>

definition kernel_limits :: "(nat \<Rightarrow> int \<Rightarrow> bool) \<Rightarrow> bool" where
  "kernel_limits grant \<longleftrightarrow> (\<forall>b n. grant b n \<longrightarrow> 0 \<le> int b + n \<and> int b + n < 2 ^ 63)"

text \<open>What an operation on the blocks \<open>bs\<close> leaves alone: all bytes outside headers, the output.\<close>

definition keeps_payload :: "block list \<Rightarrow> heap_state \<Rightarrow> heap_state \<Rightarrow> bool" where
  "keeps_payload bs s s' \<longleftrightarrow> heap_start s' = heap_start s \<and> printed s' = printed s
     \<and> (\<forall>x < brk s. (\<forall>(a, n, fr) \<in> set bs. x < a \<or> a + 24 \<le> x) \<longrightarrow> mem s' x = mem s x)"

text \<open>Writing inside one header keeps the other blocks of the list.\<close>

lemma chain_other_headers:
  assumes c: "chain s lo (as @ (a, n, fr) # cs) nx"
    and m: "\<And>x. x < a \<or> a + 24 \<le> x \<Longrightarrow> mem s' x = mem s x"
    and f: "heap_start s' = heap_start s" "brk s \<le> brk s'"
    and h: "header_at s' a n nx' fr'"
    and nx': "nx' = first_block cs nxx" and cs: "cs = [] \<or> nxx = nx"
  shows "chain s' lo (as @ (a, n, fr') # cs) nxx"
proof -
  have c1: "chain s lo as a" and c2: "chain s (a + 24 + n) cs nx" and a: "chain_end lo as \<le> a" "0 < a"
    using c by (auto simp: chain_append)
  have "chain s' lo as a"
    by (rule chain_cong [OF _ f c1]) (use m a chain_bounds [OF c1] in fastforce)
  moreover have "chain s' (a + 24 + n) cs nx"
    by (rule chain_cong [OF _ f c2]) (use m chain_bounds [OF c2] in fastforce)
  ultimately show ?thesis using a h nx' cs by (auto simp: chain_append)
qed

lemma heap_inv_chainD:
  "heap_inv s bs \<Longrightarrow> chain s (heap_start s) bs 0 \<and> chain_end (heap_start s) bs \<le> brk s
     \<and> 0 < heap_start s \<and> brk s < 2 ^ 63 \<and> \<not> global_malloc_lock s \<and> global_base s = first_block bs 0
     \<and> heap_start s \<le> brk s"
  using chain_end_ge by (fastforce simp: heap_inv_def)

lemma mutex_simps [simp]:
  "mem (mutex_unlock s) = mem s" "brk (mutex_unlock s) = brk s" "heap_start (mutex_unlock s) = heap_start s"
  "global_base (mutex_unlock s) = global_base s" "printed (mutex_unlock s) = printed s"
  "\<not> global_malloc_lock (mutex_unlock s)"
  by (simp_all add: mutex_unlock_def)

lemma meta_lock_irrelevant:
  "meta_get f a (s\<lparr>global_malloc_lock := b\<rparr>) = meta_get f a s"
  "meta_get f a (s\<lparr>global_base := g\<rparr>) = meta_get f a s" "meta_get f a (mutex_unlock s) = meta_get f a s"
  by (simp_all add: meta_get_def in_segment_def mutex_unlock_def split: option.split)

lemma header_lock_irrelevant:
  "header_at (s\<lparr>global_malloc_lock := b\<rparr>) a n nx fr = header_at s a n nx fr"
  "header_at (s\<lparr>global_base := g\<rparr>) a n nx fr = header_at s a n nx fr"
  "header_at (mutex_unlock s) a n nx fr = header_at s a n nx fr"
  by (simp_all add: header_at_def meta_lock_irrelevant)

lemma chain_lock_irrelevant:
  "chain (s\<lparr>global_malloc_lock := b\<rparr>) lo bs nx = chain s lo bs nx"
  "chain (s\<lparr>global_base := g\<rparr>) lo bs nx = chain s lo bs nx" "chain (mutex_unlock s) lo bs nx = chain s lo bs nx"
  by (induction bs arbitrary: lo) (auto simp: header_lock_irrelevant)

lemma first_block_pos: "chain s lo bs 0 \<Longrightarrow> first_block bs 0 = 0 \<longleftrightarrow> bs = []"
  by (cases bs) auto

lemma malloc_reuse:
  assumes inv: "heap_inv s bs" and sz: "sz \<noteq> 0"
    and bs: "dropWhile (\<lambda>b. \<not> fits sz b) bs = (a, n, fr) # cs" "takeWhile (\<lambda>b. \<not> fits sz b) bs = as"
  shows "\<exists>s'. my_malloc grant sz s = Inr (a + 24, s') \<and> brk s' = brk s
    \<and> heap_inv s' (as @ (a, n, False) # cs) \<and> keeps_payload bs s s'"
proof -
  let ?t = "s\<lparr>global_malloc_lock := True\<rparr>"
  note i = heap_inv_chainD [OF inv]
  have split: "bs = as @ (a, n, fr) # cs" using bs takeWhile_dropWhile_id by metis
  have c: "chain ?t (heap_start s) (as @ (a, n, fr) # cs) 0" using i split by (simp add: chain_lock_irrelevant)
  then have h: "header_at ?t a n (first_block cs 0) fr" "0 < a" by (auto simp: chain_append)
  have find: "find_free_block (global_base s) sz ?t = Inr (last_block (global_base s) as, a)"
    using find_loop_first_fit [OF c [folded split], of sz "global_base s"] i bs by (simp add: find_free_block_def)
  obtain t1 where t1: "meta_set ''free'' 0 a ?t = Inr t1"
    using meta_set_defined [OF header_at_segment [OF h(1)]] by blast
  have h1: "header_at t1 a n (first_block cs 0) False" using set_free [of False, OF _ h(1)] t1 by simp
  obtain t2 where t2: "meta_set ''magic'' MAGIC_NUM a t1 = Inr t2"
    using meta_set_defined [OF header_at_segment [OF h1]] by blast
  have h2: "header_at t2 a n (first_block cs 0) False" by (rule set_magic [OF t2 h1])
  have only: "t2 = ?t\<lparr>mem := mem t2\<rparr>"
    by (rule mem_only_trans [OF meta_set_frame(1) [OF t1] meta_set_frame(1) [OF t2]])
  have eqs: "heap_start t2 = heap_start s" "brk t2 = brk s" "global_base t2 = global_base s" "printed t2 = printed s"
    by (subst only; simp)+
  have mem: "mem t2 x = mem s x" if "x < a \<or> a + 24 \<le> x" for x
    using meta_set_frame(2) [OF t1 that] meta_set_frame(2) [OF t2 that] by simp
  have "global_base s \<noteq> 0" using i split first_block_pos [of s "heap_start s" bs] by simp
  then have "my_malloc grant sz s = Inr (a + 24, mutex_unlock t2)"
    using sz i find t1 t2 h(2) by (simp add: my_malloc_def mutex_lock_def)
  moreover have "chain t2 (heap_start s) (as @ (a, n, False) # cs) 0"
    by (rule chain_other_headers [OF c _ _ _ h2]) (use mem eqs in auto)
  then have "heap_inv (mutex_unlock t2) (as @ (a, n, False) # cs)"
    using i eqs split by (simp add: heap_inv_def chain_lock_irrelevant)
  moreover have "keeps_payload bs s (mutex_unlock t2)"
    using mem eqs split by (auto simp: keeps_payload_def)
  ultimately show ?thesis using eqs by auto
qed

lemma malloc_refused:
  assumes inv: "heap_inv s bs" and sz: "sz \<noteq> 0" "unat sz < 2 ^ 63 - 24"
    and bs: "dropWhile (\<lambda>b. \<not> fits sz b) bs = []" and g: "\<not> grant (brk s) (int (unat sz) + 24)"
  shows "my_malloc grant sz s = Inr (0, s)"
proof -
  let ?t = "s\<lparr>global_malloc_lock := True\<rparr>"
  note i = heap_inv_chainD [OF inv]
  have "request_space grant l sz ?t = Inr (0, ?t)" for l
    using g sbrk_increment [OF sz(2)] by (simp add: request_space_def del: META_SIZE)
  moreover have "\<exists>l. find_free_block (global_base s) sz ?t = Inr (l, 0)"
    using find_loop_first_fit [of ?t "heap_start s" bs sz "global_base s"] i bs
    by (simp add: find_free_block_def chain_lock_irrelevant)
  moreover have "mutex_unlock ?t = s" using i by (cases s) (simp add: mutex_unlock_def)
  ultimately show ?thesis
    using sz i by (auto simp: my_malloc_def mutex_lock_def)
qed

text \<open>The list after a granted request: the last header points to the new block.\<close>

lemma chain_extend:
  assumes c: "chain s lo bs 0" and e: "chain_end lo bs \<le> brk s" and b: "0 < brk s"
    and f: "heap_start s' = heap_start s" "brk s' = brk s + k + 24"
    and h: "header_at s' (brk s) k 0 False"
    and l: "bs \<noteq> [] \<Longrightarrow> fst (last bs) = a \<and> header_at s' a (fst (snd (last bs))) (brk s) (snd (snd (last bs)))"
    and m: "\<And>x. x < brk s \<Longrightarrow> bs = [] \<or> x < a \<or> a + 24 \<le> x \<Longrightarrow> mem s' x = mem s x"
  shows "chain s' lo (bs @ [(brk s, k, False)]) 0"
proof (cases bs rule: rev_cases)
  case Nil
  then show ?thesis using h e b by simp
next
  case (snoc as last)
  obtain n fr where last: "last = (a, n, fr)" using l snoc by (cases last) auto
  have c1: "chain s lo as a" and a: "chain_end lo as \<le> a" "0 < a" "a + 24 + n \<le> brk s"
    using c e snoc last by (auto simp: chain_append)
  have "chain s' lo as a"
  proof (rule chain_cong [OF _ f(1) _ c1])
    fix a' n' fr' x assume "(a', n', fr') \<in> set as" "a' \<le> x" "x < a' + 24"
    then show "mem s' x = mem s x" using chain_bounds [OF c1, of a' n' fr'] a m [of x] by auto
  qed (simp add: f(2))
  moreover have "header_at s' a n (brk s) fr" using l snoc last by simp
  ultimately show ?thesis using snoc last h a b by (simp add: chain_append)
qed

lemma chain_last:
  assumes "chain s lo bs 0"
  obtains nx where "bs \<noteq> [] \<Longrightarrow> 0 < fst (last bs)"
    and "bs \<noteq> [] \<Longrightarrow> header_at s (fst (last bs)) (fst (snd (last bs))) nx (snd (snd (last bs)))"
  using assms by (cases bs rule: rev_cases) (auto simp: chain_append)

lemma last_block_last: "bs \<noteq> [] \<Longrightarrow> last_block l bs = fst (last bs)"
  by (cases bs rule: rev_cases) auto

text \<open>\<^verbatim>\<open>request_space\<close> with the last block of the list as its argument.\<close>

lemma request_space_extends:
  assumes c: "chain s (heap_start s) bs 0" "chain_end (heap_start s) bs \<le> brk s"
    and s: "0 < heap_start s" "brk s < 2 ^ 63" and sz: "unat sz < 2 ^ 63 - 24"
    and g: "grant (brk s) (int (unat sz) + 24)"
    and l: "l = (if bs = [] then 0 else fst (last bs))"
  shows "\<exists>t. request_space grant l sz s = Inr (brk s, t) \<and> t = s\<lparr>mem := mem t, brk := brk s + unat sz + 24\<rparr>
    \<and> chain t (heap_start s) (bs @ [(brk s, unat sz, False)]) 0 \<and> keeps_payload bs s t"
proof -
  obtain nx where pos: "bs \<noteq> [] \<Longrightarrow> 0 < fst (last bs)"
    and hl: "bs \<noteq> [] \<Longrightarrow> header_at s (fst (last bs)) (fst (snd (last bs))) nx (snd (snd (last bs)))"
    using chain_last [OF c(1)] by metis
  have b: "heap_start s \<le> brk s" "0 < brk s" using chain_end_ge [OF c(1)] c(2) s by simp_all
  have "l \<noteq> 0 \<Longrightarrow> header_at s l (fst (snd (last bs))) nx (snd (snd (last bs)))" using hl l by presburger
  from request_space_granted [of sz grant s l "fst (snd (last bs))" nx "snd (snd (last bs))", OF sz g b(1) s(2) this]
  obtain t where t: "request_space grant l sz s = Inr (brk s, t)"
    and only: "t = s\<lparr>mem := mem t, brk := brk s + unat sz + 24\<rparr>"
    and h: "header_at t (brk s) (unat sz) 0 False"
    and hl': "l \<noteq> 0 \<longrightarrow> header_at t l (fst (snd (last bs))) (brk s) (snd (snd (last bs)))"
    and m: "\<forall>x < brk s. l = 0 \<or> x < l \<or> l + 24 \<le> x \<longrightarrow> mem t x = mem s x"
    by blast
  have eqs: "heap_start t = heap_start s" "brk t = brk s + unat sz + 24" "printed t = printed s"
    by (subst only; simp)+
  have "chain t (heap_start s) (bs @ [(brk s, unat sz, False)]) 0"
    by (rule chain_extend [OF c b(2) eqs(1,2) h, of l]) (use l hl' m pos in auto)
  moreover have "l = 0 \<or> x < l \<or> l + 24 \<le> x" if "\<forall>(a, n, fr) \<in> set bs. x < a \<or> a + 24 \<le> x" for x
    using that last_in_set [of bs] l by (cases "last bs") auto
  then have "keeps_payload bs s t" using m eqs unfolding keeps_payload_def by blast
  ultimately show ?thesis using t only by blast
qed

lemma malloc_grow:
  assumes inv: "heap_inv s bs" and sz: "sz \<noteq> 0" "unat sz < 2 ^ 63 - 24"
    and bs: "dropWhile (\<lambda>b. \<not> fits sz b) bs = []" and g: "grant (brk s) (int (unat sz) + 24)"
    and k: "kernel_limits grant"
  shows "\<exists>s'. my_malloc grant sz s = Inr (brk s + 24, s') \<and> brk s' = brk s + unat sz + 24
    \<and> heap_inv s' (bs @ [(brk s, unat sz, False)]) \<and> keeps_payload bs s s'"
proof -
  let ?t = "s\<lparr>global_malloc_lock := True\<rparr>"
  let ?l = "if bs = [] then 0 else fst (last bs)"
  note i = heap_inv_chainD [OF inv]
  have c: "chain ?t (heap_start ?t) bs 0" using i by (simp add: chain_lock_irrelevant)
  have "grant (brk ?t) (int (unat sz) + 24)" using g by simp
  from request_space_extends [of ?t bs sz grant ?l, OF c _ _ _ sz(2) this refl] i
  obtain t where t: "request_space grant ?l sz ?t = Inr (brk s, t)"
    and only: "t = ?t\<lparr>mem := mem t, brk := brk s + unat sz + 24\<rparr>"
    and c': "chain t (heap_start s) (bs @ [(brk s, unat sz, False)]) 0" and kp: "keeps_payload bs ?t t"
    by auto
  have eqs: "heap_start t = heap_start s" "brk t = brk s + unat sz + 24" "global_base t = global_base s"
    by (subst only; simp)+
  have lim: "brk s + unat sz + 24 < 2 ^ 63"
  proof -
    have "int (brk s) + (int (unat sz) + 24) < 2 ^ 63" using g k unfolding kernel_limits_def by blast
    moreover have "k + u + 24 < 2 ^ 63" if "int k + (int u + 24) < 2 ^ 63" for k u using that by simp
    ultimately show ?thesis by blast
  qed
  let ?s' = "mutex_unlock (if bs = [] then t\<lparr>global_base := brk s\<rparr> else t)"
  have gb: "global_base s = 0 \<longleftrightarrow> bs = []" using i first_block_pos by metis
  have "bs \<noteq> [] \<Longrightarrow> find_free_block (global_base s) sz ?t = Inr (fst (last bs), 0)"
    using find_loop_first_fit [OF c, of sz "global_base s"] i bs last_block_last [of bs]
    by (simp add: find_free_block_def takeWhile_eq_all_conv [THEN iffD2])
  then have "my_malloc grant sz s = Inr (brk s + 24, ?s')"
    using sz i gb t by (cases "bs = []") (simp_all add: my_malloc_def mutex_lock_def)
  moreover have "heap_inv ?s' (bs @ [(brk s, unat sz, False)])"
    using i eqs c' lim by (cases bs) (auto simp: heap_inv_def header_lock_irrelevant chain_lock_irrelevant)
  moreover have "keeps_payload bs s ?s'"
    using kp by (simp add: keeps_payload_def)
  ultimately show ?thesis using eqs by auto
qed

lemma malloc_refines:
  assumes "heap_inv s bs" and "sz \<noteq> 0" and "unat sz < 2 ^ 63 - 24" and "kernel_limits grant"
  shows "\<exists>p s' bs'. my_malloc grant sz s = Inr (p, s') \<and> malloc_spec grant sz (brk s) bs = (p, brk s', bs')
    \<and> heap_inv s' bs' \<and> keeps_payload bs s s'"
proof (cases "dropWhile (\<lambda>b. \<not> fits sz b) bs")
  case Nil
  show ?thesis
  proof (cases "grant (brk s) (int (unat sz) + 24)")
    case True
    then have "malloc_spec grant sz (brk s) bs = (brk s + 24, brk s + unat sz + 24, bs @ [(brk s, unat sz, False)])"
      by (simp add: malloc_spec_def Nil)
    then show ?thesis
      using malloc_grow [OF assms(1-3) Nil True assms(4)] by metis
  next
    case False
    then have "malloc_spec grant sz (brk s) bs = (0, brk s, bs)" by (simp add: malloc_spec_def Nil)
    moreover have "keeps_payload bs s s" by (simp add: keeps_payload_def)
    ultimately show ?thesis
      using malloc_refused [of s bs sz grant, OF assms(1-3) Nil False] assms(1) by blast
  qed
next
  case (Cons b cs)
  obtain a n fr where b: "b = (a, n, fr)" by (cases b)
  have "malloc_spec grant sz (brk s) bs = (a + 24, brk s, takeWhile (\<lambda>b. \<not> fits sz b) bs @ (a, n, False) # cs)"
    using Cons b by (simp add: malloc_spec_def)
  then show ?thesis
    using malloc_reuse [OF assms(1,2) Cons [unfolded b] refl, of grant] by metis
qed

text \<open>Releasing a block: its header is marked and nothing is reported.\<close>

lemma free_refines:
  assumes inv: "heap_inv s (as @ (a, n, fr) # cs)"
  shows "\<exists>s'. my_free (a + 24) s = Inr s' \<and> brk s' = brk s \<and> heap_inv s' (as @ (a, n, True) # cs)
    \<and> keeps_payload (as @ (a, n, fr) # cs) s s'"
proof -
  let ?t = "s\<lparr>global_malloc_lock := True\<rparr>"
  note i = heap_inv_chainD [OF inv]
  have c: "chain ?t (heap_start s) (as @ (a, n, fr) # cs) 0" using i by (simp add: chain_lock_irrelevant)
  then have h: "header_at ?t a n (first_block cs 0) fr" by (auto simp: chain_append)
  obtain t1 where t1: "meta_set ''free'' 1 a ?t = Inr t1"
    using meta_set_defined [OF header_at_segment [OF h(1)]] by blast
  have h1: "header_at t1 a n (first_block cs 0) True" using set_free [of True, OF _ h] t1 by simp
  have eqs: "heap_start t1 = heap_start s" "brk t1 = brk s" "global_base t1 = global_base s" "printed t1 = printed s"
    by (subst meta_set_frame(1) [OF t1]; simp)+
  have mem: "mem t1 x = mem s x" if "x < a \<or> a + 24 \<le> x" for x
    using meta_set_frame(2) [OF t1 that] by simp
  have "my_free (a + 24) s = Inr (mutex_unlock t1)"
    using i h t1 by (simp add: my_free_def mutex_lock_def header_at_def)
  moreover have "chain t1 (heap_start s) (as @ (a, n, True) # cs) 0"
    by (rule chain_other_headers [OF c _ _ _ h1]) (use mem eqs in auto)
  then have "heap_inv (mutex_unlock t1) (as @ (a, n, True) # cs)"
    using i eqs by (simp add: heap_inv_def chain_lock_irrelevant)
  moreover have "keeps_payload (as @ (a, n, fr) # cs) s (mutex_unlock t1)"
    using mem eqs by (auto simp: keeps_payload_def)
  ultimately show ?thesis using eqs by auto
qed

text \<open>A client's write into a payload keeps every header.\<close>

lemma payload_write_keeps:
  assumes inv: "heap_inv s bs" and b: "(a, n, fr) \<in> set bs" and x: "a + 24 \<le> x" "x < a + 24 + n"
  shows "heap_inv (s\<lparr>mem := (mem s)(x := v)\<rparr>) bs"
proof -
  note i = heap_inv_chainD [OF inv]
  have "chain (s\<lparr>mem := (mem s)(x := v)\<rparr>) (heap_start s) bs 0"
  proof (rule chain_cong)
    fix a' n' fr' y assume b': "(a', n', fr') \<in> set bs" and y: "a' \<le> y" "y < a' + 24"
    have "(a, n, fr) = (a', n', fr') \<or> a + 24 + n \<le> a' \<or> a' + 24 + n' \<le> a"
      using chain_disjoint [of s "heap_start s" bs 0 a n fr a' n' fr'] i b b' by blast
    then have "x \<noteq> y" using x y by auto
    then show "mem (s\<lparr>mem := (mem s)(x := v)\<rparr>) y = mem s y" by simp
  qed (use i in auto)
  then show ?thesis using i by (simp add: heap_inv_def)
qed

section \<open>Clients\<close>

text \<open>
  A process that uses the allocator: it allocates, releases pointers it holds, writes inside what it
  allocated, and other code of the process may move the break upwards. \<open>L\<close> lists the pointers it
  holds with the sizes it asked for.
\<close>

definition initial_heap :: "(nat \<Rightarrow> byte) \<Rightarrow> nat \<Rightarrow> heap_state" where
  "initial_heap m b = \<lparr>mem = m, heap_start = b, brk = b, global_base = 0, global_malloc_lock = False, printed = []\<rparr>"

inductive client_reach :: "(nat \<Rightarrow> int \<Rightarrow> bool) \<Rightarrow> heap_state \<Rightarrow> (nat \<times> nat) list \<Rightarrow> bool" for grant where
  start: "0 < b \<Longrightarrow> b < 2 ^ 63 \<Longrightarrow> client_reach grant (initial_heap m b) []"
| alloc: "client_reach grant s L \<Longrightarrow> unat sz < 2 ^ 63 - 24 \<Longrightarrow> my_malloc grant sz s = Inr (p, s') \<Longrightarrow>
    client_reach grant s' (if p = 0 then L else (p, unat sz) # L)"
| release: "client_reach grant s L \<Longrightarrow> (p, n) \<in> set L \<Longrightarrow> my_free p s = Inr s' \<Longrightarrow>
    client_reach grant s' (remove1 (p, n) L)"
| write_byte: "client_reach grant s L \<Longrightarrow> (p, n) \<in> set L \<Longrightarrow> i < n \<Longrightarrow>
    client_reach grant (s\<lparr>mem := (mem s)(p + i := v)\<rparr>) L"
| other_sbrk: "client_reach grant s L \<Longrightarrow> brk s \<le> b \<Longrightarrow> b < 2 ^ 63 \<Longrightarrow> client_reach grant (s\<lparr>brk := b\<rparr>) L"

definition live_ok :: "(nat \<times> nat) list \<Rightarrow> block list \<Rightarrow> bool" where
  "live_ok L bs \<longleftrightarrow> distinct (map fst L)
     \<and> (\<forall>(p, n) \<in> set L. 24 \<le> p \<and> (\<exists>m. n \<le> m \<and> (p - 24, m, False) \<in> set bs))"

lemma live_okD:
  "live_ok L bs \<Longrightarrow> (p, n) \<in> set L \<Longrightarrow> 24 \<le> p \<and> (\<exists>m. n \<le> m \<and> (p - 24, m, False) \<in> set bs)"
  by (auto simp: live_ok_def)

lemma chain_addr_inj:
  "chain s lo bs nx \<Longrightarrow> (a, n, fr) \<in> set bs \<Longrightarrow> (a, n', fr') \<in> set bs \<Longrightarrow> n = n' \<and> fr = fr'"
  using chain_disjoint [of s lo bs nx a n fr a n' fr'] by fastforce

text \<open>A successful allocation hands out a block that was not in use and keeps those that were.\<close>

lemma malloc_spec_fresh:
  assumes c: "chain s lo bs 0" "chain_end lo bs \<le> b"
    and m: "malloc_spec grant sz b bs = (p, b', bs')" and p: "p \<noteq> 0"
  shows "24 \<le> p \<and> (\<exists>m. unat sz \<le> m \<and> (p - 24, m, False) \<in> set bs') \<and> (\<forall>m. (p - 24, m, False) \<notin> set bs)"
    and "(a, n, False) \<in> set bs \<Longrightarrow> (a, n, False) \<in> set bs'"
proof -
  show "24 \<le> p \<and> (\<exists>m. unat sz \<le> m \<and> (p - 24, m, False) \<in> set bs') \<and> (\<forall>m. (p - 24, m, False) \<notin> set bs)"
  proof (cases "dropWhile (\<lambda>b. \<not> fits sz b) bs")
    case Nil
    then have "p = b + 24" "bs' = bs @ [(b, unat sz, False)]"
      using m p by (auto simp: malloc_spec_def Nil split: if_splits)
    moreover have "(b, k, False) \<notin> set bs" for k using chain_bounds [OF c(1)] c(2) by fastforce
    ultimately show ?thesis by auto
  next
    case (Cons x cs)
    obtain a' n' fr' where x: "x = (a', n', fr')" by (cases x)
    have "fits sz x" using Cons by (metis dropWhile_eq_Cons_conv)
    then have "fr' = True" "unat sz \<le> n'" using x by auto
    moreover have "x \<in> set bs" using Cons by (metis dropWhile_eq_Cons_conv in_set_conv_decomp)
    ultimately have "(a', k, False) \<notin> set bs" for k using chain_addr_inj [OF c(1)] x by blast
    then show ?thesis using m \<open>unat sz \<le> n'\<close> by (auto simp: malloc_spec_def Cons x)
  qed
  show "(a, n, False) \<in> set bs'" if a: "(a, n, False) \<in> set bs"
  proof (cases "dropWhile (\<lambda>b. \<not> fits sz b) bs")
    case Nil
    then show ?thesis using m a by (auto simp: malloc_spec_def Nil split: if_splits)
  next
    case (Cons x cs)
    have "set bs = set (takeWhile (\<lambda>b. \<not> fits sz b) bs) \<union> insert x (set cs)"
      using takeWhile_dropWhile_id [of "\<lambda>b. \<not> fits sz b" bs] Cons by (metis list.simps(15) set_append)
    moreover have "fits sz x" using Cons by (metis dropWhile_eq_Cons_conv)
    ultimately show ?thesis using m a by (cases x) (auto simp: malloc_spec_def Cons)
  qed
qed

lemma live_ok_alloc:
  assumes "heap_inv s bs" and "live_ok L bs" and "malloc_spec grant sz (brk s) bs = (p, b', bs')"
  shows "live_ok (if p = 0 then L else (p, unat sz) # L) bs'"
proof (cases "p = 0")
  case True
  then have "bs' = bs"
    using assms(3) by (auto simp: malloc_spec_def split: list.splits if_splits)
  then show ?thesis using assms(2) True by simp
next
  case False
  note i = heap_inv_chainD [OF assms(1)]
  have c: "chain s (heap_start s) bs 0" "chain_end (heap_start s) bs \<le> brk s" using i by auto
  note f = malloc_spec_fresh [OF c assms(3) False]
  have "p \<notin> fst ` set L" using live_okD [OF assms(2)] f(1) by force
  then show ?thesis
    using False assms(2) f unfolding live_ok_def by fastforce
qed

lemma live_ok_release:
  assumes c: "chain s lo (as @ (p - 24, m, False) # cs) 0" and "live_ok L (as @ (p - 24, m, False) # cs)"
    and "(p, n) \<in> set L"
  shows "live_ok (remove1 (p, n) L) (as @ (p - 24, m, True) # cs)"
proof -
  have d: "distinct L" "distinct (map fst L)" using assms(2) by (simp_all add: live_ok_def distinct_map)
  have "q \<noteq> p" if "(q, k) \<in> set (remove1 (p, n) L)" for q k
    using that assms(3) d by (auto dest: eq_key_imp_eq_value)
  moreover have "q - 24 \<noteq> p - 24" if "24 \<le> q" "q \<noteq> p" for q
    using that live_okD [OF assms(2,3)] by auto
  moreover have "distinct (map fst (remove1 (p, n) L))" using d by (simp add: distinct_map distinct_remove1 inj_on_def)
  ultimately show ?thesis
    using live_okD [OF assms(2)] d(1) unfolding live_ok_def by fastforce
qed

text \<open>The bytes a client holds are never header bytes.\<close>

lemma live_region_kept:
  assumes inv: "heap_inv s bs" and live: "live_ok L bs" and l: "(p, n) \<in> set L" and i: "i < n"
    and k: "keeps_payload bs s s'"
  shows "mem s' (p + i) = mem s (p + i)"
proof -
  obtain m where m: "(p - 24, m, False) \<in> set bs" "24 \<le> p" "n \<le> m" using live_okD [OF live l] by blast
  have c: "chain s (heap_start s) bs 0" "chain_end (heap_start s) bs \<le> brk s"
    using heap_inv_chainD [OF inv] by auto
  have "p + i < brk s" using chain_bounds [OF c(1) m(1)] c(2) m(2,3) i by simp
  moreover have "p + i < a' \<or> a' + 24 \<le> p + i" if "(a', n', fr') \<in> set bs" for a' n' fr'
    using chain_disjoint [OF c(1) m(1) that] m(2,3) i by (cases "(p - 24, m, False) = (a', n', fr')") auto
  ultimately show ?thesis using k unfolding keeps_payload_def by blast
qed

text \<open>The contract of the allocator towards a client, one law per step of the client.\<close>

definition client_inv :: "heap_state \<Rightarrow> (nat \<times> nat) list \<Rightarrow> bool" where
  "client_inv s L \<longleftrightarrow> (\<exists>bs. heap_inv s bs \<and> live_ok L bs \<and> printed s = [])"

definition same_live :: "(nat \<times> nat) list \<Rightarrow> heap_state \<Rightarrow> heap_state \<Rightarrow> bool" where
  "same_live L s s' \<longleftrightarrow> (\<forall>p n i. (p, n) \<in> set L \<and> i < n \<longrightarrow> mem s' (p + i) = mem s (p + i))"

lemma client_alloc:
  assumes "client_inv s L" and k: "kernel_limits grant" and sz: "unat sz < 2 ^ 63 - 24"
  shows "\<exists>p s'. my_malloc grant sz s = Inr (p, s') \<and> client_inv s' (if p = 0 then L else (p, unat sz) # L)
    \<and> same_live L s s' \<and> \<not> global_malloc_lock s'"
proof -
  obtain bs where inv: "heap_inv s bs" and live: "live_ok L bs" and pr: "printed s = []"
    using assms(1) by (auto simp: client_inv_def)
  show ?thesis
  proof (cases "sz = 0")
    case True
    then have "my_malloc grant sz s = Inr (0, s)" by (simp add: my_malloc_def)
    then show ?thesis using assms(1) inv by (auto simp: same_live_def heap_inv_def)
  next
    case False
    obtain p s' bs' where m: "my_malloc grant sz s = Inr (p, s')"
      "malloc_spec grant sz (brk s) bs = (p, brk s', bs')" "heap_inv s' bs'" "keeps_payload bs s s'"
      using malloc_refines [OF inv False sz k] by blast
    have "printed s' = []" "\<not> global_malloc_lock s'"
      using m(3,4) pr by (simp_all add: keeps_payload_def heap_inv_def)
    moreover have "same_live L s s'" using live_region_kept [OF inv live _ _ m(4)] unfolding same_live_def by blast
    ultimately show ?thesis
      using m(1,3) live_ok_alloc [OF inv live m(2)] unfolding client_inv_def by blast
  qed
qed

lemma client_release:
  assumes "client_inv s L" and l: "(p, n) \<in> set L"
  shows "\<exists>s'. my_free p s = Inr s' \<and> client_inv s' (remove1 (p, n) L) \<and> same_live L s s' \<and> printed s' = []"
proof -
  obtain bs where inv: "heap_inv s bs" and live: "live_ok L bs" and pr: "printed s = []"
    using assms(1) by (auto simp: client_inv_def)
  obtain m where m: "(p - 24, m, False) \<in> set bs" "24 \<le> p" using live_okD [OF live l] by blast
  then obtain as cs where bs: "bs = as @ (p - 24, m, False) # cs" by (meson split_list)
  then obtain s' where s': "my_free p s = Inr s'" "heap_inv s' (as @ (p - 24, m, True) # cs)" "keeps_payload bs s s'"
    using free_refines [of s as "p - 24" m False cs] inv m(2) by auto
  have "live_ok (remove1 (p, n) L) (as @ (p - 24, m, True) # cs)"
    using live_ok_release heap_inv_chainD [OF inv] live l unfolding bs by blast
  moreover have "printed s' = []" using s'(3) pr by (simp add: keeps_payload_def)
  moreover have "same_live L s s'" using live_region_kept [OF inv live _ _ s'(3)] unfolding same_live_def by blast
  ultimately show ?thesis using s'(1,2) unfolding client_inv_def by blast
qed

lemma client_write:
  assumes "client_inv s L" and l: "(p, n) \<in> set L" and i: "i < n"
  shows "client_inv (s\<lparr>mem := (mem s)(p + i := v)\<rparr>) L"
proof -
  obtain bs where inv: "heap_inv s bs" and live: "live_ok L bs" and pr: "printed s = []"
    using assms(1) by (auto simp: client_inv_def)
  obtain m where "(p - 24, m, False) \<in> set bs" "24 \<le> p" "n \<le> m" using live_okD [OF live l] by blast
  then have "heap_inv (s\<lparr>mem := (mem s)(p + i := v)\<rparr>) bs"
    using payload_write_keeps [OF inv, of "p - 24" m False "p + i" v] i by auto
  then show ?thesis using live pr by (auto simp: client_inv_def)
qed

lemma client_other_sbrk:
  assumes "client_inv s L" and b: "brk s \<le> b" "b < 2 ^ 63"
  shows "client_inv (s\<lparr>brk := b\<rparr>) L"
proof -
  obtain bs where inv: "heap_inv s bs" and live: "live_ok L bs" and pr: "printed s = []"
    using assms(1) by (auto simp: client_inv_def)
  have "chain (s\<lparr>brk := b\<rparr>) (heap_start s) bs 0"
    using heap_inv_chainD [OF inv] b(1) by (intro chain_cong [of bs "s\<lparr>brk := b\<rparr>" s]) simp_all
  then have "heap_inv (s\<lparr>brk := b\<rparr>) bs" using inv b by (simp add: heap_inv_def)
  then show ?thesis using live pr by (auto simp: client_inv_def)
qed

lemma client_regions:
  assumes "client_inv s L" and l: "(p, n) \<in> set L"
  shows "heap_start s + 24 \<le> p \<and> p + n \<le> brk s"
    and "(q, k) \<in> set L \<Longrightarrow> (p, n) = (q, k) \<or> p + n + 24 \<le> q \<or> q + k + 24 \<le> p"
proof -
  obtain bs where inv: "heap_inv s bs" and live: "live_ok L bs"
    using assms(1) by (auto simp: client_inv_def)
  have c: "chain s (heap_start s) bs 0" "chain_end (heap_start s) bs \<le> brk s"
    using heap_inv_chainD [OF inv] by auto
  obtain m where m: "(p - 24, m, False) \<in> set bs" "24 \<le> p" "n \<le> m" using live_okD [OF live l] by blast
  show "heap_start s + 24 \<le> p \<and> p + n \<le> brk s" using chain_bounds [OF c(1) m(1)] c(2) m by auto
  assume l': "(q, k) \<in> set L"
  then obtain m' where m': "(q - 24, m', False) \<in> set bs" "24 \<le> q" "k \<le> m'" using live_okD [OF live] by blast
  show "(p, n) = (q, k) \<or> p + n + 24 \<le> q \<or> q + k + 24 \<le> p"
  proof (cases "p = q")
    case True
    then show ?thesis using l l' live eq_key_imp_eq_value by (fastforce simp: live_ok_def)
  next
    case False
    then have "(p - 24, m, False) \<noteq> (q - 24, m', False)" using m(2) m'(2) by auto
    then show ?thesis using chain_disjoint [OF c(1) m(1) m'(1)] m m' by auto
  qed
qed

lemma client_reach_inv:
  assumes "client_reach grant s L" and k: "kernel_limits grant"
  shows "client_inv s L"
  using assms(1)
proof induction
  case (start b m)
  have "heap_inv (initial_heap m b) [] \<and> live_ok [] []"
    using start by (simp add: heap_inv_def initial_heap_def live_ok_def)
  then show ?case by (auto simp: client_inv_def initial_heap_def)
next
  case (alloc s L sz p s')
  then show ?case using client_alloc [OF _ k, of s L sz] by auto
next
  case (release s L p n s')
  then show ?case using client_release [of s L p n] by auto
qed (blast intro: client_write client_other_sbrk)+

text \<open>A request whose size plus header does not fit in a signed 64-bit number.\<close>

lemma oversized_increment:
  assumes "2 ^ 63 - 24 \<le> unat sz"
  shows "sint (sz + of_nat META_SIZE :: size_t) < 24"
proof -
  have "(sz + of_nat META_SIZE :: size_t) = of_int (int (unat sz) + 24)" by simp
  then have "sint (sz + of_nat META_SIZE :: size_t) = signed_take_bit 63 (int (unat sz) + 24)"
    by (simp only: signed_of_int) simp
  moreover have "signed_take_bit 63 (int u + 24) < 24" if "2 ^ 63 - 24 \<le> u" "u < 2 ^ 64" for u :: nat
    using that signed_take_bit_int_less_eq [of 63 "int u + 24"] by simp
  moreover have "unat sz < 2 ^ 64" using unsigned_less [of sz, where ?'a = nat] by simp
  ultimately show ?thesis using assms by (simp only:)
qed

text \<open>A store that reaches beyond the break \<open>b\<close>, not below the start \<open>h\<close> of the segment.\<close>

definition store_beyond :: "nat \<Rightarrow> nat \<Rightarrow> heap_fault + 'a \<Rightarrow> bool" where
  "store_beyond h b r \<longleftrightarrow> (\<exists>a w. r = Inl (StoreOutside a w) \<and> h \<le> a \<and> b < a + w)"

lemma meta_set_segment:
  "meta_set f v a t = Inr t' \<Longrightarrow> brk t' = brk t \<and> heap_start t' = heap_start t"
  by (auto simp: meta_set_def split: option.splits if_splits)

lemma store_beyond_step:
  assumes "f \<in> {''size'', ''next'', ''free'', ''magic''}" and "heap_start t \<le> a"
    and "\<And>t'. brk t' = brk t \<Longrightarrow> heap_start t' = heap_start t \<Longrightarrow> store_beyond (heap_start t) (brk t) (k t')"
  shows "store_beyond (heap_start t) (brk t) (and_then (meta_set f v a t) k)"
proof (cases "meta_set f v a t")
  case (Inl e)
  then show ?thesis
    using assms(1,2) by (auto simp: store_beyond_def meta_set_def block_meta_layout in_segment_def split: if_splits)
next
  case (Inr t')
  then show ?thesis using assms(3) [of t'] meta_set_segment by simp
qed

text \<open>Four stores to a header of which the last one lies beyond the break.\<close>

lemma header_stores_beyond:
  assumes "heap_start t \<le> a" and "brk t < a + 24"
  shows "store_beyond (heap_start t) (brk t) (and_then (meta_set ''size'' v a t) (\<lambda>s. and_then (meta_set ''next'' 0 a s) (\<lambda>s.
     and_then (meta_set ''free'' 0 a s) (\<lambda>s. and_then (meta_set ''magic'' MAGIC_NUM a s) k))))"
proof -
  have magic: "store_beyond (heap_start t) (brk t) (and_then (meta_set ''magic'' MAGIC_NUM a r) k)"
    if "brk r = brk t" "heap_start r = heap_start t" for r
    using that assms by (simp add: store_beyond_def meta_set_def block_meta_layout in_segment_def)
  have step: "store_beyond (heap_start t) (brk t) (and_then (meta_set f v a r) k')"
    if "brk r = brk t" "heap_start r = heap_start t" "f \<in> {''size'', ''next'', ''free'', ''magic''}"
      "\<And>t'. brk t' = brk t \<Longrightarrow> heap_start t' = heap_start t \<Longrightarrow> store_beyond (heap_start t) (brk t) (k' t')"
    for f v r and k' :: "heap_state \<Rightarrow> heap_fault + 'a"
    using store_beyond_step [OF that(3), of r a k' v] that assms(1) by simp
  show ?thesis
    by (rule step, simp, simp, simp, rule step, assumption, assumption, simp,
        rule step, assumption, assumption, simp, rule magic)
qed

lemma request_space_oversized:
  assumes "2 ^ 63 - 24 \<le> unat sz" and "grant (brk s) (sint (sz + of_nat META_SIZE))"
    and "heap_start s \<le> brk s" and "lst \<noteq> 0 \<Longrightarrow> heap_start s \<le> lst"
  shows "store_beyond (heap_start s) (nat (int (brk s) + sint (sz + of_nat META_SIZE))) (request_space grant lst sz s)"
proof -
  let ?b = "nat (int (brk s) + sint (sz + of_nat META_SIZE))" and ?t = "s\<lparr>brk := nat (int (brk s) + sint (sz + of_nat META_SIZE))\<rparr>"
  let ?k = "\<lambda>r. and_then (meta_set ''size'' (unat sz) (brk s) r) (\<lambda>r. and_then (meta_set ''next'' 0 (brk s) r) (\<lambda>r.
      and_then (meta_set ''free'' 0 (brk s) r) (\<lambda>r. and_then (meta_set ''magic'' MAGIC_NUM (brk s) r) (\<lambda>r.
      Inr (brk s, r)))))"
  have "?b < brk s + 24" using oversized_increment [OF assms(1)] by linarith
  then have h: "store_beyond (heap_start s) ?b (?k r)"
    if "brk r = ?b" "heap_start r = heap_start s" for r
    using header_stores_beyond [of r "brk s" "unat sz" "\<lambda>s'. Inr (brk s, s')"] that assms(3) by (simp del: META_SIZE)
  show ?thesis
  proof (cases "lst = 0")
    case True
    then show ?thesis using assms(2) h [of ?t] by (simp add: request_space_def Let_def del: META_SIZE)
  next
    case False
    then show ?thesis
      using assms(2) store_beyond_step [of "''next''" ?t lst ?k "brk s"] assms(4) h
      by (simp add: request_space_def Let_def del: META_SIZE)
  qed
qed

text \<open>A small address space, for examples.\<close>

definition sample_grant :: "nat \<Rightarrow> int \<Rightarrow> bool" where
  "sample_grant b n \<longleftrightarrow> 0 \<le> int b + n \<and> int b + n < 4096"

definition sample_heap :: heap_state where
  "sample_heap = initial_heap (\<lambda>_. 0) 1024"

lemma sample_grant_limits: "kernel_limits sample_grant"
  by (auto simp: kernel_limits_def sample_grant_def)

lemma sample_heap_inv: "heap_inv sample_heap []"
  by (simp add: heap_inv_def sample_heap_def initial_heap_def)

lemma sample_malloc:
  "\<exists>s'. my_malloc sample_grant 8 sample_heap = Inr (1048, s') \<and> client_reach sample_grant s' [(1048, 8)]"
proof -
  have g: "sample_grant (brk sample_heap) (int (unat (8 :: size_t)) + 24)"
    by (simp add: sample_grant_def sample_heap_def initial_heap_def)
  obtain s' where s': "my_malloc sample_grant 8 sample_heap = Inr (1048, s')"
    using malloc_grow [OF sample_heap_inv, of 8 sample_grant, OF _ _ _ g sample_grant_limits]
    by (auto simp: sample_heap_def initial_heap_def)
  have "client_reach sample_grant sample_heap []" unfolding sample_heap_def by (rule client_reach.start) simp_all
  from client_reach.alloc [OF this _ s'] s' show ?thesis by simp
qed

section \<open>Properties\<close>

text \<open>C7. In every state a process can reach, whatever it allocated, released and wrote inside its
  allocations, and whatever the kernel granted: the memory regions it holds lie inside the heap
  segment and are pairwise disjoint; every further allocation returns (with memory or NULL) instead
  of faulting, hanging or blocking; and every pointer it holds can be released without a corruption
  report.\<close>

theorem allocator_safety:
  assumes "client_reach grant s L" and "kernel_limits grant" and "unat sz < 2 ^ 63 - 24"
  shows "(\<forall>(p, n) \<in> set L. heap_start s + 24 \<le> p \<and> p + n \<le> brk s
            \<and> (\<forall>(q, k) \<in> set L. (p, n) = (q, k) \<or> p + n + 24 \<le> q \<or> q + k + 24 \<le> p)
            \<and> (\<exists>s'. my_free p s = Inr s' \<and> printed s' = []))
    \<and> (\<exists>p s'. my_malloc grant sz s = Inr (p, s') \<and> \<not> global_malloc_lock s')"
proof -
  have inv: "client_inv s L" by (rule client_reach_inv [OF assms(1,2)])
  have "\<exists>p s'. my_malloc grant sz s = Inr (p, s') \<and> \<not> global_malloc_lock s'"
    using client_alloc [OF inv assms(2,3)] by blast
  then show ?thesis
    using client_regions [OF inv] client_release [OF inv] by fast
qed

theorem allocator_safety_witness:
  "\<exists>s'. my_malloc sample_grant 8 sample_heap = Inr (1048, s')
     \<and> (\<exists>s''. my_free 1048 s' = Inr s'' \<and> printed s'' = []) \<and> (\<exists>p s''. my_malloc sample_grant 16 s' = Inr (p, s''))"
proof -
  obtain s' where s': "my_malloc sample_grant 8 sample_heap = Inr (1048, s')" "client_reach sample_grant s' [(1048, 8)]"
    using sample_malloc by blast
  have "unat (16 :: size_t) < 2 ^ 63 - 24" by simp
  from allocator_safety [OF s'(2) sample_grant_limits this] s'(1) show ?thesis by auto
qed

text \<open>C8. Allocating and releasing never change a byte of the memory a process holds.\<close>

theorem allocator_keeps_contents:
  assumes "client_reach grant s L" and "kernel_limits grant" and "(p, n) \<in> set L" and "i < n"
    and "(\<exists>sz q. unat sz < 2 ^ 63 - 24 \<and> my_malloc grant sz s = Inr (q, s'))
       \<or> (\<exists>(q, k) \<in> set L. my_free q s = Inr s')"
  shows "mem s' (p + i) = mem s (p + i)"
proof -
  have inv: "client_inv s L" by (rule client_reach_inv [OF assms(1,2)])
  have "same_live L s s'"
    using assms(5) client_alloc [OF inv assms(2)] client_release [OF inv] by fastforce
  then show ?thesis using assms(3,4) by (simp add: same_live_def)
qed

theorem allocator_keeps_contents_witness:
  "\<exists>s' s''. my_malloc sample_grant 8 sample_heap = Inr (1048, s')
     \<and> my_free 1048 (s'\<lparr>mem := (mem s')(1050 := 7)\<rparr>) = Inr s'' \<and> mem s'' 1050 = 7"
proof -
  obtain s' where s': "my_malloc sample_grant 8 sample_heap = Inr (1048, s')" "client_reach sample_grant s' [(1048, 8)]"
    using sample_malloc by blast
  let ?t = "s'\<lparr>mem := (mem s')(1048 + 2 := 7)\<rparr>"
  have r: "client_reach sample_grant ?t [(1048, 8)]"
    by (rule client_reach.write_byte [OF s'(2), of 1048 8 2]) simp_all
  obtain s'' where f: "my_free 1048 ?t = Inr s''"
    using client_release [OF client_reach_inv [OF r sample_grant_limits], of 1048 8] by auto
  then have "mem s'' (1048 + 2) = mem ?t (1048 + 2)"
    by (intro allocator_keeps_contents [OF r sample_grant_limits, of 1048 8]) auto
  then show ?thesis using s'(1) f by auto
qed

text \<open>C9. The allocator refines a first-fit list of blocks: an allocation takes the first free
  block that is large enough, whole, or else appends a block of exactly the requested size at the
  break if the kernel grants it, or else returns NULL and changes nothing; a release marks the block
  free for reuse.\<close>

theorem allocator_refines_first_fit:
  assumes "heap_inv s bs" and "sz \<noteq> 0" and "unat sz < 2 ^ 63 - 24" and "kernel_limits grant"
  shows "(\<exists>p s' bs'. my_malloc grant sz s = Inr (p, s') \<and> malloc_spec grant sz (brk s) bs = (p, brk s', bs')
      \<and> heap_inv s' bs' \<and> (p = 0 \<longrightarrow> s' = s))
    \<and> (\<forall>as a n fr cs. bs = as @ (a, n, fr) # cs \<longrightarrow>
         (\<exists>s'. my_free (a + 24) s = Inr s' \<and> brk s' = brk s \<and> heap_inv s' (as @ (a, n, True) # cs)))"
proof
  obtain p s' bs' where r: "my_malloc grant sz s = Inr (p, s')" "malloc_spec grant sz (brk s) bs = (p, brk s', bs')"
    "heap_inv s' bs'"
    using malloc_refines [OF assms] by blast
  moreover have "s' = s" if "p = 0"
  proof -
    have "dropWhile (\<lambda>b. \<not> fits sz b) bs = []" "\<not> grant (brk s) (int (unat sz) + 24)"
      using r(2) that unfolding malloc_spec_def by (auto split: list.splits if_splits)
    then show ?thesis using malloc_refused [of s bs sz grant, OF assms(1-3)] r(1) that by simp
  qed
  ultimately show "\<exists>p s' bs'. my_malloc grant sz s = Inr (p, s') \<and> malloc_spec grant sz (brk s) bs = (p, brk s', bs')
      \<and> heap_inv s' bs' \<and> (p = 0 \<longrightarrow> s' = s)" by blast
  show "\<forall>as a n fr cs. bs = as @ (a, n, fr) # cs \<longrightarrow>
         (\<exists>s'. my_free (a + 24) s = Inr s' \<and> brk s' = brk s \<and> heap_inv s' (as @ (a, n, True) # cs))"
    using free_refines assms(1) by blast
qed

theorem allocator_refines_first_fit_witness:
  "\<exists>s'. my_malloc sample_grant 8 sample_heap = Inr (1048, s') \<and> heap_inv s' [(1024, 8, False)]"
proof -
  have "malloc_spec sample_grant 8 (brk sample_heap) [] = (1048, 1056, [(1024, 8, False)])"
    by (simp add: malloc_spec_def sample_grant_def sample_heap_def initial_heap_def)
  then show ?thesis
    using allocator_refines_first_fit [OF sample_heap_inv, of 8 sample_grant, OF _ _ sample_grant_limits] by auto
qed

text \<open>C34. The sum \<^verbatim>\<open>size + META_SIZE\<close> is not checked. For a size within 24 bytes of 2^63 or
  above, for which no free block is large enough, the increment is negative or wraps to less than a
  header; when the kernel grants it, \<^verbatim>\<open>my_malloc\<close> does not return NULL: a store to a header
  reaches beyond the new break.\<close>

theorem malloc_size_overflow:
  assumes "heap_inv s bs" and "2 ^ 63 - 24 \<le> unat sz" and "\<forall>b \<in> set bs. \<not> fits sz b"
    and "grant (brk s) (sint (sz + of_nat META_SIZE))"
  shows "\<exists>a w. my_malloc grant sz s = Inl (StoreOutside a w) \<and> heap_start s \<le> a
    \<and> nat (int (brk s) + sint (sz + of_nat META_SIZE)) < a + w"
proof -
  let ?t = "s\<lparr>global_malloc_lock := True\<rparr>" and ?b = "nat (int (brk s) + sint (sz + of_nat META_SIZE))"
  note i = heap_inv_chainD [OF assms(1)]
  have c: "chain ?t (heap_start s) bs 0" using i by (simp add: chain_lock_irrelevant)
  have req: "store_beyond (heap_start s) ?b (request_space grant l sz ?t)" if "l \<noteq> 0 \<Longrightarrow> heap_start s \<le> l" for l
    using request_space_oversized [OF assms(2), of grant ?t l] assms(4) i that by (simp del: META_SIZE)
  have find: "find_free_block (global_base s) sz ?t = Inr (last_block (global_base s) bs, 0)"
    using find_loop_first_fit [OF c, of sz "global_base s"] i assms(3)
    by (simp add: find_free_block_def dropWhile_eq_Nil_conv [THEN iffD2] takeWhile_eq_all_conv [THEN iffD2])
  have "heap_start s \<le> last_block (global_base s) bs" if "bs \<noteq> []"
    using chain_bounds [OF c, of "fst (last bs)"] last_block_last [OF that] last_in_set [OF that] by (cases "last bs") auto
  moreover have "global_base s = 0 \<longleftrightarrow> bs = []" using i first_block_pos by metis
  moreover have "sz \<noteq> 0" using assms(2) by auto
  ultimately have "store_beyond (heap_start s) ?b (my_malloc grant sz s)"
    using i find req [of 0] req [of "last_block (global_base s) bs"]
    by (cases "bs = []") (auto simp: my_malloc_def mutex_lock_def store_beyond_def simp del: META_SIZE)
  then show ?thesis by (simp add: store_beyond_def)
qed

theorem malloc_size_overflow_witness:
  "\<exists>a w. my_malloc sample_grant (- 8) sample_heap = Inl (StoreOutside a w) \<and> 1040 < a + w"
proof -
  have "unat (- 8 :: size_t) = 2 ^ 64 - 8" by simp
  moreover have "sample_grant (brk sample_heap) (sint (- 8 + of_nat META_SIZE :: size_t))"
    by (simp add: sample_grant_def sample_heap_def initial_heap_def)
  moreover have "nat (int (brk sample_heap) + sint (- 8 + of_nat META_SIZE :: size_t)) = 1040"
    by (simp add: sample_heap_def initial_heap_def)
  ultimately show ?thesis
    using malloc_size_overflow [OF sample_heap_inv, of "- 8" sample_grant] by auto
qed

end
