(* ===== verification/Order_Book.thy ===== *)
theory Order_Book
  imports Prelude "HOL-Library.Monad_Syntax"
begin

text \<open>
  \<^verbatim>\<open>src/02-High-Frequency-Trading-Engine/cache-line-optimized-limit-order-book.c\<close>: the intrusive
  doubly linked queue of orders at a price level and the pool the order nodes come from. The
  nodes live in a store, a map from addresses to nodes, because the operations mutate nodes through
  pointers that several structures share; a null pointer is \<open>None\<close>. An operation that follows a
  pointer to no node returns \<open>None\<close>. Order quantities and volumes are 32-bit words.
\<close>

type_synonym addr = u64
type_synonym ptr = "addr option"

record OrderNode =
  order_id :: u64
  quantity :: u32
  next_node :: ptr
  prev_node :: ptr

type_synonym store = "addr \<rightharpoonup> OrderNode"

record PriceLevel =
  price :: u32
  total_volume :: u32
  head :: ptr
  tail :: ptr
  next_level :: ptr
  prev_level :: ptr

record OrderPool =
  pool :: addr
  pool_capacity :: size_t
  next_free_index :: size_t

section \<open>Operations\<close>

text \<open>The members of \<^verbatim>\<open>OrderNode\<close> and its size, rounded up to the alignment of a cache line.\<close>

definition CACHE_LINE :: nat where
  "CACHE_LINE = 64"

definition order_node_fields :: "c_field list" where
  "order_node_fields = [(''order_id'', 8, 8), (''quantity'', 4, 4), (''next'', 8, 8), (''prev'', 8, 8)]"

definition sizeof_OrderNode :: nat where
  "sizeof_OrderNode = align_up (struct_size order_node_fields) CACHE_LINE"

text \<open>
  \<^verbatim>\<open>init_order_pool\<close>. \<open>malloc_ok\<close> says whether \<^verbatim>\<open>malloc\<close> returned storage for the pool
  record, \<open>posix_memalign\<close> answers the base for an alignment and a byte count; its status is not
  tested, on failure \<open>None\<close> the base is whatever the storage held, \<open>junk\<close>.
\<close>

definition init_order_pool ::
  "bool \<Rightarrow> (size_t \<Rightarrow> size_t \<Rightarrow> ptr) \<Rightarrow> addr \<Rightarrow> size_t \<Rightarrow> OrderPool option" where
  "init_order_pool malloc_ok posix_memalign junk cap =
     (if malloc_ok
      then Some \<lparr>pool = (case posix_memalign (of_nat CACHE_LINE) (cap * of_nat sizeof_OrderNode) of
                            Some base \<Rightarrow> base | None \<Rightarrow> junk),
                 pool_capacity = cap, next_free_index = 0\<rparr>
      else None)"

text \<open>Addresses are 64 bits wide and wrap; the pointer with the address 0 is the null pointer.\<close>

definition ptr_of :: "addr \<Rightarrow> ptr" where
  "ptr_of a = (if a = 0 then None else Some a)"

definition allocate_order_from_pool :: "OrderPool \<Rightarrow> ptr \<times> OrderPool" where
  "allocate_order_from_pool p =
     (if pool_capacity p \<le> next_free_index p then (None, p)
      else (ptr_of (pool p + of_nat sizeof_OrderNode * next_free_index p),
            p\<lparr>next_free_index := next_free_index p + 1\<rparr>))"

text \<open>An assignment to members of the node at an address.\<close>

definition node_write :: "addr \<Rightarrow> (OrderNode \<Rightarrow> OrderNode) \<Rightarrow> store \<Rightarrow> store option" where
  "node_write a f h = (case h a of None \<Rightarrow> None | Some n \<Rightarrow> Some (h(a \<mapsto> f n)))"

definition insert_order_at_level :: "addr \<Rightarrow> PriceLevel \<times> store \<Rightarrow> (PriceLevel \<times> store) option" where
  "insert_order_at_level new_order = (\<lambda>(level, h). do {
     h \<leftarrow> node_write new_order (\<lambda>n. n\<lparr>next_node := None\<rparr>) h;
     h \<leftarrow> node_write new_order (\<lambda>n. n\<lparr>prev_node := tail level\<rparr>) h;
     (level, h) \<leftarrow> (case tail level of
         Some t \<Rightarrow> do { h \<leftarrow> node_write t (\<lambda>n. n\<lparr>next_node := Some new_order\<rparr>) h; Some (level, h) }
       | None \<Rightarrow> Some (level\<lparr>head := Some new_order\<rparr>, h));
     n \<leftarrow> h new_order;
     Some (level\<lparr>tail := Some new_order, total_volume := total_volume level + quantity n\<rparr>, h)
   })"

definition cancel_order :: "addr \<Rightarrow> PriceLevel \<times> store \<Rightarrow> (PriceLevel \<times> store) option" where
  "cancel_order target = (\<lambda>(level, h). do {
     n \<leftarrow> h target;
     (level, h) \<leftarrow> (case prev_node n of
         Some p \<Rightarrow> do { h \<leftarrow> node_write p (\<lambda>m. m\<lparr>next_node := next_node n\<rparr>) h; Some (level, h) }
       | None \<Rightarrow> Some (level\<lparr>head := next_node n\<rparr>, h));
     n \<leftarrow> h target;
     (level, h) \<leftarrow> (case next_node n of
         Some s \<Rightarrow> do { h \<leftarrow> node_write s (\<lambda>m. m\<lparr>prev_node := prev_node n\<rparr>) h; Some (level, h) }
       | None \<Rightarrow> Some (level\<lparr>tail := prev_node n\<rparr>, h));
     n \<leftarrow> h target;
     Some (level\<lparr>total_volume := total_volume level - quantity n\<rparr>, h)
   })"

section \<open>The queue a level represents\<close>

text \<open>\<open>dlist h p xs nx\<close>: the nodes at \<open>xs\<close> are linked in both directions, between the
  predecessor \<open>p\<close> and the successor \<open>nx\<close>.\<close>

definition first_ptr :: "addr list \<Rightarrow> ptr \<Rightarrow> ptr" where
  "first_ptr xs nx = (case xs of [] \<Rightarrow> nx | x # _ \<Rightarrow> Some x)"

definition last_ptr :: "ptr \<Rightarrow> addr list \<Rightarrow> ptr" where
  "last_ptr p xs = (if xs = [] then p else Some (last xs))"

fun dlist :: "store \<Rightarrow> ptr \<Rightarrow> addr list \<Rightarrow> ptr \<Rightarrow> bool" where
  "dlist h p [] nx = True"
| "dlist h p (x # xs) nx =
     (case h x of
        None \<Rightarrow> False
      | Some n \<Rightarrow> prev_node n = p \<and> next_node n = first_ptr xs nx \<and> dlist h (Some x) xs nx)"

definition node_quantity :: "store \<Rightarrow> addr \<Rightarrow> u32" where
  "node_quantity h a = (case h a of None \<Rightarrow> 0 | Some n \<Rightarrow> quantity n)"

definition level_queue :: "addr list \<Rightarrow> PriceLevel \<times> store \<Rightarrow> bool" where
  "level_queue xs = (\<lambda>(level, h). distinct xs \<and> dlist h None xs None
     \<and> head level = first_ptr xs None \<and> tail level = last_ptr None xs
     \<and> total_volume level = sum_list (map (node_quantity h) xs))"

text \<open>What an operation leaves alone: the order data of every node.\<close>

definition order_data :: "store \<Rightarrow> addr \<Rightarrow> (u64 \<times> u32) option" where
  "order_data h a = map_option (\<lambda>n. (order_id n, quantity n)) (h a)"

lemma sizeof_OrderNode [simp]: "sizeof_OrderNode = 64"
  by code_simp

lemma first_ptr_simps [simp]:
  "first_ptr [] nx = nx" "first_ptr (x # xs) nx = Some x"
  by (simp_all add: first_ptr_def)

lemma first_ptr_append [simp]: "first_ptr (xs @ ys) nx = first_ptr xs (first_ptr ys nx)"
  by (cases xs) simp_all

lemma last_ptr_simps [simp]:
  "last_ptr p [] = p" "last_ptr p (x # xs) = last_ptr (Some x) xs"
  by (simp_all add: last_ptr_def)

lemma last_ptr_append [simp]: "last_ptr p (xs @ ys) = last_ptr (last_ptr p xs) ys"
  by (induction xs arbitrary: p) simp_all

lemma dlist_append:
  "dlist h p (xs @ ys) nx \<longleftrightarrow> dlist h p xs (first_ptr ys nx) \<and> dlist h (last_ptr p xs) ys nx"
  by (induction xs arbitrary: p) (auto split: option.splits)

lemma dlist_frame:
  "(\<And>a. a \<in> set xs \<Longrightarrow> h' a = h a) \<Longrightarrow> dlist h' p xs nx = dlist h p xs nx"
  by (induction xs arbitrary: p) (auto split: option.splits)

lemma dlist_upd_other [simp]: "a \<notin> set xs \<Longrightarrow> dlist (h(a := v)) p xs nx = dlist h p xs nx"
  by (rule dlist_frame) auto

text \<open>Changing the successor of the last node, and the predecessor of the first.\<close>

lemma dlist_relink_last:
  "distinct (xs @ [t]) \<Longrightarrow> h t = Some n \<Longrightarrow> dlist h p (xs @ [t]) nx \<Longrightarrow>
   dlist (h(t \<mapsto> n\<lparr>next_node := nx'\<rparr>)) p (xs @ [t]) nx'"
  by (simp add: dlist_append)

lemma dlist_relink_first:
  "distinct (s # ys) \<Longrightarrow> h s = Some n \<Longrightarrow> dlist h p (s # ys) nx \<Longrightarrow>
   dlist (h(s \<mapsto> n\<lparr>prev_node := p'\<rparr>)) p' (s # ys) nx"
  by simp

lemma dlist_defined: "dlist h p xs nx \<Longrightarrow> a \<in> set xs \<Longrightarrow> h a \<noteq> None"
  by (induction xs arbitrary: p) (auto split: option.splits)

lemma node_quantity_order_data:
  "node_quantity h a = (case order_data h a of None \<Rightarrow> 0 | Some (_, q) \<Rightarrow> q)"
  by (auto simp: node_quantity_def order_data_def split: option.splits)

lemma sum_quantity_cong:
  "order_data h' = order_data h \<Longrightarrow> sum_list (map (node_quantity h') xs) = sum_list (map (node_quantity h) xs)"
  by (simp add: node_quantity_order_data cong: map_cong)

lemma order_data_upd:
  "h a = Some n \<Longrightarrow> order_id n' = order_id n \<Longrightarrow> quantity n' = quantity n \<Longrightarrow>
   order_data (h(a \<mapsto> n')) = order_data h"
  by (auto simp: order_data_def)

section \<open>Each operation on the represented queue\<close>

text \<open>The part of the state an operation on the nodes of \<open>A\<close> keeps.\<close>

definition keeps :: "addr set \<Rightarrow> PriceLevel \<times> store \<Rightarrow> PriceLevel \<times> store \<Rightarrow> bool" where
  "keeps A s s' \<longleftrightarrow> order_data (snd s') = order_data (snd s) \<and> (\<forall>a. a \<notin> A \<longrightarrow> snd s' a = snd s a)
     \<and> price (fst s') = price (fst s) \<and> next_level (fst s') = next_level (fst s)
     \<and> prev_level (fst s') = prev_level (fst s)"

lemma keeps_refl [simp]: "keeps A s s"
  by (simp add: keeps_def)

lemma keeps_trans: "keeps A s s' \<Longrightarrow> keeps B s' s'' \<Longrightarrow> A \<union> B \<subseteq> C \<Longrightarrow> keeps C s s''"
  unfolding keeps_def by (metis UnCI subsetD)

lemma insert_queue:
  assumes q: "level_queue xs (l, h)" and n: "h a = Some n" and a: "a \<notin> set xs"
  shows "\<exists>s'. insert_order_at_level a (l, h) = Some s' \<and> level_queue (xs @ [a]) s' \<and> keeps (insert a (set xs)) (l, h) s'"
proof (cases xs rule: rev_cases)
  case Nil
  then show ?thesis
    using q n by (auto simp: insert_order_at_level_def node_write_def level_queue_def keeps_def
        order_data_def node_quantity_def)
next
  case (snoc ys t)
  let ?h = "h(a \<mapsto> n\<lparr>next_node := None, prev_node := Some t\<rparr>)"
  from q snoc have d: "dlist h None (ys @ [t]) None" and dist: "distinct (ys @ [t])"
    and t: "tail l = Some t" by (auto simp: level_queue_def)
  from d obtain m where m: "h t = Some m" by (auto simp: dlist_append split: option.splits)
  have at: "a \<noteq> t" "a \<notin> set ys" using a snoc by auto
  let ?g = "?h(t \<mapsto> m\<lparr>next_node := Some a\<rparr>)"
  have run: "insert_order_at_level a (l, h)
      = Some (l\<lparr>tail := Some a, total_volume := total_volume l + quantity n\<rparr>, ?g)"
    using n t m at by (simp add: insert_order_at_level_def node_write_def)
  have "dlist ?g None (ys @ [t]) (Some a)"
    using dlist_relink_last [OF dist, of ?h m None None "Some a"] d m at by simp
  then have "dlist ?g None (xs @ [a]) None"
    using snoc at by (simp add: dlist_append)
  moreover have od: "order_data ?g = order_data h"
    using n m at by (auto simp: order_data_def)
  moreover have "node_quantity h a = quantity n" using n by (simp add: node_quantity_def)
  ultimately have "level_queue (xs @ [a]) (l\<lparr>tail := Some a, total_volume := total_volume l + quantity n\<rparr>, ?g)"
    using q a sum_quantity_cong [OF od, of "xs @ [a]"] snoc by (auto simp: level_queue_def)
  moreover have "keeps (insert a (set xs)) (l, h) (l\<lparr>tail := Some a, total_volume := total_volume l + quantity n\<rparr>, ?g)"
    using od snoc by (auto simp: keeps_def)
  ultimately show ?thesis using run by blast
qed

text \<open>The unlinking of a node between two segments: the two relinked neighbours, where they exist.\<close>

definition relink_prev :: "addr list \<Rightarrow> ptr \<Rightarrow> store \<Rightarrow> store" where
  "relink_prev as q h = (case last_ptr None as of
     None \<Rightarrow> h | Some p \<Rightarrow> h(p := map_option (next_node_update (\<lambda>_. q)) (h p)))"

definition relink_next :: "addr list \<Rightarrow> ptr \<Rightarrow> store \<Rightarrow> store" where
  "relink_next bs q h = (case first_ptr bs None of
     None \<Rightarrow> h | Some p \<Rightarrow> h(p := map_option (prev_node_update (\<lambda>_. q)) (h p)))"

lemma relink_prev_other [simp]: "a \<notin> set as \<Longrightarrow> relink_prev as q h a = h a"
  by (cases as rule: rev_cases) (auto simp: relink_prev_def)

lemma relink_next_other [simp]: "a \<notin> set bs \<Longrightarrow> relink_next bs q h a = h a"
  by (cases bs) (auto simp: relink_next_def)

lemma order_data_relink [simp]:
  "order_data (relink_prev as q h) = order_data h" "order_data (relink_next bs q h) = order_data h"
  by (auto simp: relink_prev_def relink_next_def order_data_def fun_eq_iff option.map_comp comp_def
      split: option.split)

lemma dlist_relink_prev:
  "distinct as \<Longrightarrow> dlist h p as nx \<Longrightarrow> dlist (relink_prev as nx' h) p as nx'"
  by (cases as rule: rev_cases) (auto simp: relink_prev_def dlist_append split: option.splits)

lemma dlist_relink_next:
  "distinct bs \<Longrightarrow> dlist h p bs nx \<Longrightarrow> dlist (relink_next bs p' h) p' bs nx"
  by (cases bs) (auto simp: relink_next_def split: option.splits)

lemma cancel_unlinks:
  assumes d: "dlist h None (as @ a # bs) None" and dist: "distinct (as @ a # bs)"
  shows "cancel_order a (l, h) = Some
    (l\<lparr>head := if as = [] then first_ptr bs None else head l,
       tail := if bs = [] then last_ptr None as else tail l,
       total_volume := total_volume l - node_quantity h a\<rparr>,
     relink_next bs (last_ptr None as) (relink_prev as (first_ptr bs None) h))"
proof -
  from d obtain n where n: "h a = Some n" "prev_node n = last_ptr None as" "next_node n = first_ptr bs None"
    by (auto simp: dlist_append split: option.splits)
  have nq: "node_quantity h a = quantity n" using n by (simp add: node_quantity_def)
  have first: "(case prev_node n of
         Some p \<Rightarrow> do { h \<leftarrow> node_write p (\<lambda>m. m\<lparr>next_node := next_node n\<rparr>) h; Some (l, h) }
       | None \<Rightarrow> Some (l\<lparr>head := next_node n\<rparr>, h))
     = Some (l\<lparr>head := if as = [] then first_ptr bs None else head l\<rparr>, relink_prev as (first_ptr bs None) h)"
    using d n by (cases as rule: rev_cases)
      (auto simp: node_write_def relink_prev_def dlist_append split: option.splits)
  have second: "(case next_node n of
         Some s \<Rightarrow> do { h \<leftarrow> node_write s (\<lambda>m. m\<lparr>prev_node := prev_node n\<rparr>) g; Some (k, h) }
       | None \<Rightarrow> Some (k\<lparr>tail := prev_node n\<rparr>, g))
     = Some (k\<lparr>tail := if bs = [] then last_ptr None as else tail k\<rparr>, relink_next bs (last_ptr None as) g)"
    if "\<And>b. b \<in> set bs \<Longrightarrow> g b = h b" for k g
    using d n that by (cases bs)
      (auto simp: node_write_def relink_next_def dlist_append split: option.splits)
  have "a \<notin> set as" "a \<notin> set bs" "\<And>b. b \<in> set bs \<Longrightarrow> b \<notin> set as" using dist by auto
  then show ?thesis
    unfolding cancel_order_def using n(1) first nq by (simp add: second)
qed

lemma cancel_queue:
  assumes q: "level_queue xs (l, h)" and a: "a \<in> set xs"
  shows "\<exists>s'. cancel_order a (l, h) = Some s' \<and> level_queue (remove1 a xs) s' \<and> keeps (set xs) (l, h) s'"
proof -
  from a obtain as bs where xs: "xs = as @ a # bs" and na: "a \<notin> set as" by (meson split_list_first)
  let ?g = "relink_prev as (first_ptr bs None) h"
  let ?h = "relink_next bs (last_ptr None as) ?g"
  let ?l = "l\<lparr>head := if as = [] then first_ptr bs None else head l,
       tail := if bs = [] then last_ptr None as else tail l,
       total_volume := total_volume l - node_quantity h a\<rparr>"
  have d: "dlist h None (as @ a # bs) None" and dist: "distinct (as @ a # bs)"
    using q xs by (auto simp: level_queue_def)
  have "dlist ?g None as (first_ptr bs None)"
    using d dist by (intro dlist_relink_prev) (auto simp: dlist_append)
  then have "dlist ?h None as (first_ptr bs None)"
    using dist by (subst dlist_frame [of as ?h ?g]) (auto intro!: relink_next_other)
  moreover have "dlist ?g (Some a) bs None"
    using d dist by (subst dlist_frame [of bs ?g h])
      (auto simp: dlist_append intro!: relink_prev_other split: option.splits)
  then have "dlist ?h (last_ptr None as) bs None"
    using dist by (intro dlist_relink_next) auto
  ultimately have "dlist ?h None (as @ bs) None" by (simp add: dlist_append)
  moreover have "sum_list (map (node_quantity ?h) ys) = sum_list (map (node_quantity h) ys)" for ys
    by (rule sum_quantity_cong) simp
  ultimately have "level_queue (as @ bs) (?l, ?h)"
    using q xs by (auto simp: level_queue_def first_ptr_def last_ptr_def split: list.split)
  moreover have "remove1 a xs = as @ bs" using xs na by (simp add: remove1_append)
  moreover have "keeps (set xs) (l, h) (?l, ?h)" using xs by (auto simp: keeps_def)
  ultimately show ?thesis using cancel_unlinks [OF d dist, of l] by simp
qed

section \<open>Sequences of operations\<close>

text \<open>A client calls the two operations of a level in any order; a fault ends the run.\<close>

datatype level_op = InsertOrder addr | CancelOrder addr

fun level_run :: "level_op list \<Rightarrow> PriceLevel \<times> store \<Rightarrow> (PriceLevel \<times> store) option" where
  "level_run [] s = Some s"
| "level_run (InsertOrder a # ops) s = Option.bind (insert_order_at_level a s) (level_run ops)"
| "level_run (CancelOrder a # ops) s = Option.bind (cancel_order a s) (level_run ops)"

text \<open>The queue the level stands for: arrival order, with withdrawals. A node joins only if it
  exists and is not queued, and only a queued node is cancelled.\<close>

fun queue_run :: "(addr \<Rightarrow> bool) \<Rightarrow> level_op list \<Rightarrow> addr list \<Rightarrow> addr list option" where
  "queue_run node [] xs = Some xs"
| "queue_run node (InsertOrder a # ops) xs =
     (if node a \<and> a \<notin> set xs then queue_run node ops (xs @ [a]) else None)"
| "queue_run node (CancelOrder a # ops) xs =
     (if a \<in> set xs then queue_run node ops (remove1 a xs) else None)"

fun op_node :: "level_op \<Rightarrow> addr" where
  "op_node (InsertOrder a) = a"
| "op_node (CancelOrder a) = a"

text \<open>The interface of a level: a represented queue, the set of nodes that exist, and the part of
  the state kept by operations on a set of nodes.\<close>

locale order_queue =
  fixes ins :: "addr \<Rightarrow> 's \<Rightarrow> 's option"
    and del :: "addr \<Rightarrow> 's \<Rightarrow> 's option"
    and run :: "level_op list \<Rightarrow> 's \<Rightarrow> 's option"
    and repr :: "addr list \<Rightarrow> 's \<Rightarrow> bool"
    and exists_node :: "'s \<Rightarrow> addr \<Rightarrow> bool"
    and keep :: "addr set \<Rightarrow> 's \<Rightarrow> 's \<Rightarrow> bool"
  assumes run_Nil: "run [] s = Some s"
    and run_ins: "run (InsertOrder a # ops) s = Option.bind (ins a s) (run ops)"
    and run_del: "run (CancelOrder a # ops) s = Option.bind (del a s) (run ops)"
    and ins_repr: "repr xs s \<Longrightarrow> exists_node s a \<Longrightarrow> a \<notin> set xs \<Longrightarrow>
      \<exists>s'. ins a s = Some s' \<and> repr (xs @ [a]) s' \<and> keep (insert a (set xs)) s s'"
    and del_repr: "repr xs s \<Longrightarrow> a \<in> set xs \<Longrightarrow>
      \<exists>s'. del a s = Some s' \<and> repr (remove1 a xs) s' \<and> keep (set xs) s s'"
    and keep_refl: "keep A s s"
    and keep_trans: "keep A s s' \<Longrightarrow> keep B s' s'' \<Longrightarrow> A \<union> B \<subseteq> C \<Longrightarrow> keep C s s''"
    and keep_nodes: "keep A s s' \<Longrightarrow> exists_node s' = exists_node s"
begin

lemma run_refines:
  "repr xs s \<Longrightarrow> queue_run (exists_node s) ops xs = Some ys \<Longrightarrow>
   \<exists>s'. run ops s = Some s' \<and> repr ys s' \<and> keep (set xs \<union> op_node ` set ops) s s'"
proof (induction ops arbitrary: xs s)
  case Nil
  then show ?case by (simp add: run_Nil keep_refl)
next
  case (Cons op ops)
  obtain zs s1 where step: "run (op # ops) s = run ops s1" "repr zs s1" "keep (insert (op_node op) (set xs)) s s1"
    and rest: "queue_run (exists_node s) ops zs = Some ys" and zs: "set zs \<subseteq> insert (op_node op) (set xs)"
  proof (cases op)
    case (InsertOrder a)
    with Cons.prems ins_repr [of xs s a] that show thesis
      by (auto simp: run_ins split: if_splits)
  next
    case (CancelOrder a)
    with Cons.prems have a: "a \<in> set xs" "queue_run (exists_node s) ops (remove1 a xs) = Some ys"
      by (auto split: if_splits)
    then obtain s' where "del a s = Some s'" "repr (remove1 a xs) s'" "keep (set xs) s s'"
      using del_repr Cons.prems(1) by blast
    then show thesis
      using that [of s' "remove1 a xs"] a CancelOrder by (auto simp: run_del insert_absorb set_remove1_subset)
  qed
  obtain s' where "run ops s1 = Some s'" "repr ys s'" "keep (set zs \<union> op_node ` set ops) s1 s'"
    using Cons.IH [OF step(2)] rest keep_nodes [OF step(3)] by auto
  moreover have "keep (set xs \<union> op_node ` set (op # ops)) s s'"
    by (rule keep_trans [OF step(3) \<open>keep _ s1 s'\<close>]) (use zs in auto)
  ultimately show ?case using step(1) by auto
qed

end

text \<open>The existing nodes of a store.\<close>

definition store_node :: "PriceLevel \<times> store \<Rightarrow> addr \<Rightarrow> bool" where
  "store_node s a \<longleftrightarrow> snd s a \<noteq> None"

lemma keeps_store_node: "keeps A s s' \<Longrightarrow> store_node s' = store_node s"
proof
  fix a
  assume "keeps A s s'"
  then have "order_data (snd s') a = order_data (snd s) a" by (simp add: keeps_def)
  then show "store_node s' a = store_node s a"
    by (cases "snd s a"; cases "snd s' a") (auto simp: store_node_def order_data_def)
qed

interpretation level: order_queue insert_order_at_level cancel_order level_run level_queue store_node keeps
proof unfold_locales
  show "\<exists>s'. insert_order_at_level a s = Some s' \<and> level_queue (xs @ [a]) s' \<and> keeps (insert a (set xs)) s s'"
    if "level_queue xs s" "store_node s a" "a \<notin> set xs" for xs s a
    using that insert_queue by (cases s) (auto simp: store_node_def)
  show "\<exists>s'. cancel_order a s = Some s' \<and> level_queue (remove1 a xs) s' \<and> keeps (set xs) s s'"
    if "level_queue xs s" "a \<in> set xs" for xs s a
    using that cancel_queue by (cases s) auto
qed (auto intro: keeps_trans keeps_store_node)

lemma sum_list_of_nat_words:
  fixes f :: "'b \<Rightarrow> u32"
  shows "unat (sum_list (map f xs)) = sum_list (map (unat \<circ> f) xs) mod 2 ^ 32"
  by (induction xs) (simp_all add: unat_word_ariths mod_add_right_eq)

section \<open>Properties\<close>

text \<open>C10. Every sequence of insertions and cancellations that respects ownership of the nodes
  runs without a fault and refines the arrival queue: the level ends up linking exactly the
  remaining orders in both directions in arrival order, whichever position was cancelled, its
  volume is the sum of their quantities modulo 2^32, and order data, price and the nodes of no
  concern to the level are unchanged.\<close>

theorem level_run_refines_queue:
  assumes "level_queue xs (l, h)" and "queue_run (\<lambda>a. h a \<noteq> None) ops xs = Some ys"
  shows "\<exists>l' h'. level_run ops (l, h) = Some (l', h') \<and> level_queue ys (l', h')
    \<and> unat (total_volume l') = sum_list (map (unat \<circ> node_quantity h) ys) mod 2 ^ 32
    \<and> order_data h' = order_data h \<and> price l' = price l
    \<and> (\<forall>a. a \<notin> set xs \<union> op_node ` set ops \<longrightarrow> h' a = h a)"
proof -
  have "store_node (l, h) = (\<lambda>a. h a \<noteq> None)" by (simp add: store_node_def fun_eq_iff)
  then obtain l' h' where s: "level_run ops (l, h) = Some (l', h')" "level_queue ys (l', h')"
    "keeps (set xs \<union> op_node ` set ops) (l, h) (l', h')"
    using level.run_refines [OF assms(1), of ops ys] assms(2) by auto
  then have od: "order_data h' = order_data h" by (simp add: keeps_def)
  have "total_volume l' = sum_list (map (node_quantity h) ys)"
    using s(2) sum_quantity_cong [OF od, of ys] by (simp add: level_queue_def)
  then show ?thesis
    using s od sum_list_of_nat_words [of "node_quantity h" ys] by (auto simp: keeps_def)
qed

text \<open>Three nodes and an empty level: all three queue up and the middle one is withdrawn.\<close>

definition sample_node :: "u64 \<Rightarrow> u32 \<Rightarrow> OrderNode" where
  "sample_node i q = \<lparr>order_id = i, quantity = q, next_node = None, prev_node = None\<rparr>"

definition sample_store :: store where
  "sample_store = [64 \<mapsto> sample_node 1 10, 128 \<mapsto> sample_node 2 20, 192 \<mapsto> sample_node 3 30]"

definition empty_level :: "u32 \<Rightarrow> PriceLevel" where
  "empty_level p = \<lparr>price = p, total_volume = 0, head = None, tail = None, next_level = None, prev_level = None\<rparr>"

theorem level_run_refines_queue_witness:
  "\<exists>l' h'. level_run [InsertOrder 64, InsertOrder 128, InsertOrder 192, CancelOrder 128]
       (empty_level 100, sample_store) = Some (l', h')
     \<and> level_queue [64, 192] (l', h') \<and> unat (total_volume l') = 40"
proof -
  have e: "level_queue [] (empty_level 100, sample_store)"
    by (simp add: level_queue_def empty_level_def)
  have q: "queue_run (\<lambda>a. sample_store a \<noteq> None)
      [InsertOrder 64, InsertOrder 128, InsertOrder 192, CancelOrder 128] [] = Some [64, 192]"
    by (simp add: sample_store_def)
  have v: "sum_list (map (unat \<circ> node_quantity sample_store) [64, 192]) mod 2 ^ 32 = 40"
    by (simp add: node_quantity_def sample_store_def sample_node_def)
  show ?thesis
    using level_run_refines_queue [OF e q] unfolding v by blast
qed

text \<open>C11. Price levels share the store of nodes, and activity on one level does not disturb
  another: a level whose nodes the operations do not name still represents the same orders, links
  and volume.\<close>

theorem other_levels_untouched:
  assumes "level_queue xs (l, h)" and "queue_run (\<lambda>a. h a \<noteq> None) ops xs = Some ys"
    and "level_queue zs (m, h)" and "set zs \<inter> (set xs \<union> op_node ` set ops) = {}"
    and "level_run ops (l, h) = Some (l', h')"
  shows "level_queue zs (m, h')"
proof -
  have "store_node (l, h) = (\<lambda>a. h a \<noteq> None)" by (simp add: store_node_def fun_eq_iff)
  then have k: "keeps (set xs \<union> op_node ` set ops) (l, h) (l', h')"
    using level.run_refines [OF assms(1), of ops ys] assms(2,5) by auto
  then have "\<And>a. a \<in> set zs \<Longrightarrow> h' a = h a" using assms(4) by (auto simp: keeps_def)
  moreover have "order_data h' = order_data h" using k by (simp add: keeps_def)
  ultimately show ?thesis
    using assms(3) sum_quantity_cong [of h' h zs] dlist_frame [of zs h' h None None]
    by (simp add: level_queue_def)
qed

theorem other_levels_untouched_witness:
  "\<exists>l' h'. level_run [InsertOrder 128] (empty_level 100, sample_store) = Some (l', h')
     \<and> level_queue [64] ((empty_level 101)\<lparr>head := Some 64, tail := Some 64, total_volume := 10\<rparr>, h')"
proof -
  let ?m = "(empty_level 101)\<lparr>head := Some 64, tail := Some 64, total_volume := 10\<rparr>"
  have e: "level_queue [] (empty_level 100, sample_store)"
    by (simp add: level_queue_def empty_level_def)
  have q: "queue_run (\<lambda>a. sample_store a \<noteq> None) [InsertOrder 128] [] = Some [128]"
    by (simp add: sample_store_def)
  have m: "level_queue [64] (?m, sample_store)"
    by (simp add: level_queue_def sample_store_def sample_node_def node_quantity_def empty_level_def)
  have "level_run [InsertOrder 128] (empty_level 100, sample_store) \<noteq> None"
    by (simp add: insert_order_at_level_def node_write_def sample_store_def empty_level_def)
  then show ?thesis
    using other_levels_untouched [OF e q m] by fastforce
qed

text \<open>Repeated allocation from a pool.\<close>

fun allocate_many :: "nat \<Rightarrow> OrderPool \<Rightarrow> ptr list \<times> OrderPool" where
  "allocate_many 0 p = ([], p)"
| "allocate_many (Suc n) p =
     (let (r, p) = allocate_order_from_pool p; (rs, p) = allocate_many n p in (r # rs, p))"

lemma allocate_many_from:
  assumes "unat (next_free_index p) \<le> unat (pool_capacity p)"
  shows "fst (allocate_many n p) =
    map (\<lambda>i. if i < unat (pool_capacity p) then ptr_of (pool p + 64 * of_nat i) else None)
      [unat (next_free_index p)..<unat (next_free_index p) + n]"
  using assms
proof (induction n arbitrary: p)
  case 0
  then show ?case by simp
next
  case (Suc n)
  show ?case
  proof (cases "pool_capacity p \<le> next_free_index p")
    case True
    then have eq: "unat (next_free_index p) = unat (pool_capacity p)"
      using Suc.prems by (simp add: word_le_nat_alt)
    have "allocate_order_from_pool p = (None, p)"
      using True by (simp add: allocate_order_from_pool_def)
    moreover have none: "map (\<lambda>i. if i < c then ptr_of (pool p + 64 * of_nat i) else None) [c..<c + k] = replicate k None"
      for c k by (rule nth_equalityI) auto
    ultimately show ?thesis
      using Suc.IH [of p] Suc.prems eq none [of "unat (pool_capacity p)" "Suc n"]
      by (simp add: split_beta del: upt_Suc)
  next
    case False
    let ?p = "p\<lparr>next_free_index := next_free_index p + 1\<rparr>"
    from False have lt: "unat (next_free_index p) < unat (pool_capacity p)"
      by (simp add: word_le_nat_alt)
    moreover have "unat (pool_capacity p) < 2 ^ 64"
      using unsigned_less [of "pool_capacity p", where ?'a = nat] by simp
    ultimately have idx: "unat (next_free_index p + 1) = unat (next_free_index p) + 1"
      by (simp add: unat_word_ariths)
    have "allocate_order_from_pool p = (ptr_of (pool p + 64 * of_nat (unat (next_free_index p))), ?p)"
      using False by (simp add: allocate_order_from_pool_def)
    then show ?thesis
      using Suc.IH [of ?p] idx lt by (simp add: split_beta upt_conv_Cons del: upt_Suc)
  qed
qed

text \<open>The byte count requested for a pool.\<close>

lemma pool_bytes: "unat (cap * of_nat sizeof_OrderNode :: size_t) = unat cap * 64 mod 2 ^ 64"
  by (simp add: unat_word_ariths)

lemma slots_inside_iff:
  "(\<forall>i < unat cap. 64 * i + 64 \<le> unat (cap * of_nat sizeof_OrderNode :: size_t)) \<longleftrightarrow> unat cap < 2 ^ 58"
  (is "?l \<longleftrightarrow> ?r")
proof
  assume ?l
  show ?r
  proof (rule ccontr)
    assume "\<not> ?r"
    then have "unat cap - 1 < unat cap" "64 * (unat cap - 1) + 64 = 64 * unat cap" by simp_all
    then have "64 * unat cap \<le> unat (cap * of_nat sizeof_OrderNode)" using \<open>?l\<close> by metis
    moreover have "unat (cap * of_nat sizeof_OrderNode) < 2 ^ 64"
      unfolding pool_bytes by simp
    ultimately show False using \<open>\<not> ?r\<close> by simp
  qed
next
  assume ?r
  then have "unat (cap * of_nat sizeof_OrderNode) = 64 * unat cap"
    unfolding pool_bytes by simp
  then show ?l by simp
qed

lemma slot_addresses_distinct_iff:
  "inj_on (\<lambda>i. base + 64 * of_nat i :: u64) {..<c} \<longleftrightarrow> c \<le> 2 ^ 58"
proof
  assume inj: "inj_on (\<lambda>i. base + 64 * of_nat i :: u64) {..<c}"
  show "c \<le> 2 ^ 58"
  proof (rule ccontr)
    assume "\<not> c \<le> 2 ^ 58"
    then have "2 ^ 58 \<in> {..<c}" "0 \<in> {..<c}" by auto
    moreover have "base + 64 * of_nat (2 ^ 58) = base + 64 * (of_nat 0 :: u64)" by simp
    ultimately show False using inj_onD [OF inj, of "2 ^ 58" 0] by simp
  qed
next
  assume c: "c \<le> 2 ^ 58"
  have "unat (64 * of_nat i :: u64) = 64 * i" if "i < c" for i
    using that c by (simp add: unat_word_ariths unat_of_nat take_bit_nat_def)
  then show "inj_on (\<lambda>i. base + 64 * of_nat i :: u64) {..<c}"
    by (intro inj_onI) (metis add_left_cancel lessThan_iff mult_left_cancel zero_neq_numeral)
qed

text \<open>C28. A pool of a given capacity hands out the pointers to its slots in order, one cache line
  apart, and answers NULL from then on. The slots all lie inside the block requested from the
  operating system exactly when the capacity is below 2^58, since the byte count
  \<^verbatim>\<open>capacity * sizeof(OrderNode)\<close> wraps above that, and no two slots share an address exactly when the
  capacity is at most 2^58, since addresses wrap too. (The wrapped address 0 is NULL as well.)\<close>

theorem pool_hands_out_slots:
  assumes "init_order_pool ok memalign junk cap = Some p"
    and "memalign 64 (cap * 64) = Some base"
  shows "fst (allocate_many n p) = map (\<lambda>i. if i < unat cap then ptr_of (base + 64 * of_nat i) else None) [0..<n]
    \<and> ((\<forall>i < unat cap. 64 * i + 64 \<le> unat (cap * of_nat sizeof_OrderNode)) \<longleftrightarrow> unat cap < 2 ^ 58)
    \<and> (inj_on (\<lambda>i. base + 64 * of_nat i) {..<unat cap} \<longleftrightarrow> unat cap \<le> 2 ^ 58)"
proof -
  have "p = \<lparr>pool = base, pool_capacity = cap, next_free_index = 0\<rparr>"
    using assms by (auto simp: init_order_pool_def CACHE_LINE_def split: if_splits)
  then have "fst (allocate_many n p) = map (\<lambda>i. if i < unat cap then ptr_of (base + 64 * of_nat i) else None) [0..<n]"
    using allocate_many_from [of p n] by simp
  then show ?thesis using slots_inside_iff slot_addresses_distinct_iff by blast
qed

theorem pool_hands_out_slots_witness:
  "fst (allocate_many 4 \<lparr>pool = 4096, pool_capacity = 3, next_free_index = 0\<rparr>)
     = [Some 4096, Some 4160, Some 4224, None]"
  using pool_hands_out_slots [of True "\<lambda>_ _. Some 4096" 0 3 _ 4096 4]
  by (simp add: init_order_pool_def upt_rec ptr_of_def)

end
