(* ===== verification/Market_Data.thy ===== *)
theory Market_Data
  imports Prelude
begin

text \<open>
  \<^verbatim>\<open>src/02-High-Frequency-Trading-Engine/zero-allocation-market-data-parser.cpp\<close>: the
  integer parser \<^verbatim>\<open>fast_parse_uint\<close>, the packed \<^verbatim>\<open>AddOrderMessage\<close> and its byte
  layout, and the loop of \<^verbatim>\<open>process_market_data_buffer\<close> over a network buffer. Reads
  outside the buffer are explicit faults.
\<close>

section \<open>The integer parser\<close>

text \<open>
  \<^verbatim>\<open>str[i] ^ '0'\<close>: both operands are promoted to \<^verbatim>\<open>int\<close> (the signed \<^verbatim>\<open>char\<close> is
  sign-extended), and the result is converted to \<^verbatim>\<open>uint64_t\<close> for the addition.
\<close>

definition digit_value :: "byte \<Rightarrow> u64" where
  "digit_value c = scast ((scast c :: u32) XOR 0x30)"

text \<open>The loop; \<open>None\<close> where \<^verbatim>\<open>str[i]\<close> is outside the character array.\<close>

function fast_parse_loop :: "byte list \<Rightarrow> nat \<Rightarrow> nat \<Rightarrow> u64 \<Rightarrow> u64 option" where
  "fast_parse_loop str len i result =
     (if i < len then
        (if i < length str
         then fast_parse_loop str len (Suc i) (result * 10 + digit_value (str ! i))
         else None)
      else Some result)"
  by pat_completeness auto
termination
  by (relation "measure (\<lambda>(str, len, i, result). len - i)") auto

declare fast_parse_loop.simps [simp del]

definition fast_parse_uint :: "byte list \<Rightarrow> nat \<Rightarrow> u64 option" where
  "fast_parse_uint str len = fast_parse_loop str len 0 0"

section \<open>The Add Order message\<close>

record AddOrderMessage =
  message_type :: byte
  stock_locate :: u16
  tracking_number :: u16
  timestamp_ns :: u64
  order_ref :: u64
  buy_sell_indicator :: byte
  shares :: u32
  stock :: "byte list"
  price :: u32

text \<open>The members with their sizes; \<^verbatim>\<open>#pragma pack(push, 1)\<close> gives alignment 1.\<close>

definition add_order_fields :: "c_field list" where
  "add_order_fields =
     [(''message_type'', 1, 1), (''stock_locate'', 2, 1), (''tracking_number'', 2, 1),
      (''timestamp_ns'', 8, 1), (''order_ref'', 8, 1), (''buy_sell_indicator'', 1, 1),
      (''shares'', 4, 1), (''stock'', 8, 1), (''price'', 4, 1)]"

text \<open>The view that \<^verbatim>\<open>reinterpret_cast<const AddOrderMessage*>(current_ptr)\<close> gives of the
  bytes at an offset, when all of them are inside the buffer.\<close>

definition add_order_view :: "byte list \<Rightarrow> nat \<Rightarrow> AddOrderMessage option" where
  "add_order_view m p =
     map_option (\<lambda>bs.
       \<lparr>message_type = of_nat (member_nat add_order_fields ''message_type'' bs),
        stock_locate = of_nat (member_nat add_order_fields ''stock_locate'' bs),
        tracking_number = of_nat (member_nat add_order_fields ''tracking_number'' bs),
        timestamp_ns = of_nat (member_nat add_order_fields ''timestamp_ns'' bs),
        order_ref = of_nat (member_nat add_order_fields ''order_ref'' bs),
        buy_sell_indicator = of_nat (member_nat add_order_fields ''buy_sell_indicator'' bs),
        shares = of_nat (member_nat add_order_fields ''shares'' bs),
        stock = member_bytes add_order_fields ''stock'' bs,
        price = of_nat (member_nat add_order_fields ''price'' bs)\<rparr>)
     (read_at m p (struct_size add_order_fields))"

section \<open>The buffer loop\<close>

text \<open>
  An event is the message type test that succeeded, with the offset of \<^verbatim>\<open>current_ptr\<close>.
  A fault is a read outside the buffer, with its offset. The loop ends with a fault or with
  the final value of \<^verbatim>\<open>current_ptr\<close> as an offset from \<^verbatim>\<open>network_buffer.data()\<close>.
\<close>

datatype md_event = AddOrder nat | Execution nat

datatype md_fault = LengthOutOfBounds nat | TypeOutOfBounds nat

definition dispatch :: "nat \<Rightarrow> byte \<Rightarrow> md_event list" where
  "dispatch current_ptr c =
     (if c = 0x41 then [AddOrder current_ptr] else if c = 0x45 then [Execution current_ptr] else [])"

function process_from :: "byte list \<Rightarrow> nat \<Rightarrow> md_event list \<times> (md_fault + nat)" where
  "process_from network_buffer current_ptr =
     (if current_ptr < length network_buffer then
        (case load_le network_buffer current_ptr 2 of
           None \<Rightarrow> ([], Inl (LengthOutOfBounds current_ptr))
         | Some msg_length \<Rightarrow>
             if current_ptr + 2 < length network_buffer then
               (let (evs, r) = process_from network_buffer (current_ptr + 2 + msg_length)
                in (dispatch (current_ptr + 2) (network_buffer ! (current_ptr + 2)) @ evs, r))
             else ([], Inl (TypeOutOfBounds (current_ptr + 2))))
      else ([], Inr current_ptr))"
  by pat_completeness auto
termination
  by (relation "measure (\<lambda>(m, p). length m - p)") auto

declare process_from.simps [simp del]

definition process_market_data_buffer :: "byte list \<Rightarrow> md_event list \<times> (md_fault + nat)" where
  "process_market_data_buffer network_buffer = process_from network_buffer 0"

section \<open>Encoders and the framing the loop assumes\<close>

text \<open>The decimal digits of a number, the bytes of a message and of a length-prefixed frame,
  and the events a sequence of frames should give.\<close>

fun dec_digits :: "nat \<Rightarrow> byte list" where
  "dec_digits n = (if n < 10 then [of_nat (48 + n)] else dec_digits (n div 10) @ [of_nat (48 + n mod 10)])"
declare dec_digits.simps [simp del]

definition add_order_bytes :: "AddOrderMessage \<Rightarrow> byte list" where
  "add_order_bytes m =
     le_bytes 1 (unat (message_type m)) @ le_bytes 2 (unat (stock_locate m))
     @ le_bytes 2 (unat (tracking_number m)) @ le_bytes 8 (unat (timestamp_ns m))
     @ le_bytes 8 (unat (order_ref m)) @ le_bytes 1 (unat (buy_sell_indicator m))
     @ le_bytes 4 (unat (shares m)) @ stock m @ le_bytes 4 (unat (price m))"




definition md_frame :: "byte list \<Rightarrow> byte list" where
  "md_frame body = le_bytes 2 (length body) @ body"

definition framed_ok :: "byte list \<Rightarrow> bool" where
  "framed_ok body \<longleftrightarrow> body \<noteq> [] \<and> length body < 65536"

fun framed_events :: "nat \<Rightarrow> byte list list \<Rightarrow> md_event list" where
  "framed_events p [] = []"
| "framed_events p (b # bs) = dispatch (p + 2) (hd b) @ framed_events (p + 2 + length b) bs"

fun event_view :: "byte list \<Rightarrow> md_event \<Rightarrow> AddOrderMessage option" where
  "event_view buf (AddOrder p) = add_order_view buf p"
| "event_view buf (Execution p) = None"


section \<open>Decimal digits\<close>

lemma digit_value_digit:
  assumes "d < 10"
  shows "digit_value (of_nat (48 + d)) = of_nat d"
proof -
  have "d \<in> {0, 1, 2, 3, 4, 5, 6, 7, 8, 9}" using assms by auto
  then show ?thesis by (auto simp: digit_value_def)
qed

lemma fast_parse_loop_eq:
  assumes "len \<le> length str" and "i \<le> len"
  shows "fast_parse_loop str len i r =
     Some (foldl (\<lambda>r c. r * 10 + digit_value c) r (drop i (take len str)))"
  using assms
proof (induction str len i r rule: fast_parse_loop.induct)
  case (1 str len i r)
  show ?case
  proof (cases "i < len")
    case True
    with "1.prems" have "drop i (take len str) = str ! i # drop (Suc i) (take len str)"
      by (simp add: Cons_nth_drop_Suc [symmetric] min_def)
    with "1.IH" True "1.prems" show ?thesis by (simp add: fast_parse_loop.simps [of str len i r])
  next
    case False
    with "1.prems" show ?thesis by (simp add: fast_parse_loop.simps [of str len])
  qed
qed

lemma xor_and_split:
  fixes c m :: "'a::len word"
  shows "c XOR m = (c - (c AND m)) + (m - (c AND m))"
proof -
  have "(c XOR m) + (c AND m) = (c XOR m) OR (c AND m)"
    by (rule disjunctive_add_eq_or) (auto intro: bit_eqI simp: bit_simps)
  also have "\<dots> = c OR m" by (auto intro: bit_eqI simp: bit_simps)
  finally have "(c XOR m) + (c AND m) + (c AND m) = c + m"
    by (metis add.commute word_plus_and_or)
  then show ?thesis by (simp add: algebra_simps)
qed

lemma xor_is_minus_iff: "(c XOR 0x30 = c - 0x30) = (c AND 0x30 = (0x30::u64))"
proof -
  let ?x = "0x30 - (c AND 0x30)"
  have "(c XOR 0x30 = c - 0x30) \<longleftrightarrow> ?x + ?x = 0"
    unfolding xor_and_split by (simp add: algebra_simps)
  moreover have "unat ?x \<le> 48"
  proof -
    have "c AND 0x30 \<le> (0x30::u64)" by (rule word_and_le1)
    then have "unat ?x = 48 - unat (c AND 0x30)" by (simp add: unat_sub)
    then show ?thesis by simp
  qed
  then have "unat (?x + ?x) = unat ?x + unat ?x" by (subst unat_word_ariths) simp
  then have "?x + ?x = 0 \<longleftrightarrow> ?x = 0" by (metis add_is_0 unat_eq_0)
  ultimately show ?thesis by auto
qed

lemma bit_0x30: "bit (0x30 :: int) n \<longleftrightarrow> n = 4 \<or> n = 5"
proof -
  have m: "(0x30 :: int) = push_bit 4 (mask 2)"
    by (simp add: mask_eq_exp_minus_1 push_bit_eq_mult)
  show ?thesis unfolding m bit_push_bit_iff bit_mask_iff by auto
qed

lemma and_0x30_iff: "((x::u64) AND 0x30 = 0x30) = (bit x 4 \<and> bit x 5)"
  by (subst bit_eq_iff) (auto simp: bit_and_iff bit_0x30 dest: spec [of _ 4] spec [of _ 5])

lemma digit_value_xor: "digit_value c = scast c XOR 0x30"
  unfolding digit_value_def
  by (rule bit_eqI) (auto simp: bit_signed_iff bit_xor_iff bit_0x30 min_def)

lemma foldl_dec_digits:
  "foldl (\<lambda>r c. r * 10 + digit_value c) 0 (dec_digits n) = of_nat n"
proof (induction n rule: dec_digits.induct)
  case (1 n)
  show ?case
  proof (cases "n < 10")
    case True
    then show ?thesis using digit_value_digit [of n] by (simp add: dec_digits.simps [of n])
  next
    case False
    have "(of_nat n :: u64) = of_nat (n div 10 * 10 + n mod 10)" by simp
    also have "\<dots> = of_nat (n div 10) * 10 + of_nat (n mod 10)" by (simp only: of_nat_add of_nat_mult of_nat_numeral)
    finally show ?thesis using False "1.IH" digit_value_digit [of "n mod 10"]
      by (simp add: dec_digits.simps [of n])
  qed
qed

lemma add_order_layout:
  "struct_size add_order_fields = 38"
  "layout 0 add_order_fields =
     [(''message_type'', 0, 1), (''stock_locate'', 1, 2), (''tracking_number'', 3, 2),
      (''timestamp_ns'', 5, 8), (''order_ref'', 13, 8), (''buy_sell_indicator'', 21, 1),
      (''shares'', 22, 4), (''stock'', 26, 8), (''price'', 34, 4)]"
  by code_simp+


lemma bytes_of_view:
  assumes "add_order_view b p = Some m"
  shows "read_at b p 38 = Some (add_order_bytes m)"
proof -
  from assms obtain bs where bs: "read_at b p 38 = Some bs"
    by (auto simp: add_order_view_def add_order_layout)
  then have len: "length bs = 38" by (rule read_at_length)
  have "add_order_bytes m = take 1 (drop 0 bs) @ take 2 (drop 1 bs) @ take 2 (drop 3 bs)
     @ take 8 (drop 5 bs) @ take 8 (drop 13 bs) @ take 1 (drop 21 bs) @ take 4 (drop 22 bs)
     @ take 8 (drop 26 bs) @ drop 34 bs"
    using assms bs len
    by (auto simp: add_order_view_def add_order_layout member_nat_def member_bytes_def
        add_order_bytes_def le_bytes_of_nat_le_nat simp del: le_bytes.simps)
  also have "\<dots> = bs" by (simp only: take_drop_append) simp
  finally show ?thesis using bs by simp
qed

lemma length_md_frame [simp]: "length (md_frame body) = length body + 2"
  by (simp add: md_frame_def)

text \<open>The loop over whole frames, with anything behind them.\<close>

lemma process_from_frames_then:
  assumes "list_all framed_ok bodies"
  shows "process_from (pre @ concat (map md_frame bodies) @ post) (length pre) =
    (case process_from (pre @ concat (map md_frame bodies) @ post) (length pre + length (concat (map md_frame bodies)))
     of (evs, r) \<Rightarrow> (framed_events (length pre) bodies @ evs, r))"
  using assms
proof (induction bodies arbitrary: pre)
  case Nil
  then show ?case by (simp split: prod.split)
next
  case (Cons b bs)
  let ?m = "pre @ concat (map md_frame (b # bs)) @ post"
  have b: "b \<noteq> []" "length b < 65536" using Cons.prems by (auto simp: framed_ok_def)
  have split: "?m = pre @ le_bytes 2 (length b) @ b @ concat (map md_frame bs) @ post"
    by (simp add: md_frame_def)
  have "read_at ?m (length pre) 2 = Some (le_bytes 2 (length b))"
    unfolding split by (rule read_at_append) simp_all
  then have load: "load_le ?m (length pre) 2 = Some (length b)"
    using b by (simp add: load_le_def le_nat_le_bytes)
  have c: "?m ! (length pre + 2) = hd b"
    unfolding split using b by (simp add: nth_append hd_conv_nth)
  have "process_from ?m (length pre + 2 + length b) =
    (case process_from ?m (length pre + length (concat (map md_frame (b # bs))))
     of (evs, r) \<Rightarrow> (framed_events (length pre + 2 + length b) bs @ evs, r))"
    using Cons.IH [of "pre @ md_frame b"] Cons.prems by (simp add: add.assoc add.commute [of "length b" 2])
  then show ?case
    using load c b by (subst process_from.simps) (simp split: prod.split)
qed

lemma process_from_frames:
  assumes "list_all framed_ok bodies"
  shows "process_from (concat (map md_frame bodies)) 0 = (framed_events 0 bodies, Inr (length (concat (map md_frame bodies))))"
  using process_from_frames_then [OF assms, of "[]" "[]"] by (simp add: process_from.simps [of _ "length _"])





lemma framed_events_append:
  "framed_events p (as @ bs) = framed_events p as @ framed_events (p + length (concat (map md_frame as))) bs"
  by (induction as arbitrary: p) (simp_all add: ac_simps)



text \<open>A message whose length reaches past the end is the last one dispatched.\<close>

lemma process_from_past_end:
  assumes "load_le buf p 2 = Some n" and "p + 2 < length buf" and "length buf \<le> p + 2 + n"
  shows "process_from buf p = (dispatch (p + 2) (buf ! (p + 2)), Inr (p + 2 + n))"
proof -
  have "process_from buf (p + 2 + n) = ([], Inr (p + 2 + n))" using assms(3) by (simp add: process_from.simps)
  then show ?thesis using assms(1,2) by (simp add: process_from.simps [of buf p])
qed


section \<open>Properties\<close>

text \<open>C14. Parsing the decimal digits of any number below 2 to the 64 gives the number back.\<close>

theorem fast_parse_uint_digits:
  assumes "n < 2 ^ 64"
  shows "map_option unat (fast_parse_uint (dec_digits n) (length (dec_digits n))) = Some n"
proof -
  have "fast_parse_uint (dec_digits n) (length (dec_digits n)) = Some (of_nat n)"
    by (simp add: fast_parse_uint_def fast_parse_loop_eq foldl_dec_digits)
  then show ?thesis using assms by (simp add: unat_of_nat take_bit_nat_eq_self)
qed

theorem fast_parse_uint_digits_witness:
  "map_option unat (fast_parse_uint [49, 56, 52, 52, 54, 55, 52, 52, 48, 55, 51, 55, 48, 57, 53, 53, 49, 54, 49, 53] 20)
   = Some 18446744073709551615"
proof -
  have d: "dec_digits 18446744073709551615 =
      [49, 56, 52, 52, 54, 55, 52, 52, 48, 55, 51, 55, 48, 57, 53, 53, 49, 54, 49, 53]"
    by (simp add: dec_digits.simps)
  have len: "length (dec_digits 18446744073709551615) = 20" by (simp add: d)
  show ?thesis using fast_parse_uint_digits [of 18446744073709551615, unfolded len, unfolded d] by simp
qed

text \<open>C36. The comment that subtracting \<^verbatim>\<open>'0'\<close> is the same as XOR with 0x30 holds exactly
  for the characters in which bits 4 and 5 are both set (all decimal digits among them); the
  parser rejects nothing, so any other character contributes a different value.\<close>

theorem digit_value_is_subtraction:
  "(digit_value c = scast c - 0x30) = (bit c 4 \<and> bit c 5)"
  by (simp add: digit_value_xor xor_is_minus_iff and_0x30_iff bit_simps)

text \<open>C13. On a buffer that is a sequence of length-prefixed, non-empty messages the loop
  terminates without a read outside the buffer, visits every message exactly once and in order,
  and leaves \<^verbatim>\<open>current_ptr\<close> exactly at the end.\<close>

theorem process_framed_buffer:
  assumes "list_all framed_ok bodies"
  shows "process_market_data_buffer (concat (map md_frame bodies))
    = (framed_events 0 bodies, Inr (length (concat (map md_frame bodies))))"
  using process_from_frames [OF assms] by (simp add: process_market_data_buffer_def)

theorem process_framed_buffer_witness:
  "process_market_data_buffer [1, 0, 0x45, 2, 0, 0x41, 9] = ([Execution 2, AddOrder 5], Inr 7)"
proof -
  have "list_all framed_ok [[0x45], [0x41, 9]]" by (simp add: framed_ok_def)
  moreover have "concat (map md_frame [[0x45], [0x41, 9]]) = [1, 0, 0x45, 2, 0, 0x41, 9]" by code_simp
  moreover have "framed_events 0 [[0x45], [0x41, 9]] = [Execution 2, AddOrder 5]" by code_simp
  ultimately show ?thesis using process_framed_buffer [of "[[0x45], [0x41, 9]]"] by simp
qed




text \<open>C35. What the loop does with a buffer that ends in the middle of a message, behind any number
  of whole messages. Cut inside the length field, it reads the length outside the buffer; cut right
  behind the length field, it reads the type outside the buffer. Cut inside the body, the message is
  dispatched like a whole one and the final pointer lies past the end; if it is an Add Order message
  of which fewer than 38 bytes are left, its view reaches outside the buffer.\<close>

theorem truncated_buffers:
  assumes "list_all framed_ok bodies" and "framed_ok body" and "0 < k" and "k < length body"
    and "whole = concat (map md_frame bodies)" and "short = whole @ le_bytes 2 (length body) @ take k body"
  shows "process_market_data_buffer (whole @ [b]) = (framed_events 0 bodies, Inl (LengthOutOfBounds (length whole)))
    \<and> process_market_data_buffer (whole @ [lo, hi]) = (framed_events 0 bodies, Inl (TypeOutOfBounds (length whole + 2)))
    \<and> process_market_data_buffer short = (framed_events 0 (bodies @ [body]), Inr (length whole + 2 + length body))
    \<and> length short < length whole + 2 + length body
    \<and> (k < 38 \<longrightarrow> event_view short (AddOrder (length whole + 2)) = None)"
proof -
  have tail: "process_market_data_buffer (whole @ post) =
      (case process_from (whole @ post) (length whole) of (evs, r) \<Rightarrow> (framed_events 0 bodies @ evs, r))" for post
    using process_from_frames_then [OF assms(1), of "[]" post] assms(5) by (simp add: process_market_data_buffer_def)
  have b: "body \<noteq> []" "length body < 65536" using assms(2) by (auto simp: framed_ok_def)
  have "load_le short (length whole) 2 = Some (length body)"
    using b read_at_append [of "length whole" whole 2 "le_bytes 2 (length body)" "take k body"]
    by (simp add: load_le_def le_nat_le_bytes assms(6))
  moreover have "short ! (length whole + 2) = hd body"
    using assms(3) b by (simp add: assms(6) nth_append hd_conv_nth)
  moreover have "length whole + 2 < length short" "length short \<le> length whole + 2 + length body"
    using assms(3,4) by (simp_all add: assms(6))
  ultimately have "process_from short (length whole) = (dispatch (length whole + 2) (hd body), Inr (length whole + 2 + length body))"
    using process_from_past_end by metis
  then have "process_market_data_buffer short = (framed_events 0 (bodies @ [body]), Inr (length whole + 2 + length body))"
    using tail [of "le_bytes 2 (length body) @ take k body"] by (simp add: assms(5,6) framed_events_append)
  moreover have "process_from (whole @ [b]) (length whole) = ([], Inl (LengthOutOfBounds (length whole)))"
    "process_from (whole @ [lo, hi]) (length whole) = ([], Inl (TypeOutOfBounds (length whole + 2)))"
    by (simp_all add: process_from.simps load_le_def read_at_def)
  ultimately show ?thesis
    using tail [of "[b]"] tail [of "[lo, hi]"] assms(3,4)
    by (simp add: assms(6) add_order_view_def add_order_layout read_at_def)
qed

theorem truncated_buffers_witness:
  "process_market_data_buffer [1, 0, 0x45, 9] = ([Execution 2], Inl (LengthOutOfBounds 3))
   \<and> process_market_data_buffer [1, 0, 0x45, 38, 0, 0x41, 7] = ([Execution 2, AddOrder 5], Inr 43)"
proof -
  have ok: "list_all framed_ok [[0x45]]" "framed_ok (0x41 # 7 # replicate 36 0)" by (simp_all add: framed_ok_def)
  have len: "0 < (2 :: nat)" "2 < length (0x41 # 7 # replicate 36 (0 :: byte))" by simp_all
  have w: "[1, 0, 0x45] = concat (map md_frame [[0x45]])" by code_simp
  have c: "[1, 0, 0x45, 38, 0, 0x41, 7] = [1, 0, 0x45] @ le_bytes 2 (length (0x41 # 7 # replicate 36 (0 :: byte)))
      @ take 2 (0x41 # 7 # replicate 36 0)"
    by code_simp
  have "framed_events 0 [[0x45]] = [Execution 2]" "framed_events 0 ([[0x45]] @ [0x41 # 7 # replicate 36 0]) = [Execution 2, AddOrder 5]"
    by (simp_all add: dispatch_def)
  then show ?thesis using truncated_buffers [OF ok len w c, of 9 0 0] by simp
qed

end
