(* ===== verification/P4_Switch.thy ===== *)
theory P4_Switch
  imports Prelude
begin

text \<open>
  \<^verbatim>\<open>src/03-Hardware-Acceleration-and-Networking/ethernet-switch.cpp\<close>, a P4-16 program:
  the Ethernet and IPv4 headers, the parser state machine, the longest-prefix-match table, the
  forwarding action and the ingress control. A packet is its list of bits, most significant
  first. The source declares the table key as \<^verbatim>\<open>lpm\<close> and leaves the matching to the
  target, so the lookup is an argument of the definitions, with the contract of longest prefix match
  as the locale \<open>ranked_lookup\<close>. The table entries come from the control plane and are an
  argument too; so is the \<^verbatim>\<open>drop\<close> action, which the source uses but does not define.
\<close>

section \<open>Headers\<close>

type_synonym macAddr_t = "48 word"
type_synonym ip4Addr_t = "32 word"

record ethernet_t =
  eth_dstAddr :: macAddr_t
  eth_srcAddr :: macAddr_t
  etherType :: "16 word"

record ipv4_t =
  ip_version :: "4 word"
  ip_ihl :: "4 word"
  ip_diffserv :: "8 word"
  ip_totalLen :: "16 word"
  ip_identification :: "16 word"
  ip_flags :: "3 word"
  ip_fragOffset :: "13 word"
  ip_ttl :: "8 word"
  ip_protocol :: "8 word"
  ip_hdrChecksum :: "16 word"
  ip_srcAddr :: ip4Addr_t
  ip_dstAddr :: ip4Addr_t

text \<open>A header is valid when it is present.\<close>

record headers =
  hdr_ethernet :: "ethernet_t option"
  hdr_ipv4 :: "ipv4_t option"

record standard_metadata_t =
  egress_spec :: "9 word"

definition ethernet_widths :: "nat list" where "ethernet_widths = [48, 48, 16]"

definition ipv4_widths :: "nat list" where
  "ipv4_widths = [4, 4, 8, 16, 16, 3, 13, 8, 8, 16, 32, 32]"

section \<open>Extraction\<close>

text \<open>The value of a bit string, and the bit string of a value.\<close>

fun be_nat :: "bool list \<Rightarrow> nat" where
  "be_nat [] = 0"
| "be_nat (b # bs) = (if b then 2 ^ length bs else 0) + be_nat bs"

fun be_bits :: "nat \<Rightarrow> nat \<Rightarrow> bool list" where
  "be_bits 0 n = []"
| "be_bits (Suc k) n = (n div 2 ^ k mod 2 = 1) # be_bits k n"

fun fields_of :: "nat list \<Rightarrow> bool list \<Rightarrow> nat list" where
  "fields_of [] bs = []"
| "fields_of (w # ws) bs = be_nat (take w bs) # fields_of ws (drop w bs)"

text \<open>\<^verbatim>\<open>packet.extract\<close>: the fields in order and the rest of the packet; \<open>None\<close> when the
  packet is too short, which leaves the header invalid.\<close>

definition packet_extract :: "nat list \<Rightarrow> bool list \<Rightarrow> (nat list \<times> bool list) option" where
  "packet_extract ws pkt =
     (if length pkt < sum_list ws then None else Some (fields_of ws pkt, drop (sum_list ws) pkt))"

definition ethernet_of :: "nat list \<Rightarrow> ethernet_t" where
  "ethernet_of f = \<lparr>eth_dstAddr = of_nat (f ! 0), eth_srcAddr = of_nat (f ! 1), etherType = of_nat (f ! 2)\<rparr>"

definition ipv4_of :: "nat list \<Rightarrow> ipv4_t" where
  "ipv4_of f =
     \<lparr>ip_version = of_nat (f ! 0), ip_ihl = of_nat (f ! 1), ip_diffserv = of_nat (f ! 2),
      ip_totalLen = of_nat (f ! 3), ip_identification = of_nat (f ! 4), ip_flags = of_nat (f ! 5),
      ip_fragOffset = of_nat (f ! 6), ip_ttl = of_nat (f ! 7), ip_protocol = of_nat (f ! 8),
      ip_hdrChecksum = of_nat (f ! 9), ip_srcAddr = of_nat (f ! 10), ip_dstAddr = of_nat (f ! 11)\<rparr>"

section \<open>The parser\<close>

datatype parser_result = Accept | PacketTooShort

text \<open>The states \<^verbatim>\<open>parse_ipv4\<close> and \<^verbatim>\<open>start\<close>: the outcome, the headers extracted so far and
  the unparsed rest.\<close>

definition parse_ipv4 :: "headers \<Rightarrow> bool list \<Rightarrow> parser_result \<times> headers \<times> bool list" where
  "parse_ipv4 hdr packet =
     (case packet_extract ipv4_widths packet of
        None \<Rightarrow> (PacketTooShort, hdr, packet)
      | Some (f, rest) \<Rightarrow> (Accept, hdr\<lparr>hdr_ipv4 := Some (ipv4_of f)\<rparr>, rest))"

definition parse_start :: "headers \<Rightarrow> bool list \<Rightarrow> parser_result \<times> headers \<times> bool list" where
  "parse_start hdr packet =
     (case packet_extract ethernet_widths packet of
        None \<Rightarrow> (PacketTooShort, hdr, packet)
      | Some (f, rest) \<Rightarrow>
          let hdr' = hdr\<lparr>hdr_ethernet := Some (ethernet_of f)\<rparr>
          in if etherType (ethernet_of f) = 0x0800 then parse_ipv4 hdr' rest else (Accept, hdr', rest))"

definition MyParser :: "bool list \<Rightarrow> parser_result \<times> headers \<times> bool list" where
  "MyParser packet = parse_start \<lparr>hdr_ethernet = None, hdr_ipv4 = None\<rparr> packet"

section \<open>The routing table\<close>

datatype table_action = Ipv4Forward macAddr_t "9 word" | DropAction | NoAction

record lpm_entry =
  lpm_value :: ip4Addr_t
  lpm_len :: nat
  lpm_action :: table_action

definition lpm_matches :: "lpm_entry \<Rightarrow> ip4Addr_t \<Rightarrow> bool" where
  "lpm_matches e a \<longleftrightarrow> drop_bit (32 - lpm_len e) (lpm_value e) = drop_bit (32 - lpm_len e) a"

type_synonym lpm_target = "lpm_entry list \<Rightarrow> ip4Addr_t \<Rightarrow> lpm_entry option"

section \<open>Actions and the ingress control\<close>

type_synonym ingress_state = "headers \<times> standard_metadata_t"

definition ipv4_forward :: "macAddr_t \<Rightarrow> 9 word \<Rightarrow> ingress_state \<Rightarrow> ingress_state" where
  "ipv4_forward dstAddr port s =
     (let (hdr, meta) = s
      in (hdr\<lparr>hdr_ethernet := map_option (\<lambda>e. e\<lparr>eth_srcAddr := eth_dstAddr e, eth_dstAddr := dstAddr\<rparr>)
                 (hdr_ethernet hdr),
              hdr_ipv4 := map_option (\<lambda>ip. ip\<lparr>ip_ttl := ip_ttl ip - 1\<rparr>) (hdr_ipv4 hdr)\<rparr>,
          meta\<lparr>egress_spec := port\<rparr>))"

definition run_action :: "(ingress_state \<Rightarrow> ingress_state) \<Rightarrow> table_action \<Rightarrow> ingress_state \<Rightarrow> ingress_state" where
  "run_action drop_act act s =
     (case act of Ipv4Forward mac port \<Rightarrow> ipv4_forward mac port s | DropAction \<Rightarrow> drop_act s | NoAction \<Rightarrow> s)"

text \<open>\<open>lookup\<close> is the match engine of the target.\<close>

definition ipv4_lpm_apply ::
  "lpm_target \<Rightarrow> (ingress_state \<Rightarrow> ingress_state) \<Rightarrow> lpm_entry list \<Rightarrow> ip4Addr_t \<Rightarrow> ingress_state \<Rightarrow> ingress_state" where
  "ipv4_lpm_apply lookup drop_act entries key s =
     (case lookup entries key of
        None \<Rightarrow> run_action drop_act DropAction s
      | Some e \<Rightarrow> run_action drop_act (lpm_action e) s)"

definition MyIngress ::
  "lpm_target \<Rightarrow> (ingress_state \<Rightarrow> ingress_state) \<Rightarrow> lpm_entry list \<Rightarrow> ingress_state \<Rightarrow> ingress_state" where
  "MyIngress lookup drop_act entries s =
     (case hdr_ipv4 (fst s) of
        None \<Rightarrow> s
      | Some ip \<Rightarrow> ipv4_lpm_apply lookup drop_act entries (ip_dstAddr ip) s)"

section \<open>Serialised headers\<close>

definition ethernet_fields :: "ethernet_t \<Rightarrow> nat list" where
  "ethernet_fields e = [unat (eth_dstAddr e), unat (eth_srcAddr e), unat (etherType e)]"

definition ipv4_fields :: "ipv4_t \<Rightarrow> nat list" where
  "ipv4_fields ip =
     [unat (ip_version ip), unat (ip_ihl ip), unat (ip_diffserv ip), unat (ip_totalLen ip),
      unat (ip_identification ip), unat (ip_flags ip), unat (ip_fragOffset ip), unat (ip_ttl ip),
      unat (ip_protocol ip), unat (ip_hdrChecksum ip), unat (ip_srcAddr ip), unat (ip_dstAddr ip)]"

fun bits_of_fields :: "nat list \<Rightarrow> nat list \<Rightarrow> bool list" where
  "bits_of_fields (w # ws) (n # ns) = be_bits w n @ bits_of_fields ws ns"
| "bits_of_fields _ _ = []"

definition emit_ethernet :: "ethernet_t \<Rightarrow> bool list" where
  "emit_ethernet e = bits_of_fields ethernet_widths (ethernet_fields e)"

definition emit_ipv4 :: "ipv4_t \<Rightarrow> bool list" where
  "emit_ipv4 ip = bits_of_fields ipv4_widths (ipv4_fields ip)"

lemma length_be_bits [simp]: "length (be_bits k n) = k"
  by (induction k) auto

lemma be_nat_be_bits: "be_nat (be_bits k n) = n mod 2 ^ k"
proof (induction k)
  case 0
  then show ?case by simp
next
  case (Suc k)
  have "n mod 2 ^ Suc k = n mod (2 ^ k * 2)" by (simp add: mult.commute)
  also have "\<dots> = 2 ^ k * (n div 2 ^ k mod 2) + n mod 2 ^ k" by (rule mod_mult2_eq)
  finally show ?case using Suc mod2_eq_if [of "n div 2 ^ k"] by auto
qed

text \<open>Extracting serialised fields gives the fields and the payload.\<close>

lemma extract_bits_of_fields:
  assumes "length ws = length ns" and "list_all2 (\<lambda>w n. n < 2 ^ w) ws ns"
  shows "packet_extract ws (bits_of_fields ws ns @ rest) = Some (ns, rest)"
proof -
  have "length (bits_of_fields ws ns) = sum_list ws \<and> fields_of ws (bits_of_fields ws ns @ rest) = ns"
    using assms by (induction ws ns rule: list_induct2) (auto simp: be_nat_be_bits)
  then show ?thesis by (simp add: packet_extract_def)
qed

lemma unat_bounds:
  "unat (a :: 3 word) < 8" "unat (b :: 4 word) < 16" "unat (c :: 8 word) < 256"
  "unat (d :: 13 word) < 8192" "unat (e :: 16 word) < 65536" "unat (f :: 32 word) < 4294967296"
  "unat (g :: 48 word) < 281474976710656"
  using unsigned_less [of a, where ?'a = nat] unsigned_less [of b, where ?'a = nat]
    unsigned_less [of c, where ?'a = nat] unsigned_less [of d, where ?'a = nat]
    unsigned_less [of e, where ?'a = nat] unsigned_less [of f, where ?'a = nat]
    unsigned_less [of g, where ?'a = nat]
  by simp_all

lemma extract_ethernet:
  "packet_extract ethernet_widths (emit_ethernet e @ rest) = Some (ethernet_fields e, rest)"
  unfolding emit_ethernet_def
  by (rule extract_bits_of_fields)
     (simp_all add: ethernet_widths_def ethernet_fields_def unat_bounds)

lemma extract_ipv4:
  "packet_extract ipv4_widths (emit_ipv4 ip @ rest) = Some (ipv4_fields ip, rest)"
  unfolding emit_ipv4_def
  by (rule extract_bits_of_fields)
     (simp_all add: ipv4_widths_def ipv4_fields_def unat_bounds)

lemma ethernet_of_fields [simp]: "ethernet_of (ethernet_fields e) = e"
  by (simp add: ethernet_of_def ethernet_fields_def)

lemma ipv4_of_fields [simp]: "ipv4_of (ipv4_fields ip) = ip"
  by (simp add: ipv4_of_def ipv4_fields_def eval_nat_numeral)

section \<open>Longest prefix match\<close>

text \<open>
  The contract of a table lookup by rank: a result is an entry that matches and no matching
  entry ranks higher; there is no result only when nothing matches.
\<close>

locale ranked_lookup =
  fixes lookup :: "'e list \<Rightarrow> 'k \<Rightarrow> 'e option"
    and matches :: "'e \<Rightarrow> 'k \<Rightarrow> bool"
    and rank :: "'e \<Rightarrow> nat"
  assumes lookup_Some: "lookup es k = Some e \<Longrightarrow>
        e \<in> set es \<and> matches e k \<and> (\<forall>f \<in> set es. matches f k \<longrightarrow> rank f \<le> rank e)"
    and lookup_None: "lookup es k = None \<Longrightarrow> e \<in> set es \<Longrightarrow> \<not> matches e k"
begin

lemma lookup_None_iff: "lookup es k = None \<longleftrightarrow> (\<forall>e \<in> set es. \<not> matches e k)"
  using lookup_None lookup_Some by (metis not_Some_eq)

text \<open>An entry that outranks all other matching entries is the result, whatever the engine and
  the order of the entries.\<close>

lemma lookup_unique_best:
  assumes "e \<in> set es" and "matches e k" and best: "\<And>f. f \<in> set es \<Longrightarrow> matches f k \<Longrightarrow> f = e \<or> rank f < rank e"
  shows "lookup es k = Some e"
proof -
  obtain f where f: "lookup es k = Some f" using assms(1,2) lookup_None_iff by blast
  then show ?thesis using lookup_Some [OF f] assms(1,2) best by fastforce
qed

end

text \<open>A reference engine, which shows that the contract can be met.\<close>

fun lpm_reference :: lpm_target where
  "lpm_reference [] a = None"
| "lpm_reference (e # es) a =
     (case lpm_reference es a of
        None \<Rightarrow> if lpm_matches e a then Some e else None
      | Some f \<Rightarrow> if lpm_matches e a \<and> lpm_len f \<le> lpm_len e then Some e else Some f)"

interpretation lpm: ranked_lookup lpm_reference lpm_matches lpm_len
proof
  show "e \<in> set es \<and> lpm_matches e k \<and> (\<forall>f \<in> set es. lpm_matches f k \<longrightarrow> lpm_len f \<le> lpm_len e)"
    if "lpm_reference es k = Some e" for es k e
    using that
  proof (induction es arbitrary: e)
    case (Cons g es)
    show ?case
    proof (cases "lpm_reference es k")
      case None
      then have "\<not> lpm_matches f k" if "f \<in> set es" for f
        using that by (induction es) (auto split: option.splits if_splits)
      with None Cons.prems show ?thesis by (auto split: if_splits)
    next
      case (Some h)
      then show ?thesis using Cons by (fastforce split: if_splits)
    qed
  qed simp
  show "\<not> lpm_matches e k" if "lpm_reference es k = None" "e \<in> set es" for es k e
    using that by (induction es) (auto split: option.splits if_splits)
qed

section \<open>The header checksum\<close>

text \<open>
  The sum of the 16-bit words of the fixed part of the IPv4 header. With the sum \<open>opts\<close> of
  the words of the options, a receiver accepts the header when the one's complement sum is
  all ones, that is, when the plain sum is a multiple of 65535.
\<close>

definition ipv4_word_sum :: "ipv4_t \<Rightarrow> nat" where
  "ipv4_word_sum ip =
     (unat (ip_version ip) * 4096 + unat (ip_ihl ip) * 256 + unat (ip_diffserv ip))
     + unat (ip_totalLen ip) + unat (ip_identification ip)
     + (unat (ip_flags ip) * 8192 + unat (ip_fragOffset ip))
     + (unat (ip_ttl ip) * 256 + unat (ip_protocol ip)) + unat (ip_hdrChecksum ip)
     + (unat (ip_srcAddr ip) div 65536 + unat (ip_srcAddr ip) mod 65536)
     + (unat (ip_dstAddr ip) div 65536 + unat (ip_dstAddr ip) mod 65536)"

definition checksum_valid :: "nat \<Rightarrow> ipv4_t \<Rightarrow> bool" where
  "checksum_valid opts ip \<longleftrightarrow> (ipv4_word_sum ip + opts) mod 65535 = 0"

lemma unat_byte_minus_1 [simp]: "unat (- 1 :: 8 word) = 255"
  by (simp add: unsigned_minus_1_eq_mask mask_eq_exp_minus_1)

lemma unat_ttl_pred:
  "unat (t - 1 :: 8 word) = (if t = 0 then 255 else unat t - 1)"
  by (simp add: unat_pred unsigned_minus_1_eq_mask mask_eq_exp_minus_1)

lemma ipv4_word_sum_ttl:
  "ipv4_word_sum (ip\<lparr>ip_ttl := t\<rparr>) + unat (ip_ttl ip) * 256 = ipv4_word_sum ip + unat t * 256"
  by (simp add: ipv4_word_sum_def)

text \<open>Changing the time to live by one changes the sum by something that is not a multiple of
  65535, also where it wraps from 0 to 255.\<close>

lemma checksum_ttl_pred:
  assumes "checksum_valid opts ip"
  shows "\<not> checksum_valid opts (ip\<lparr>ip_ttl := ip_ttl ip - 1\<rparr>)"
proof
  let ?a = "ipv4_word_sum ip + opts" and ?b = "ipv4_word_sum (ip\<lparr>ip_ttl := ip_ttl ip - 1\<rparr>) + opts"
  assume "checksum_valid opts (ip\<lparr>ip_ttl := ip_ttl ip - 1\<rparr>)"
  with assms have ab: "?a mod 65535 = 0" "?b mod 65535 = 0" by (simp_all add: checksum_valid_def)
  have sum: "?b + unat (ip_ttl ip) * 256 = ?a + unat (ip_ttl ip - 1) * 256"
    using ipv4_word_sum_ttl [where ip = ip and t = "ip_ttl ip - 1"] by simp
  show False
  proof (cases "ip_ttl ip = 0")
    case True
    then have "?b = ?a + 65280" using sum by (simp add: unat_ttl_pred)
    then show False using ab mod_add_left_eq [of ?a 65535 65280] by (simp add: add.assoc add.commute)
  next
    case False
    then have "0 < unat (ip_ttl ip)" by (simp add: unat_gt_0)
    then have "?a = ?b + 256" using sum False by (simp add: unat_ttl_pred)
    then show False using ab mod_add_left_eq [of ?b 65535 256] by (simp add: add.assoc add.commute)
  qed
qed

section \<open>Properties\<close>

lemma parsed_packet:
  "etherType e = 0x0800 \<Longrightarrow> MyParser (emit_ethernet e @ emit_ipv4 ip @ payload) =
     (Accept, \<lparr>hdr_ethernet = Some e, hdr_ipv4 = Some ip\<rparr>, payload)"
  by (simp add: MyParser_def parse_start_def parse_ipv4_def extract_ethernet extract_ipv4 Let_def)

text \<open>A small header, for examples.\<close>

definition sample_ip :: "ip4Addr_t \<Rightarrow> ipv4_t" where
  "sample_ip dst =
     \<lparr>ip_version = 4, ip_ihl = 5, ip_diffserv = 0, ip_totalLen = 20, ip_identification = 0,
      ip_flags = 0, ip_fragOffset = 0, ip_ttl = 64, ip_protocol = 6, ip_hdrChecksum = 0x66E2,
      ip_srcAddr = 0x0A000001, ip_dstAddr = dst\<rparr>"

text \<open>C15. The parser inverts serialisation: a packet that carries an Ethernet header with
  type 0x0800, an IPv4 header and a payload is accepted, both headers are valid with exactly the
  serialised fields, and the payload is left; for any other type the IPv4 header stays invalid
  and nothing after the Ethernet header is consumed.\<close>

theorem parser_roundtrip:
  "MyParser (emit_ethernet e @ emit_ipv4 ip @ payload) =
     (if etherType e = 0x0800
      then (Accept, \<lparr>hdr_ethernet = Some e, hdr_ipv4 = Some ip\<rparr>, payload)
      else (Accept, \<lparr>hdr_ethernet = Some e, hdr_ipv4 = None\<rparr>, emit_ipv4 ip @ payload))"
  by (simp add: MyParser_def parse_start_def parse_ipv4_def extract_ethernet extract_ipv4 Let_def)

text \<open>C16. The parser never claims more than the packet holds: it reports a short packet exactly
  when the packet has fewer than 112 bits, or has type 0x0800 and fewer than 272 bits; the Ethernet
  header is valid exactly when the packet has at least 112 bits, and the IPv4 header exactly when
  the packet has type 0x0800 and at least 272 bits.\<close>

theorem parser_short_packets:
  "(fst (MyParser pkt) = PacketTooShort) =
     (length pkt < 112 \<or> (of_nat (be_nat (take 16 (drop 96 pkt))) :: 16 word) = 0x0800 \<and> length pkt < 272)
   \<and> (hdr_ethernet (fst (snd (MyParser pkt))) \<noteq> None) = (112 \<le> length pkt)
   \<and> (hdr_ipv4 (fst (snd (MyParser pkt))) \<noteq> None) =
     (272 \<le> length pkt \<and> (of_nat (be_nat (take 16 (drop 96 pkt))) :: 16 word) = 0x0800)"
  by (auto simp: MyParser_def parse_start_def parse_ipv4_def packet_extract_def ethernet_widths_def
      ipv4_widths_def ethernet_of_def Let_def eval_nat_numeral)

text \<open>C17. Routing of a whole packet, on every target that keeps the contract of longest prefix
  match and whatever the order of the table entries. If the entry for the packet's destination
  address has a longer prefix than every other entry that matches this address, and is a
  forwarding entry, then parsing followed by the ingress control sends the packet to its port with
  its destination address; if no entry matches the destination address, the drop action runs.\<close>

theorem packet_routed_by_longest_prefix:
  assumes "ranked_lookup lookup lpm_matches lpm_len" and "etherType eth = 0x0800"
    and "MyParser (emit_ethernet eth @ emit_ipv4 ip @ payload) = (r, hdr, rest)"
  shows "((\<exists>ent \<in> set entries. lpm_matches ent (ip_dstAddr ip) \<and> lpm_action ent = Ipv4Forward mac port
            \<and> (\<forall>f \<in> set entries. lpm_matches f (ip_dstAddr ip) \<longrightarrow> f = ent \<or> lpm_len f < lpm_len ent))
       \<longrightarrow> MyIngress lookup drop_act entries (hdr, meta) =
             (\<lparr>hdr_ethernet = Some \<lparr>eth_dstAddr = mac, eth_srcAddr = eth_dstAddr eth, etherType = 0x0800\<rparr>,
               hdr_ipv4 = Some (ip\<lparr>ip_ttl := ip_ttl ip - 1\<rparr>)\<rparr>, meta\<lparr>egress_spec := port\<rparr>))
     \<and> ((\<forall>f \<in> set entries. \<not> lpm_matches f (ip_dstAddr ip))
       \<longrightarrow> MyIngress lookup drop_act entries (hdr, meta) = drop_act (hdr, meta))"
proof -
  note miss = ranked_lookup.lookup_None_iff [OF assms(1)]
  have hit: "lookup entries (ip_dstAddr ip) = Some ent"
    if "ent \<in> set entries" "lpm_matches ent (ip_dstAddr ip)"
      "\<forall>f \<in> set entries. lpm_matches f (ip_dstAddr ip) \<longrightarrow> f = ent \<or> lpm_len f < lpm_len ent" for ent
    using that by (intro ranked_lookup.lookup_unique_best [OF assms(1)]) auto
  have hdr: "hdr = \<lparr>hdr_ethernet = Some eth, hdr_ipv4 = Some ip\<rparr>"
    using assms(2,3) parsed_packet by simp
  show ?thesis
    by (auto simp: hdr MyIngress_def ipv4_lpm_apply_def run_action_def ipv4_forward_def assms(2) miss [THEN iffD2]
        dest!: hit)
qed

theorem packet_routed_by_longest_prefix_witness:
  "let short = \<lparr>lpm_value = 0x0A000000, lpm_len = 8, lpm_action = Ipv4Forward 0xAA 1\<rparr>;
       long = \<lparr>lpm_value = 0x0A010000, lpm_len = 16, lpm_action = Ipv4Forward 0xBB 2\<rparr>;
       eth = \<lparr>eth_dstAddr = 0x11, eth_srcAddr = 0x22, etherType = 0x0800\<rparr>
   in egress_spec (snd (MyIngress lpm_reference id [short, long]
        (fst (snd (MyParser (emit_ethernet eth @ emit_ipv4 (sample_ip 0x0A010203) @ []))), \<lparr>egress_spec = 0\<rparr>))) = 2"
proof -
  let ?short = "\<lparr>lpm_value = 0x0A000000, lpm_len = 8, lpm_action = Ipv4Forward 0xAA 1\<rparr>"
  let ?long = "\<lparr>lpm_value = 0x0A010000, lpm_len = 16, lpm_action = Ipv4Forward 0xBB 2\<rparr>"
  let ?eth = "\<lparr>eth_dstAddr = 0x11, eth_srcAddr = 0x22, etherType = 0x0800\<rparr>"
  obtain r hdr rest where p: "MyParser (emit_ethernet ?eth @ emit_ipv4 (sample_ip 0x0A010203) @ []) = (r, hdr, rest)"
    by (metis prod_cases3)
  have "\<exists>ent \<in> set [?short, ?long]. lpm_matches ent (ip_dstAddr (sample_ip 0x0A010203))
      \<and> lpm_action ent = Ipv4Forward 0xBB 2
      \<and> (\<forall>f \<in> set [?short, ?long]. lpm_matches f (ip_dstAddr (sample_ip 0x0A010203)) \<longrightarrow> f = ent \<or> lpm_len f < lpm_len ent)"
    by (rule bexI [of _ ?long]) (simp_all add: lpm_matches_def sample_ip_def)
  moreover have "etherType ?eth = 0x0800" by simp
  ultimately have "MyIngress lpm_reference id [?short, ?long] (hdr, \<lparr>egress_spec = 0\<rparr>) =
      (\<lparr>hdr_ethernet = Some \<lparr>eth_dstAddr = 0xBB, eth_srcAddr = 0x11, etherType = 0x0800\<rparr>,
        hdr_ipv4 = Some ((sample_ip 0x0A010203)\<lparr>ip_ttl := ip_ttl (sample_ip 0x0A010203) - 1\<rparr>)\<rparr>, \<lparr>egress_spec = 2\<rparr>)"
    using packet_routed_by_longest_prefix [OF lpm.ranked_lookup_axioms _ p, where entries = "[?short, ?long]"
        and mac = "0xBB" and port = 2 and drop_act = id and meta = "\<lparr>egress_spec = 0\<rparr>"] by simp
  then show ?thesis by (simp only: Let_def p fst_conv snd_conv) simp
qed

text \<open>C18. What the ingress control does to a parsed packet: without a valid IPv4 header nothing
  changes; otherwise the entry that the target finds for the destination address decides. A forwarding entry sets the output
  port, makes the old destination address the source address, writes the new destination
  address and decrements the time to live modulo 256, so a packet that arrives with time to
  live 0 leaves with 255; nothing else changes. A drop entry or a miss runs the drop action.\<close>

theorem ingress_effect:
  "MyIngress lookup drop_act entries (\<lparr>hdr_ethernet = Some e, hdr_ipv4 = None\<rparr>, meta)
     = (\<lparr>hdr_ethernet = Some e, hdr_ipv4 = None\<rparr>, meta)
   \<and> MyIngress lookup drop_act entries (\<lparr>hdr_ethernet = Some e, hdr_ipv4 = Some ip\<rparr>, meta) =
     (case map_option lpm_action (lookup entries (ip_dstAddr ip)) of
        Some (Ipv4Forward mac port) \<Rightarrow>
          (\<lparr>hdr_ethernet = Some \<lparr>eth_dstAddr = mac, eth_srcAddr = eth_dstAddr e, etherType = etherType e\<rparr>,
            hdr_ipv4 = Some (ip\<lparr>ip_ttl := of_nat ((unat (ip_ttl ip) + 255) mod 256)\<rparr>)\<rparr>,
           meta\<lparr>egress_spec := port\<rparr>)
      | Some NoAction \<Rightarrow>
          (\<lparr>hdr_ethernet = Some e, hdr_ipv4 = Some ip\<rparr>, meta)
      | _ \<Rightarrow> drop_act (\<lparr>hdr_ethernet = Some e, hdr_ipv4 = Some ip\<rparr>, meta))"
proof -
  have "(of_nat ((unat (ip_ttl ip) + 255) mod 256) :: 8 word) = ip_ttl ip - 1"
  proof (rule word_unat_eq_iff [THEN iffD2])
    show "unat (of_nat ((unat (ip_ttl ip) + 255) mod 256) :: 8 word) = unat (ip_ttl ip - 1)"
    proof (cases "ip_ttl ip = 0")
      case False
      then have "0 < unat (ip_ttl ip)" by (simp add: unat_gt_0)
      then obtain t where "unat (ip_ttl ip) = Suc t" by (cases "unat (ip_ttl ip)") auto
      then show ?thesis using False unat_bounds(3) [of "ip_ttl ip"]
        by (simp add: unat_ttl_pred unat_byte_of_nat)
    qed (simp add: unsigned_minus_1_eq_mask mask_eq_exp_minus_1)
  qed
  then show ?thesis
    by (auto simp: MyIngress_def ipv4_lpm_apply_def run_action_def ipv4_forward_def
        split: option.splits table_action.splits)
qed

text \<open>C39. The program decrements the time to live and leaves the checksum field alone: if the
  IPv4 header that enters the ingress control has a valid checksum and the table forwards it, the
  header that leaves the ingress control has the same checksum field, which is no longer valid for
  it. The source contains no later control that would recompute the field.\<close>

theorem forwarding_leaves_stale_checksum:
  assumes "hdr_ipv4 (fst s) = Some ip" and "lookup entries (ip_dstAddr ip) = Some ent"
    and "lpm_action ent = Ipv4Forward mac port" and "checksum_valid opts ip"
  shows "\<exists>ip'. hdr_ipv4 (fst (MyIngress lookup drop_act entries s)) = Some ip'
    \<and> ip_hdrChecksum ip' = ip_hdrChecksum ip \<and> \<not> checksum_valid opts ip'"
  using assms checksum_ttl_pred [OF assms(4)]
  by (auto simp: MyIngress_def ipv4_lpm_apply_def run_action_def ipv4_forward_def case_prod_beta)

theorem forwarding_leaves_stale_checksum_witness:
  "\<exists>s ip ip'. checksum_valid 0 ip \<and> hdr_ipv4 (fst s) = Some ip \<and> hdr_ipv4 (fst (MyIngress lpm_reference id
       [\<lparr>lpm_value = 0x0A000000, lpm_len = 8, lpm_action = Ipv4Forward 0xAA 1\<rparr>] s)) = Some ip'
     \<and> \<not> checksum_valid 0 ip'"
proof -
  let ?ip = "sample_ip 0x0A000002"
  let ?ent = "\<lparr>lpm_value = 0x0A000000, lpm_len = 8, lpm_action = Ipv4Forward 0xAA 1\<rparr>"
  let ?s = "(\<lparr>hdr_ethernet = None, hdr_ipv4 = Some ?ip\<rparr>, \<lparr>egress_spec = 0\<rparr>)"
  have c: "checksum_valid 0 ?ip" by (simp add: checksum_valid_def ipv4_word_sum_def sample_ip_def)
  have "lpm_reference [?ent] (ip_dstAddr ?ip) = Some ?ent" by (simp add: lpm_matches_def sample_ip_def)
  from forwarding_leaves_stale_checksum [where s = ?s and ip = ?ip and drop_act = id and lookup = lpm_reference
      and entries = "[?ent]", OF _ this, of "0xAA" 1 0] c
  obtain ip' where "hdr_ipv4 (fst (MyIngress lpm_reference id [?ent] ?s)) = Some ip'" "\<not> checksum_valid 0 ip'"
    by auto
  then show ?thesis using c by (intro exI [of _ ?s] exI [of _ ?ip] exI [of _ ip']) simp
qed

end
