(* ===== verification/Wavefront_Scan.thy ===== *)
theory Wavefront_Scan
  imports Prelude "HOL-Library.Signed_Division"
begin

text \<open>
  \<^verbatim>\<open>src/03-Hardware-Acceleration-and-Networking/rocm-hip.cpp\<close>: the prefix sum kernel
  \<^verbatim>\<open>amdWavefrontPrefixSum\<close>, whose lanes run in lockstep inside a wavefront, and the host
  function \<^verbatim>\<open>executeAmdAsynchronousWorkflow\<close> with its checked runtime calls. Device
  integers are 32-bit words. The HIP runtime is not part of the repository: whether a call
  succeeds is an argument.
\<close>

section \<open>The kernel\<close>

text \<open>\<^verbatim>\<open>__shfl_up(val, offset, warpSize)\<close>: every lane reads the register of the lane
  \<open>offset\<close> below; the lowest lanes read their own.\<close>

definition shfl_up :: "u32 list \<Rightarrow> nat \<Rightarrow> u32 list" where
  "shfl_up vals offset =
     map (\<lambda>lane. if lane < offset then vals ! lane else vals ! (lane - offset)) [0..<length vals]"

text \<open>One iteration of the loop in all lanes.\<close>

definition scan_step :: "nat \<Rightarrow> u32 list \<Rightarrow> u32 list" where
  "scan_step offset vals =
     (let temp = shfl_up vals offset
      in map (\<lambda>laneId. if offset \<le> laneId then vals ! laneId + temp ! laneId else vals ! laneId)
           [0..<length vals])"

text \<open>The loop over \<open>offset = 1, 2, 4, \<dots>\<close> (the offset starts at 1 and doubles, so it is
  never 0, where the source's loop would not end).\<close>

function scan_loop :: "nat \<Rightarrow> nat \<Rightarrow> u32 list \<Rightarrow> u32 list" where
  "scan_loop warpSize offset vals =
     (if 0 < offset \<and> offset < warpSize then scan_loop warpSize (offset * 2) (scan_step offset vals)
      else vals)"
  by pat_completeness auto
termination
  by (relation "measure (\<lambda>(w, off, v). w - off)") auto

declare scan_loop.simps [simp del]

text \<open>The registers \<open>val\<close> of the wavefront whose first thread is \<open>base\<close>.\<close>

definition wave_load :: "nat \<Rightarrow> u32 list \<Rightarrow> nat \<Rightarrow> nat \<Rightarrow> u32 list" where
  "wave_load warpSize d_in n base =
     map (\<lambda>lane. if base + lane < n then d_in ! (base + lane) else 0) [0..<warpSize]"

text \<open>The final \<open>val\<close> of one thread, from its position in the grid.\<close>

definition thread_val :: "nat \<Rightarrow> u32 list \<Rightarrow> nat \<Rightarrow> nat \<Rightarrow> nat \<Rightarrow> nat \<Rightarrow> u32" where
  "thread_val warpSize d_in n blockIdx blockDim threadIdx =
     (let tid = blockIdx * blockDim + threadIdx;
          laneId = threadIdx mod warpSize
      in scan_loop warpSize 1 (wave_load warpSize d_in n (tid - laneId)) ! laneId)"

text \<open>The whole grid: thread \<open>tid\<close> writes element \<open>tid\<close> when it is below \<open>n\<close>.\<close>

definition amdWavefrontPrefixSum :: "nat \<Rightarrow> nat \<Rightarrow> nat \<Rightarrow> u32 list \<Rightarrow> u32 list \<Rightarrow> nat \<Rightarrow> u32 list" where
  "amdWavefrontPrefixSum warpSize gridDim blockDim d_in d_out n =
     map (\<lambda>tid. if tid < gridDim * blockDim \<and> tid < n
                then thread_val warpSize d_in n (tid div blockDim) blockDim (tid mod blockDim)
                else d_out ! tid) [0..<length d_out]"

section \<open>The host function\<close>

datatype hip_call =
    StreamCreate | MallocIn | MallocOut | CopyToDevice | LaunchKernel | CopyToHost
  | StreamSynchronize | FreeIn | FreeOut | StreamDestroy

text \<open>How the host function stops early: a check that fails ends the process, and a signed overflow is
  undefined behaviour.\<close>

datatype hip_stop = CheckFailed hip_call | IntOverflow

text \<open>\<^verbatim>\<open>CHECK_HIP\<close>: the first call that fails ends the process.\<close>

fun check_hip :: "(hip_call \<Rightarrow> bool) \<Rightarrow> hip_call list \<Rightarrow> hip_call option" where
  "check_hip hip_ok [] = None"
| "check_hip hip_ok (c # cs) = (if hip_ok c then check_hip hip_ok cs else Some c)"

text \<open>\<^verbatim>\<open>int bytes = dataSize * sizeof(int)\<close> and the grid size, both computed as \<^verbatim>\<open>int\<close>.\<close>

definition hip_bytes :: "int \<Rightarrow> int" where
  "hip_bytes dataSize = sint (of_int dataSize * 4 :: u32)"

definition hip_gridSize :: "int \<Rightarrow> hip_stop + int" where
  "hip_gridSize dataSize =
     and_then (checked IntOverflow (dataSize + 256)) (\<lambda>s. Inr ((s - 1) sdiv 256))"

text \<open>
  The host function: how it stopped early, or the new contents of \<open>h_data\<close>. The kernel launch is not checked: if it fails, the uninitialised
  device buffer \<open>raw\<close> is copied back.
\<close>

definition executeAmdAsynchronousWorkflow ::
  "(hip_call \<Rightarrow> bool) \<Rightarrow> u32 list \<Rightarrow> u32 list \<Rightarrow> int \<Rightarrow> hip_stop + u32 list" where
  "executeAmdAsynchronousWorkflow hip_ok raw h_data dataSize =
     (let elems = nat (hip_bytes dataSize) div 4 in
      case check_hip hip_ok [StreamCreate, MallocIn, MallocOut, CopyToDevice] of
        Some c \<Rightarrow> Inl (CheckFailed c)
      | None \<Rightarrow> and_then (hip_gridSize dataSize) (\<lambda>gridSize.
          let d_in = take elems h_data;
              d_out = (if hip_ok LaunchKernel
                       then amdWavefrontPrefixSum 64 (nat gridSize) 256 d_in (take elems raw) (nat dataSize)
                       else take elems raw)
          in case check_hip hip_ok [CopyToHost, StreamSynchronize, FreeIn, FreeOut, StreamDestroy] of
               Some c \<Rightarrow> Inl (CheckFailed c)
             | None \<Rightarrow> Inr (take elems d_out @ drop elems h_data)))"

section \<open>The scan computes prefix sums\<close>

text \<open>The sum of the last \<open>w\<close> inputs up to position \<open>i\<close>; all of them when \<open>w > i\<close>.\<close>

definition window :: "u32 list \<Rightarrow> nat \<Rightarrow> nat \<Rightarrow> u32" where
  "window xs w i = (\<Sum>j \<in> {i + 1 - w..i}. xs ! j)"

lemma length_scan_step [simp]: "length (scan_step off vals) = length vals"
  by (simp add: scan_step_def)

lemma scan_step_nth:
  "i < length vals \<Longrightarrow>
   scan_step off vals ! i = (if off \<le> i then vals ! i + vals ! (i - off) else vals ! i)"
  by (simp add: scan_step_def shfl_up_def)

lemma window_double:
  assumes "0 < off" and "off \<le> i"
  shows "window xs off i + window xs off (i - off) = window xs (off * 2) i"
proof -
  have "{i + 1 - off * 2..i} = {i - off + 1 - off..i - off} \<union> {i + 1 - off..i}"
    and "{i - off + 1 - off..i - off} \<inter> {i + 1 - off..i} = {}"
    using assms by auto
  then show ?thesis by (simp add: window_def sum.union_disjoint add.commute)
qed

lemma window_full: "i < w \<Longrightarrow> window xs w i = (\<Sum>j \<le> i. xs ! j)"
  by (simp add: window_def atLeast0AtMost)

lemma scan_loop_windows:
  assumes "0 < off" and "length vals = w" and "\<And>i. i < w \<Longrightarrow> vals ! i = window xs off i"
    and "i < w"
  shows "scan_loop w off vals ! i = (\<Sum>j \<le> i. xs ! j)"
  using assms
proof (induction w off vals rule: scan_loop.induct)
  case (1 w off vals)
  show ?case
  proof (cases "off < w")
    case True
    have "scan_step off vals ! k = window xs (off * 2) k" if "k < w" for k
    proof (cases "off \<le> k")
      case True
      then show ?thesis using "1.prems" that window_double [of off k xs] by (simp add: scan_step_nth)
    next
      case False
      then show ?thesis using "1.prems" that by (simp add: scan_step_nth window_full)
    qed
    then have "scan_loop w (off * 2) (scan_step off vals) ! i = (\<Sum>j \<le> i. xs ! j)"
      using "1.IH" "1.prems" True by simp
    then show ?thesis using True "1.prems" by (simp add: scan_loop.simps [of w off])
  next
    case False
    then show ?thesis using "1.prems" by (simp add: scan_loop.simps [of w off] window_full)
  qed
qed

lemma length_scan_loop [simp]: "length (scan_loop w off vals) = length vals"
proof (induction w off vals rule: scan_loop.induct)
  case (1 w off vals)
  then show ?case by (simp add: scan_loop.simps [of w off vals])
qed

lemma scan_loop_prefix_sum:
  assumes "i < length xs"
  shows "scan_loop (length xs) 1 xs ! i = (\<Sum>j \<le> i. xs ! j)"
  using assms by (intro scan_loop_windows) (simp_all add: window_def)

lemma length_wave_load [simp]: "length (wave_load w xs n base) = w"
  by (simp add: wave_load_def)

text \<open>Inside the grid: the sum over the thread's own wavefront segment.\<close>

lemma thread_val_eq:
  assumes "0 < w" and "w dvd bd" and "0 < bd" and "tid < n" and "n \<le> length xs"
  shows "thread_val w xs n (tid div bd) bd (tid mod bd) = (\<Sum>j \<in> {tid - tid mod w..tid}. xs ! j)"
proof -
  let ?lane = "tid mod w" and ?base = "tid - tid mod w"
  have lane: "tid mod bd mod w = ?lane" using assms(2) by (rule mod_mod_cancel)
  have less: "?lane < w" using assms(1) by simp
  have "thread_val w xs n (tid div bd) bd (tid mod bd) = (\<Sum>j \<le> ?lane. wave_load w xs n ?base ! j)"
    using scan_loop_prefix_sum [of ?lane "wave_load w xs n ?base"] less
    by (simp add: thread_val_def lane Let_def)
  also have "\<dots> = (\<Sum>j \<le> ?lane. xs ! (?base + j))"
    using less assms(4) by (intro sum.cong) (auto simp: wave_load_def)
  also have "\<dots> = (\<Sum>j \<in> {?base..?base + ?lane}. xs ! j)"
    by (rule sum.reindex_bij_witness [of _ "\<lambda>j. j - ?base" "\<lambda>j. ?base + j"]) auto
  finally show ?thesis by simp
qed

lemma length_kernel [simp]: "length (amdWavefrontPrefixSum w g bd xs ys n) = length ys"
  by (simp add: amdWavefrontPrefixSum_def)

text \<open>A grid that covers the data computes every element.\<close>

lemma kernel_eq:
  assumes "0 < w" and "w dvd bd" and "0 < bd" and "n \<le> g * bd" and "length xs = n" and "length ys = n"
  shows "amdWavefrontPrefixSum w g bd xs ys n = map (\<lambda>i. \<Sum>j \<in> {i - i mod w..i}. xs ! j) [0..<n]"
  using assms thread_val_eq [OF assms(1-3)]
  by (auto simp: amdWavefrontPrefixSum_def intro!: nth_equalityI)

section \<open>Sizes on the host\<close>

lemma hip_bytes_small:
  assumes "0 \<le> d" and "d < 2 ^ 29"
  shows "hip_bytes d = 4 * d"
proof -
  have "(of_int d * 4 :: u32) = of_int (4 * d)" by (simp add: mult.commute)
  then have "hip_bytes d = signed_take_bit 31 (4 * d)"
    unfolding hip_bytes_def by (simp only: signed_of_int) simp
  also have "\<dots> = 4 * d" using assms by (intro signed_take_bit_int_eq_self) auto
  finally show ?thesis .
qed

lemma gridSize_covers:
  assumes "0 \<le> d" and "d < 2 ^ 29"
  shows "\<exists>g. hip_gridSize d = Inr g \<and> nat d \<le> nat g * 256"
proof -
  have "hip_gridSize d = Inr ((d + 255) div 256)"
    using assms by (simp add: hip_gridSize_def checked_def int32_def signed_divide_int_eq_divide_int)
  moreover have "d \<le> (d + 255) div 256 * 256" by linarith
  ultimately show ?thesis using assms by (simp add: nat_le_iff)
qed

section \<open>Properties\<close>

text \<open>C19. The shuffle loop leaves in lane \<open>i\<close> of a wavefront the sum of lanes 0 to \<open>i\<close>
  (modulo 2 to the 32), for a wavefront of any size, not only powers of two.\<close>

theorem wavefront_inclusive_scan:
  "scan_loop (length xs) 1 xs = map (\<lambda>i. \<Sum>j \<le> i. xs ! j) [0..<length xs]"
  using scan_loop_prefix_sum [of _ xs] by (intro nth_equalityI) simp_all

text \<open>C20. When every runtime call succeeds and the data has fewer than 2 to the 29 elements, the
  host function returns, for every element, the sum of the elements of its 64-element segment up
  to and including it; the grid covers all elements, the last partial segment included. The
  result is a prefix sum of each wavefront, not of the whole array.\<close>

theorem workflow_segmented_prefix_sum:
  assumes "\<And>c. hip_ok c" and "dataSize = int (length h_data)" and "dataSize < 2 ^ 29"
    and "length h_data \<le> length raw"
  shows "executeAmdAsynchronousWorkflow hip_ok raw h_data dataSize
    = Inr (map (\<lambda>i. \<Sum>j \<in> {i - i mod 64..i}. h_data ! j) [0..<length h_data])"
proof -
  let ?n = "length h_data"
  have elems: "nat (hip_bytes dataSize) div 4 = ?n"
    using assms hip_bytes_small [of dataSize] by (simp add: nat_mult_distrib)
  obtain g where g: "hip_gridSize dataSize = Inr g" "?n \<le> nat g * 256"
    using gridSize_covers [of dataSize] assms(2,3) by auto
  then have "amdWavefrontPrefixSum 64 (nat g) 256 h_data (take ?n raw) ?n
      = map (\<lambda>i. \<Sum>j \<in> {i - i mod 64..i}. h_data ! j) [0..<?n]"
    using assms(4) by (intro kernel_eq) simp_all
  then show ?thesis
    using elems assms(1,2) g(1) by (simp add: executeAmdAsynchronousWorkflow_def Let_def)
qed

theorem workflow_segmented_prefix_sum_witness:
  "executeAmdAsynchronousWorkflow (\<lambda>c. True) [0, 0, 0] [5, 7, 9] 3 = Inr [5, 12, 21]"
proof -
  have "executeAmdAsynchronousWorkflow (\<lambda>c. True) [0, 0, 0] [5, 7, 9] 3
      = Inr (map (\<lambda>i. \<Sum>j \<in> {i - i mod 64..i}. [5, 7, 9] ! j) [0..<length [5, 7, 9 :: u32]])"
    by (rule workflow_segmented_prefix_sum) simp_all
  moreover have "map (\<lambda>i. \<Sum>j \<in> {i - i mod 64..i}. [5, 7, 9 :: u32] ! j) [0..<length [5, 7, 9 :: u32]] = [5, 12, 21]"
    by code_simp
  ultimately show ?thesis by (rule trans [OF _ arg_cong])
qed

text \<open>C37. The byte count is right exactly below 2 to the 29 elements: for any larger
  non-negative \<^verbatim>\<open>int\<close> the product is truncated to 32 bits and the allocations and copies
  get a wrong size.\<close>

theorem hip_bytes_exact_iff:
  assumes "0 \<le> dataSize" and "dataSize < 2 ^ 31"
  shows "(hip_bytes dataSize = 4 * dataSize) = (dataSize < 2 ^ 29)"
proof -
  have "hip_bytes dataSize < 2 ^ 31"
    unfolding hip_bytes_def using sint_lt [of "of_int dataSize * 4 :: u32"] by simp
  then show ?thesis using hip_bytes_small assms by auto
qed

theorem hip_bytes_exact_iff_witness:
  "hip_bytes 536870912 = - 2147483648 \<and> hip_bytes 536870912 \<noteq> 4 * 536870912"
  using hip_bytes_exact_iff [of 536870912] by (simp add: hip_bytes_def)

end
