(* ===== verification/Sycl_Reduction.thy ===== *)
theory Sycl_Reduction
  imports Prelude "HOL-Library.Multiset" Complex_Main
begin

text \<open>
  \<^verbatim>\<open>src/03-Hardware-Acceleration-and-Networking/oneapi-data-parallel.cpp\<close>: the sum
  reduction \<^verbatim>\<open>executeIntelHeterogeneousCompute\<close>. Work items are grouped in work-groups of
  256, each work-group in sub-groups; the leader of every sub-group adds the sum of its
  sub-group to one memory cell with an atomic operation, in an order that nothing determines.

  The values are the device's floats and \<open>fadd\<close> their addition, of which nothing is assumed: it
  rounds, and is neither associative nor known to be commutative. The sub-group size, the order in
  which \<^verbatim>\<open>reduce_over_group\<close> combines the values of a sub-group and the order of the atomic
  additions are choices of the device and arguments.
\<close>

section \<open>Sizes\<close>

definition workGroupSize :: size_t where "workGroupSize = 256"

definition numWorkItems :: "size_t \<Rightarrow> size_t" where
  "numWorkItems dataSize = ((dataSize + workGroupSize - 1) div workGroupSize) * workGroupSize"

section \<open>The kernel\<close>

text \<open>\<^verbatim>\<open>localCache\<close> of one work-group after the barrier: its data, padded with \<^verbatim>\<open>0.0f\<close>.\<close>

definition local_cache :: "'f \<Rightarrow> 'f list \<Rightarrow> nat \<Rightarrow> 'f list" where
  "local_cache zero deviceData g =
     map (\<lambda>localId. let globalId = g * 256 + localId
                    in if globalId < length deviceData then deviceData ! globalId else zero) [0..<256]"

text \<open>The sub-groups of a work-group are consecutive work items.\<close>

function sub_groups :: "nat \<Rightarrow> 'a list \<Rightarrow> 'a list list" where
  "sub_groups sg xs = (if xs = [] \<or> sg = 0 then [] else take sg xs # sub_groups sg (drop sg xs))"
  by pat_completeness auto
termination
  by (relation "measure (\<lambda>(sg, xs). length xs)") auto

declare sub_groups.simps [simp del]

definition all_sub_groups :: "'f \<Rightarrow> nat \<Rightarrow> nat \<Rightarrow> 'f list \<Rightarrow> 'f list list" where
  "all_sub_groups zero sg groups deviceData =
     concat (map (\<lambda>g. sub_groups sg (local_cache zero deviceData g)) [0..<groups])"

text \<open>The values the leaders add, one per sub-group; \<open>reduce k\<close> is what \<^verbatim>\<open>reduce_over_group\<close>
  returns in the \<open>k\<close>-th sub-group.\<close>

definition leader_sums :: "(nat \<Rightarrow> 'f list \<Rightarrow> 'f) \<Rightarrow> 'f \<Rightarrow> nat \<Rightarrow> nat \<Rightarrow> 'f list \<Rightarrow> 'f list" where
  "leader_sums reduce zero sg groups deviceData =
     (let gs = all_sub_groups zero sg groups deviceData in map (\<lambda>k. reduce k (gs ! k)) [0..<length gs])"

text \<open>The atomic additions to \<^verbatim>\<open>*deviceResult\<close>, which starts at \<^verbatim>\<open>0.0f\<close>, in the order
  \<open>schedule\<close> of the leaders.\<close>

definition atomic_adds :: "('f \<Rightarrow> 'f \<Rightarrow> 'f) \<Rightarrow> 'f \<Rightarrow> 'f list \<Rightarrow> nat list \<Rightarrow> 'f" where
  "atomic_adds fadd zero group_sums schedule = foldl (\<lambda>acc k. fadd acc (group_sums ! k)) zero schedule"

text \<open>The host function: its first vector parameter \<^verbatim>\<open>input\<close> is not used.\<close>

definition executeIntelHeterogeneousCompute ::
  "('f \<Rightarrow> 'f \<Rightarrow> 'f) \<Rightarrow> 'f \<Rightarrow> (nat \<Rightarrow> 'f list \<Rightarrow> 'f) \<Rightarrow> nat \<Rightarrow> nat list \<Rightarrow> 'f list \<Rightarrow> 'f list \<Rightarrow> 'f" where
  "executeIntelHeterogeneousCompute fadd zero reduce sg schedule input inputData =
     (let dataSize = of_nat (length inputData);
          groups = unat (numWorkItems dataSize) div unat workGroupSize
      in atomic_adds fadd zero (leader_sums reduce zero sg groups inputData) schedule)"

text \<open>The orders of the atomic additions: every leader of every work-group once.\<close>

definition leaders_schedule :: "nat \<Rightarrow> nat \<Rightarrow> nat list \<Rightarrow> bool" where
  "leaders_schedule sg dataSize schedule \<longleftrightarrow> mset schedule = mset
     [0..<unat (numWorkItems (of_nat dataSize)) div unat workGroupSize * length (sub_groups sg [0..<unat workGroupSize])]"

section \<open>Summation orders\<close>

text \<open>A way to add up values: which are combined with which.\<close>

datatype 'f sum_tree = Leaf 'f | Plus "'f sum_tree" "'f sum_tree"

fun sum_eval :: "('f \<Rightarrow> 'f \<Rightarrow> 'f) \<Rightarrow> 'f sum_tree \<Rightarrow> 'f" where
  "sum_eval fadd (Leaf x) = x"
| "sum_eval fadd (Plus l r) = fadd (sum_eval fadd l) (sum_eval fadd r)"

fun leaves :: "'f sum_tree \<Rightarrow> 'f multiset" where
  "leaves (Leaf x) = {#x#}"
| "leaves (Plus l r) = leaves l + leaves r"

text \<open>The documented contract of \<^verbatim>\<open>reduce_over_group\<close>: the values of the group combined in some
  order.\<close>

definition group_reduction :: "('f \<Rightarrow> 'f \<Rightarrow> 'f) \<Rightarrow> (nat \<Rightarrow> 'f list \<Rightarrow> 'f) \<Rightarrow> bool" where
  "group_reduction fadd reduce \<longleftrightarrow>
     (\<forall>k xs. xs \<noteq> [] \<longrightarrow> (\<exists>t. leaves t = mset xs \<and> reduce k xs = sum_eval fadd t))"

lemma concat_sub_groups: "0 < sg \<Longrightarrow> concat (sub_groups sg xs) = xs \<and> [] \<notin> set (sub_groups sg xs)"
proof (induction sg xs rule: sub_groups.induct)
  case (1 sg xs)
  then show ?case by (auto simp: sub_groups.simps [of sg xs])
qed

lemma length_sub_groups_cong: "length xs = length ys \<Longrightarrow> length (sub_groups sg xs) = length (sub_groups sg ys)"
proof (induction sg xs arbitrary: ys rule: sub_groups.induct)
  case (1 sg xs)
  then show ?case by (auto simp: sub_groups.simps [of sg xs] sub_groups.simps [of sg ys])
qed

lemma length_all_sub_groups: "length (all_sub_groups z sg m xs) = m * length (sub_groups sg [0..<256])"
proof (induction m)
  case (Suc m)
  have "length (sub_groups sg (local_cache z xs m)) = length (sub_groups sg [0..<256])"
    by (rule length_sub_groups_cong) (simp add: local_cache_def)
  then show ?case using Suc by (simp add: all_sub_groups_def)
qed (simp add: all_sub_groups_def)

text \<open>The work-groups hold the data, in order, and the padding.\<close>

lemma concat_local_caches:
  assumes "length xs \<le> m * 256"
  shows "concat (map (local_cache zero xs) [0..<m]) = xs @ replicate (m * 256 - length xs) zero"
proof -
  let ?f = "\<lambda>i. if i < length xs then xs ! i else zero"
  have "concat (map (local_cache zero xs) [0..<m]) = map ?f [0..<m * 256]"
  proof (induction m)
    case (Suc m)
    have "[0..<Suc m * 256] = [0..<m * 256] @ map (\<lambda>l. m * 256 + l) [0..<256]"
      using upt_add_eq_append [of 0 "m * 256" 256] by (simp add: add.commute map_add_upt)
    then show ?case using Suc by (simp add: local_cache_def Let_def)
  qed simp
  also have "\<dots> = map ?f [0..<length xs] @ map ?f [length xs..<m * 256]"
    using assms upt_add_eq_append [of 0 "length xs" "m * 256 - length xs"] by simp
  also have "map ?f [0..<length xs] = xs" by (rule nth_equalityI) simp_all
  also have "map ?f [length xs..<m * 256] = replicate (m * 256 - length xs) zero"
    by (rule nth_equalityI) simp_all
  finally show ?thesis .
qed

lemma concat_all_sub_groups:
  assumes "0 < sg" and "length xs \<le> m * 256"
  shows "concat (all_sub_groups zero sg m xs) = xs @ replicate (m * 256 - length xs) zero"
    and "[] \<notin> set (all_sub_groups zero sg m xs)"
proof -
  have "concat (all_sub_groups zero sg m xs) = concat (map (local_cache zero xs) [0..<m])"
    by (induction m) (simp_all add: all_sub_groups_def concat_sub_groups [OF assms(1)])
  then show "concat (all_sub_groups zero sg m xs) = xs @ replicate (m * 256 - length xs) zero"
    using concat_local_caches [OF assms(2)] by simp
  show "[] \<notin> set (all_sub_groups zero sg m xs)"
    using concat_sub_groups [OF assms(1)] by (auto simp: all_sub_groups_def)
qed

text \<open>Adding the results of trees one after the other is again a tree.\<close>

lemma foldl_tree:
  assumes "\<And>k. k \<in> set ks \<Longrightarrow> \<exists>t. leaves t = L k \<and> sum_eval fadd t = v k"
  shows "\<exists>t. sum_eval fadd t = foldl (\<lambda>acc k. fadd acc (v k)) z ks \<and> leaves t = add_mset z (\<Sum>k \<in># mset ks. L k)"
  using assms
proof (induction ks rule: rev_induct)
  case Nil
  show ?case by (rule exI [of _ "Leaf z"]) simp
next
  case (snoc k ks)
  then obtain t where t: "sum_eval fadd t = foldl (\<lambda>acc k. fadd acc (v k)) z ks"
    "leaves t = add_mset z (\<Sum>k \<in># mset ks. L k)" by auto
  obtain t' where t': "leaves t' = L k" "sum_eval fadd t' = v k" using snoc.prems by auto
  show ?case by (rule exI [of _ "Plus t t'"]) (simp add: t t')
qed

lemma sequential_reduction: "group_reduction fadd (\<lambda>_ xs. foldl fadd (hd xs) (tl xs))"
proof -
  have "\<exists>t. leaves t = mset xs \<and> foldl fadd (hd xs) (tl xs) = sum_eval fadd t" if ne: "xs \<noteq> []" for xs
  proof -
    have "\<exists>t. leaves t = {#x#} \<and> sum_eval fadd t = x" for x by (rule exI [of _ "Leaf x"]) simp
    then obtain t where "sum_eval fadd t = foldl fadd (hd xs) (tl xs)"
      "leaves t = add_mset (hd xs) (\<Sum>x \<in># mset (tl xs). {#x#})"
      using foldl_tree [of "tl xs" "\<lambda>x. {#x#}" fadd "\<lambda>x. x" "hd xs"] by auto
    then show ?thesis using ne by (intro exI [of _ t]) (cases xs; simp)
  qed
  then show ?thesis by (simp add: group_reduction_def)
qed

lemma sum_mset_nths: "(\<Sum>k \<in># mset [0..<length gs]. mset (gs ! k)) = mset (concat gs)"
proof (induction gs rule: rev_induct)
  case (snoc g gs)
  have "(\<Sum>k \<in># mset [0..<length gs]. mset ((gs @ [g]) ! k)) = (\<Sum>k \<in># mset [0..<length gs]. mset (gs ! k))"
    by (rule arg_cong [where f = sum_mset], rule image_mset_cong) (simp add: nth_append)
  then show ?case using snoc by simp
qed simp

lemma numWorkItems_covers:
  assumes "n < 2 ^ 64 - 255"
  shows "unat (numWorkItems (of_nat n)) = (n + 255) div 256 * 256"
proof -
  have n: "unat (of_nat n + 255 :: size_t) = n + 255"
  proof -
    have "(of_nat n + 255 :: size_t) = of_nat (n + 255)" by simp
    then show ?thesis using assms by (simp only: unat_of_nat) simp
  qed
  then have d: "unat ((of_nat n + 255 :: size_t) div 256) = (n + 255) div 256"
    by (simp add: unat_div)
  have "(n + 255) div 256 * 256 \<le> n + 255" by (rule div_times_less_eq_dividend)
  then have "(n + 255) div 256 * 256 < 2 ^ 64" using assms by linarith
  moreover have "numWorkItems (of_nat n) = ((of_nat n + 255 :: size_t) div 256) * 256"
    by (simp add: numWorkItems_def workGroupSize_def add.commute)
  then have "unat (numWorkItems (of_nat n)) = (n + 255) div 256 * 256 mod 2 ^ 64"
    using d by (simp only: unat_word_ariths(2)) simp
  ultimately show ?thesis by simp
qed

text \<open>The whole program as one summation order.\<close>

lemma execute_tree:
  assumes "group_reduction fadd reduce" and sg: "0 < sg" and n: "length inputData < 2 ^ 64 - 255"
    and sch: "leaders_schedule sg (length inputData) schedule"
  shows "\<exists>t. sum_eval fadd t = executeIntelHeterogeneousCompute fadd zero reduce sg schedule input inputData
    \<and> leaves t = add_mset zero (mset inputData
         + replicate_mset (unat (numWorkItems (of_nat (length inputData))) - length inputData) zero)"
proof -
  let ?m = "unat (numWorkItems (of_nat (length inputData))) div unat workGroupSize"
  let ?gs = "all_sub_groups zero sg ?m inputData"
  have m: "?m = (length inputData + 255) div 256" "unat (numWorkItems (of_nat (length inputData))) = ?m * 256"
    using numWorkItems_covers [OF n] by (simp_all add: workGroupSize_def)
  then have "length inputData \<le> ?m * 256" by simp
  note gs = concat_all_sub_groups [OF sg this, of zero]
  have sch': "mset schedule = mset [0..<length ?gs]"
    using sch by (simp add: leaders_schedule_def length_all_sub_groups workGroupSize_def)
  have "\<exists>t. leaves t = mset (?gs ! k) \<and> sum_eval fadd t = leader_sums reduce zero sg ?m inputData ! k"
    if "k \<in> set schedule" for k
  proof -
    have k: "k < length ?gs" using that sch' by (metis atLeast_upt lessThan_iff set_mset_mset)
    then have "?gs ! k \<noteq> []" using gs(2) by (metis nth_mem)
    then obtain t where "leaves t = mset (?gs ! k)" "reduce k (?gs ! k) = sum_eval fadd t"
      using assms(1) unfolding group_reduction_def by blast
    moreover have "leader_sums reduce zero sg ?m inputData ! k = reduce k (?gs ! k)"
      unfolding leader_sums_def Let_def using k by simp
    ultimately show ?thesis by auto
  qed
  from foldl_tree [of schedule "\<lambda>k. mset (?gs ! k)" fadd "\<lambda>k. leader_sums reduce zero sg ?m inputData ! k" zero, OF this]
  obtain t where "sum_eval fadd t = atomic_adds fadd zero (leader_sums reduce zero sg ?m inputData) schedule"
    "leaves t = add_mset zero (\<Sum>k \<in># mset schedule. mset (?gs ! k))"
    by (auto simp: atomic_adds_def)
  then show ?thesis
    unfolding sch' sum_mset_nths gs(1) using m(2)
    by (intro exI [of _ t]) (simp add: executeIntelHeterogeneousCompute_def Let_def)
qed

section \<open>Rounding\<close>

text \<open>The rounding of float addition: a sum of magnitude up to \<open>big\<close>, the largest finite float, is
  rounded with relative error at most \<open>u\<close>. \<open>val\<close> is the real number a float stands for.\<close>

definition float_rounding :: "('f \<Rightarrow> 'f \<Rightarrow> 'f) \<Rightarrow> ('f \<Rightarrow> real) \<Rightarrow> real \<Rightarrow> real \<Rightarrow> bool" where
  "float_rounding fadd val u big \<longleftrightarrow> 0 \<le> u \<and>
     (\<forall>a b. \<bar>val a + val b\<bar> \<le> big \<longrightarrow> \<bar>val (fadd a b) - (val a + val b)\<bar> \<le> u * \<bar>val a + val b\<bar>)"

text \<open>The number of additions of a tree, and the sum of the magnitudes it adds.\<close>

fun additions :: "'f sum_tree \<Rightarrow> nat" where
  "additions (Leaf x) = 0"
| "additions (Plus l r) = Suc (additions l + additions r)"

definition exact_sum :: "('f \<Rightarrow> real) \<Rightarrow> 'f sum_tree \<Rightarrow> real" where
  "exact_sum val t = (\<Sum>x \<in># leaves t. val x)"

definition magnitude :: "('f \<Rightarrow> real) \<Rightarrow> 'f sum_tree \<Rightarrow> real" where
  "magnitude val t = (\<Sum>x \<in># leaves t. \<bar>val x\<bar>)"

lemma size_leaves: "size (leaves t) = Suc (additions t)"
  by (induction t) simp_all

lemma exact_sum_le: "\<bar>exact_sum val t\<bar> \<le> magnitude val t"
  by (induction t) (simp_all add: exact_sum_def magnitude_def)

lemma magnitude_nonneg: "0 \<le> magnitude val t"
  by (induction t) (simp_all add: magnitude_def)

lemma power_step:
  fixes u :: real
  assumes "0 \<le> u" and "i \<le> j"
  shows "1 \<le> (1 + u) ^ i" "(1 + u) ^ i \<le> (1 + u) ^ j"
  using assms by (simp_all add: one_le_power power_increasing)

text \<open>The rounding error of any summation order.\<close>

lemma sum_tree_error:
  assumes fr: "float_rounding fadd val u big" and "(1 + u) ^ additions t * magnitude val t \<le> big"
  shows "\<bar>val (sum_eval fadd t) - exact_sum val t\<bar> \<le> ((1 + u) ^ additions t - 1) * magnitude val t"
  using assms(2)
proof (induction t)
  case (Leaf x)
  then show ?case by (simp add: exact_sum_def magnitude_def)
next
  case (Plus l r)
  let ?k = "additions l + additions r" and ?p = "\<lambda>n. (1 + u) ^ n"
  let ?el = "val (sum_eval fadd l)" and ?er = "val (sum_eval fadd r)"
  let ?ml = "magnitude val l" and ?mr = "magnitude val r"
  have u: "0 \<le> u" using fr by (simp add: float_rounding_def)
  have split: "exact_sum val (Plus l r) = exact_sum val l + exact_sum val r"
    "magnitude val (Plus l r) = ?ml + ?mr" by (simp_all add: exact_sum_def magnitude_def)
  note pos = magnitude_nonneg [of val l] magnitude_nonneg [of val r]
  have pk: "?p (additions l) \<le> ?p ?k" "?p (additions r) \<le> ?p ?k" "1 \<le> ?p ?k" "?p ?k \<le> ?p (Suc ?k)"
    using power_step(1) [OF u order_refl, of ?k] power_step(2) [OF u, of "additions l" ?k]
      power_step(2) [OF u, of "additions r" ?k] power_step(2) [OF u, of ?k "Suc ?k"] by simp_all
  have bound: "?p ?k * ?ml + ?p ?k * ?mr \<le> ?p (Suc ?k) * (?ml + ?mr)"
    using mult_right_mono [OF pk(4), of "?ml + ?mr"] pos by (simp add: distrib_left)
  have big: "?p (Suc ?k) * (?ml + ?mr) \<le> big" using Plus.prems split by simp
  have small: "?p (additions l) * ?ml \<le> ?p ?k * ?ml" "?p (additions r) * ?mr \<le> ?p ?k * ?mr"
    using pk pos by (simp_all add: mult_right_mono)
  have nn: "0 \<le> ?p ?k * ?ml" "0 \<le> ?p ?k * ?mr" using pk(3) pos by simp_all
  have "\<bar>?el - exact_sum val l\<bar> \<le> (?p (additions l) - 1) * ?ml"
    using Plus.IH(1) small(1) nn bound big by linarith
  then have el: "\<bar>?el - exact_sum val l\<bar> \<le> ?p ?k * ?ml - ?ml" using small(1) by (simp add: left_diff_distrib)
  have "\<bar>?er - exact_sum val r\<bar> \<le> (?p (additions r) - 1) * ?mr"
    using Plus.IH(2) small(2) nn bound big by linarith
  then have er: "\<bar>?er - exact_sum val r\<bar> \<le> ?p ?k * ?mr - ?mr" using small(2) by (simp add: left_diff_distrib)
  have abs: "\<bar>?el + ?er\<bar> \<le> ?p ?k * ?ml + ?p ?k * ?mr"
    using el er exact_sum_le [of val l] exact_sum_le [of val r] by linarith
  then have "\<bar>?el + ?er\<bar> \<le> big" using bound big by linarith
  then have "\<bar>val (fadd (sum_eval fadd l) (sum_eval fadd r)) - (?el + ?er)\<bar> \<le> u * \<bar>?el + ?er\<bar>"
    using fr by (simp add: float_rounding_def)
  also have "\<dots> \<le> u * (?p ?k * ?ml + ?p ?k * ?mr)" using abs u by (rule mult_left_mono)
  finally have e: "\<bar>val (fadd (sum_eval fadd l) (sum_eval fadd r)) - (?el + ?er)\<bar> \<le> u * (?p ?k * ?ml + ?p ?k * ?mr)" .
  have rhs: "(?p (Suc ?k) - 1) * (?ml + ?mr) = u * (?p ?k * ?ml + ?p ?k * ?mr) + (?p ?k * ?ml - ?ml) + (?p ?k * ?mr - ?mr)"
    by (simp add: algebra_simps)
  show ?case
    unfolding split sum_eval.simps additions.simps rhs using e el er by linarith
qed

text \<open>How far the result can be from the real sum.\<close>

lemma reduction_rounding_error:
  assumes "group_reduction fadd reduce" and "0 < sg" and "length inputData < 2 ^ 64 - 255"
    and "leaders_schedule sg (length inputData) schedule" and "float_rounding fadd val u big" and "val zero = 0"
    and "(1 + u) ^ unat (numWorkItems (of_nat (length inputData))) * (\<Sum>x \<leftarrow> inputData. \<bar>val x\<bar>) \<le> big"
  shows "\<bar>val (executeIntelHeterogeneousCompute fadd zero reduce sg schedule input inputData) - (\<Sum>x \<leftarrow> inputData. val x)\<bar>
    \<le> ((1 + u) ^ unat (numWorkItems (of_nat (length inputData))) - 1) * (\<Sum>x \<leftarrow> inputData. \<bar>val x\<bar>)"
proof -
  let ?n = "unat (numWorkItems (of_nat (length inputData)))"
  obtain t where t: "sum_eval fadd t = executeIntelHeterogeneousCompute fadd zero reduce sg schedule input inputData"
    "leaves t = add_mset zero (mset inputData + replicate_mset (?n - length inputData) zero)"
    using execute_tree [OF assms(1-4)] by blast
  have "length inputData \<le> ?n" using numWorkItems_covers [OF assms(3)] by simp
  then have "additions t = ?n" using size_leaves [of t] t(2) by simp
  moreover have "exact_sum val t = (\<Sum>x \<leftarrow> inputData. val x)" "magnitude val t = (\<Sum>x \<leftarrow> inputData. \<bar>val x\<bar>)"
    using assms(6) by (simp_all add: exact_sum_def magnitude_def t(2) sum_mset_sum_list [symmetric] mset_map [symmetric] del: mset_map)
  ultimately show ?thesis using sum_tree_error [OF assms(5), of t] assms(7) t(1) by simp
qed

text \<open>An addition that always rounds towards zero by the relative error of single precision.\<close>

definition sample_fadd :: "real \<Rightarrow> real \<Rightarrow> real" where
  "sample_fadd a b = (1 - 1 / 2 ^ 24) * (a + b)"

lemma sample_fadd_rounding: "float_rounding sample_fadd id (1 / 2 ^ 24) big"
proof -
  have "sample_fadd a b - (a + b) = - (1 / 2 ^ 24) * (a + b)" for a b
    unfolding sample_fadd_def left_diff_distrib by simp
  then show ?thesis by (simp add: float_rounding_def abs_mult)
qed

section \<open>Properties\<close>

text \<open>C21. Every input element enters the result exactly once. Whatever float addition is, whatever
  sub-group size the device chooses, however it reduces a sub-group and in whatever order the
  leaders perform their atomic additions, the result is the value of one way to add up the elements
  of the input vector together with one \<^verbatim>\<open>0.0f\<close> for the initial value of the result and one for
  each padding work item. The value depends on these choices, because float addition rounds, but not by
  much: if addition has relative error at most \<open>u\<close> below the overflow threshold \<open>big\<close> and the sum of
  magnitudes is small enough that no partial sum can overflow, the error is at most
  \<open>((1 + u) ^ numWorkItems - 1)\<close> times the sum of the magnitudes of the input.\<close>

theorem reduction_adds_each_element_once:
  assumes "group_reduction fadd reduce" and "0 < sg" and "length inputData < 2 ^ 64 - 255"
    and "leaders_schedule sg (length inputData) schedule"
  shows "(\<exists>t. sum_eval fadd t = executeIntelHeterogeneousCompute fadd zero reduce sg schedule input inputData
      \<and> leaves t = add_mset zero (mset inputData
           + replicate_mset (unat (numWorkItems (of_nat (length inputData))) - length inputData) zero))
    \<and> (\<forall>val u big. float_rounding fadd val u big \<and> val zero = 0
        \<and> (1 + u) ^ unat (numWorkItems (of_nat (length inputData))) * (\<Sum>x \<leftarrow> inputData. \<bar>val x\<bar>) \<le> big \<longrightarrow>
        \<bar>val (executeIntelHeterogeneousCompute fadd zero reduce sg schedule input inputData) - (\<Sum>x \<leftarrow> inputData. val x)\<bar>
          \<le> ((1 + u) ^ unat (numWorkItems (of_nat (length inputData))) - 1) * (\<Sum>x \<leftarrow> inputData. \<bar>val x\<bar>))"
  using execute_tree [OF assms] reduction_rounding_error [OF assms] by blast

theorem reduction_adds_each_element_once_witness:
  "(\<exists>t. sum_eval sample_fadd t = executeIntelHeterogeneousCompute sample_fadd 0
       (\<lambda>_ xs. foldl sample_fadd (hd xs) (tl xs)) 128 [1, 0] [] [3, 4, 35]
     \<and> leaves t = add_mset 0 (mset [3, 4, 35] + replicate_mset 253 0))
   \<and> \<bar>executeIntelHeterogeneousCompute sample_fadd 0 (\<lambda>_ xs. foldl sample_fadd (hd xs) (tl xs)) 128 [1, 0] [] [3, 4, 35] - 42\<bar>
     \<le> ((1 + 1 / 2 ^ 24) ^ 256 - 1) * 42"
proof -
  have n: "unat (numWorkItems (of_nat (length [3, 4, 35 :: real]))) = 256"
    by (simp add: numWorkItems_def workGroupSize_def)
  have l: "leaders_schedule 128 (length [3, 4, 35 :: real]) [1, 0]"
    unfolding leaders_schedule_def n by (simp add: workGroupSize_def sub_groups.simps [of 128] upt_rec)
  have len: "length [3, 4, 35 :: real] < 2 ^ 64 - 255" "(0 :: nat) < 128" by simp_all
  note r = reduction_adds_each_element_once [OF sequential_reduction len(2,1) l, of sample_fadd 0 "[]", unfolded n]
  show ?thesis
  proof (rule conjI)
    show "\<exists>t. sum_eval sample_fadd t = executeIntelHeterogeneousCompute sample_fadd 0
       (\<lambda>_ xs. foldl sample_fadd (hd xs) (tl xs)) 128 [1, 0] [] [3, 4, 35]
       \<and> leaves t = add_mset 0 (mset [3, 4, 35] + replicate_mset 253 0)"
      using conjunct1 [OF r] by simp
    show "\<bar>executeIntelHeterogeneousCompute sample_fadd 0 (\<lambda>_ xs. foldl sample_fadd (hd xs) (tl xs)) 128 [1, 0] [] [3, 4, 35] - 42\<bar>
      \<le> ((1 + 1 / 2 ^ 24) ^ 256 - 1) * 42"
      using conjunct2 [OF r, rule_format, of id "1 / 2 ^ 24" "(1 + 1 / 2 ^ 24) ^ 256 * 42"] sample_fadd_rounding by simp
  qed
qed

end
