(* ===== verification/Tensor_Core.thy ===== *)
theory Tensor_Core
  imports Prelude
begin

text \<open>
  \<^verbatim>\<open>src/03-Hardware-Acceleration-and-Networking/tensor-core-matrix.cpp\<close>: the matrix kernel
  \<^verbatim>\<open>tensorCoreMatMulKernel\<close> as one warp executes it, with the addressing of the warp-matrix
  functions written out: a fragment is a function of row and column, a row-major load reads
  \<open>p + row * ldm + col\<close>, a column-major load reads \<open>p + col * ldm + row\<close>. The multiplication
  of fragments is the hardware's, with its rounding of half and float: it is the argument \<open>mma\<close>,
  of which nothing is assumed, and \<open>zero\<close> is \<^verbatim>\<open>0.0f\<close>. Index computations are those of 32-bit
  \<^verbatim>\<open>int\<close>; the kernel stops with a fault on signed overflow and on an access outside an array.
\<close>

section \<open>Fragments\<close>

type_synonym 'a fragment = "nat \<Rightarrow> nat \<Rightarrow> 'a"

type_synonym ('h, 'f) mma_unit = "'h fragment \<Rightarrow> 'h fragment \<Rightarrow> 'f fragment \<Rightarrow> 'f fragment"

datatype wmma_fault = IntOverflow | OutOfBounds

definition WMMA_M :: int where "WMMA_M = 16"
definition WMMA_N :: int where "WMMA_N = 16"
definition WMMA_K :: int where "WMMA_K = 16"

text \<open>A 16 by 16 tile at \<open>p\<close> with leading dimension \<open>ldm\<close> is inside an array of length \<open>n\<close>.\<close>

definition tile_inside :: "int \<Rightarrow> int \<Rightarrow> nat \<Rightarrow> bool" where
  "tile_inside p ldm n \<longleftrightarrow> 0 \<le> p \<and> 0 \<le> ldm \<and> p + 15 * ldm + 15 < int n"

definition load_row_major :: "'a list \<Rightarrow> int \<Rightarrow> int \<Rightarrow> wmma_fault + 'a fragment" where
  "load_row_major mem p ldm =
     (if tile_inside p ldm (length mem) then Inr (\<lambda>r c. mem ! (nat p + r * nat ldm + c)) else Inl OutOfBounds)"

definition load_col_major :: "'a list \<Rightarrow> int \<Rightarrow> int \<Rightarrow> wmma_fault + 'a fragment" where
  "load_col_major mem p ldm =
     (if tile_inside p ldm (length mem) then Inr (\<lambda>r c. mem ! (nat p + c * nat ldm + r)) else Inl OutOfBounds)"

definition store_row_major :: "'a list \<Rightarrow> int \<Rightarrow> int \<Rightarrow> 'a fragment \<Rightarrow> wmma_fault + 'a list" where
  "store_row_major mem p ldm f =
     (if tile_inside p ldm (length mem)
      then Inr (fold (\<lambda>(r, c) m. m[nat p + r * nat ldm + c := f r c]) (List.product [0..<16] [0..<16]) mem)
      else Inl OutOfBounds)"

section \<open>The kernel\<close>

text \<open>The position of a warp in the grid, from the thread's indices, which are unsigned 32-bit
  numbers (warps have 32 threads).\<close>

definition warp_position :: "u32 \<Rightarrow> u32 \<Rightarrow> u32 \<Rightarrow> u32 \<Rightarrow> u32 \<Rightarrow> u32 \<Rightarrow> int \<times> int" where
  "warp_position blockIdx_x blockDim_x threadIdx_x blockIdx_y blockDim_y threadIdx_y =
     (sint ((blockIdx_x * blockDim_x + threadIdx_x) div 32), sint (blockIdx_y * blockDim_y + threadIdx_y))"

text \<open>The body of the loop over the K dimension. In \<^verbatim>\<open>a + aRow * K + aCol\<close> the product is an
  \<^verbatim>\<open>int\<close>, the sums are pointer arithmetic.\<close>

definition k_step :: "('h, 'f) mma_unit \<Rightarrow> 'h list \<Rightarrow> 'h list \<Rightarrow> int \<Rightarrow> int \<Rightarrow> int \<Rightarrow> int \<Rightarrow> int \<Rightarrow> int
    \<Rightarrow> 'f fragment \<Rightarrow> wmma_fault + 'f fragment" where
  "k_step mma a b M N K warpM warpN i c_frag =
     and_then (checked IntOverflow (warpM * WMMA_M)) (\<lambda>aRow.
     and_then (checked IntOverflow (warpN * WMMA_N)) (\<lambda>bCol.
       let aCol = i; bRow = i in
       if aRow < M \<and> aCol < K \<and> bRow < K \<and> bCol < N then
         and_then (checked IntOverflow (aRow * K)) (\<lambda>a_off.
         and_then (load_row_major a (a_off + aCol) K) (\<lambda>a_frag.
         and_then (checked IntOverflow (bRow * N)) (\<lambda>b_off.
         and_then (load_col_major b (b_off + bCol) N) (\<lambda>b_frag.
           Inr (mma a_frag b_frag c_frag)))))
       else Inr c_frag))"

function k_loop :: "('h, 'f) mma_unit \<Rightarrow> 'h list \<Rightarrow> 'h list \<Rightarrow> int \<Rightarrow> int \<Rightarrow> int \<Rightarrow> int \<Rightarrow> int \<Rightarrow> int
    \<Rightarrow> 'f fragment \<Rightarrow> wmma_fault + 'f fragment" where
  "k_loop mma a b M N K warpM warpN i c_frag =
     (if i < K then
        (case k_step mma a b M N K warpM warpN i c_frag of
           Inl e \<Rightarrow> Inl e
         | Inr c_frag' \<Rightarrow>
             if int32 (i + WMMA_K) then k_loop mma a b M N K warpM warpN (i + WMMA_K) c_frag'
             else Inl IntOverflow)
      else Inr c_frag)"
  by pat_completeness auto
termination
  by (relation "measure (\<lambda>(mma, a, b, M, N, K, wm, wn, i, c). nat (K - i))") (auto simp: WMMA_K_def)

declare k_loop.simps [simp del]

definition tensorCoreMatMulKernel ::
  "('h, 'f) mma_unit \<Rightarrow> 'f \<Rightarrow> 'h list \<Rightarrow> 'h list \<Rightarrow> 'f list \<Rightarrow> int \<Rightarrow> int \<Rightarrow> int \<Rightarrow> int \<Rightarrow> int \<Rightarrow> wmma_fault + 'f list" where
  "tensorCoreMatMulKernel mma zero a b c M N K warpM warpN =
     and_then (k_loop mma a b M N K warpM warpN 0 (\<lambda>i j. zero)) (\<lambda>c_frag.
     and_then (checked IntOverflow (warpM * WMMA_M)) (\<lambda>cRow.
     and_then (checked IntOverflow (warpN * WMMA_N)) (\<lambda>cCol.
       if cRow < M \<and> cCol < N
       then and_then (checked IntOverflow (cRow * N)) (\<lambda>c_off. store_row_major c (c_off + cCol) N c_frag)
       else Inr c)))"

section \<open>Addresses of tiles\<close>

lemmas wmma_sizes = WMMA_M_def WMMA_N_def WMMA_K_def

lemma load_store_nat:
  "load_row_major mem (int p) (int ldm) =
     (if p + 15 * ldm + 15 < length mem then Inr (\<lambda>r c. mem ! (p + r * ldm + c)) else Inl OutOfBounds)"
  "load_col_major mem (int p) (int ldm) =
     (if p + 15 * ldm + 15 < length mem then Inr (\<lambda>r c. mem ! (p + c * ldm + r)) else Inl OutOfBounds)"
  "store_row_major mem' (int p) (int ldm) f =
     (if p + 15 * ldm + 15 < length mem'
      then Inr (fold (\<lambda>(r, c) m. m[p + r * ldm + c := f r c]) (List.product [0..<16] [0..<16]) mem')
      else Inl OutOfBounds)"
  by (auto simp: load_row_major_def load_col_major_def store_row_major_def tile_inside_def)

text \<open>A tile inside a matrix.\<close>

lemma tile_inside_matrix:
  assumes "r + 16 \<le> (R::nat)" and "c + 16 \<le> C"
  shows "r * C + c + 15 * C + 15 < R * C"
proof -
  have "r * C + c + 15 * C + 15 < r * C + 16 * C" using assms(2) by simp
  also have "\<dots> = (r + 16) * C" by (simp add: algebra_simps)
  also have "\<dots> \<le> R * C" using assms(1) by (rule mult_le_mono1)
  finally show ?thesis .
qed

text \<open>The tiles of \<open>a\<close>, and of \<open>b\<close> as the column-major fragment of a row-major matrix sees it:
  with rows and columns exchanged.\<close>

definition a_tile :: "'h list \<Rightarrow> nat \<Rightarrow> nat \<Rightarrow> nat \<Rightarrow> 'h fragment" where
  "a_tile a K wm t = (\<lambda>r k. a ! ((wm * 16 + r) * K + (t * 16 + k)))"

definition b_tile_exchanged :: "'h list \<Rightarrow> nat \<Rightarrow> nat \<Rightarrow> nat \<Rightarrow> 'h fragment" where
  "b_tile_exchanged b N wn t = (\<lambda>k j. b ! ((t * 16 + j) * N + (wn * 16 + k)))"

text \<open>The hypotheses on the sizes: the arrays are the matrices, no product of two dimensions
  overflows, and the warp's tile starts inside the grid.\<close>

definition grid_ok :: "'h list \<Rightarrow> 'h list \<Rightarrow> 'f list \<Rightarrow> nat \<Rightarrow> nat \<Rightarrow> nat \<Rightarrow> nat \<Rightarrow> nat \<Rightarrow> bool" where
  "grid_ok a b c M N K wm wn \<longleftrightarrow> length a = M * K \<and> length b = K * N \<and> length c = M * N
     \<and> M * K < 2 ^ 31 \<and> K * N < 2 ^ 31 \<and> M * N < 2 ^ 31 \<and> 0 < K \<and> wm * 16 < M \<and> wn * 16 < N"

definition full_tiles :: "nat \<Rightarrow> nat \<Rightarrow> nat \<Rightarrow> nat \<Rightarrow> nat \<Rightarrow> bool" where
  "full_tiles M N K wm wn \<longleftrightarrow> wm * 16 + 16 \<le> M \<and> wn * 16 + 16 \<le> N \<and> 16 dvd K"

lemma grid_ranges:
  assumes "grid_ok a b c M N K wm wn" and "i < K"
  shows "int32 (int (wm * 16))" "int32 (int (wn * 16))" "int32 (int (wm * 16 * K))" "int32 (int (i * N))"
    "int32 (int (wm * 16 * N))" "K < 2 ^ 31"
proof -
  have g: "M * K < 2 ^ 31" "K * N < 2 ^ 31" "M * N < 2 ^ 31" "0 < K" "wm * 16 < M" "wn * 16 < N"
    using assms(1) by (simp_all add: grid_ok_def)
  have "M \<le> M * K" "N \<le> K * N" "K \<le> K * N" using g(4,6) by (simp_all add: mult_le_cancel2)
  moreover have "wm * 16 * K \<le> M * K" "i * N \<le> K * N" "wm * 16 * N \<le> M * N"
    using g(5) assms(2) by (auto intro: mult_le_mono1)
  ultimately have "wm * 16 < 2 ^ 31" "wn * 16 < 2 ^ 31" "wm * 16 * K < 2 ^ 31" "i * N < 2 ^ 31"
    "wm * 16 * N < 2 ^ 31" "K < 2 ^ 31" using g by linarith+
  then show "int32 (int (wm * 16))" "int32 (int (wn * 16))" "int32 (int (wm * 16 * K))" "int32 (int (i * N))"
    "int32 (int (wm * 16 * N))" "K < 2 ^ 31" by (simp_all only: int32_of_nat)
qed

text \<open>The body of the loop at a column of tiles.\<close>

lemma k_step_eq:
  assumes g: "grid_ok a b c M N K wm wn" and i: "t * 16 < K"
  shows "k_step mma a b (int M) (int N) (int K) (int wm) (int wn) (int (t * 16)) acc =
    (if wm * 16 * K + t * 16 + 15 * K + 15 < length a \<and> t * 16 * N + wn * 16 + 15 * N + 15 < length b
     then Inr (mma (a_tile a K wm t) (b_tile_exchanged b N wn t) acc) else Inl OutOfBounds)"
proof -
  note r = grid_ranges [OF g i]
  have ta: "(wm * 16 + x) * K + (t * 16 + k) = wm * 16 * K + t * 16 + x * K + k"
    and tb: "(t * 16 + j) * N + (wn * 16 + k) = t * 16 * N + wn * 16 + j * N + k" for x k j
    by (simp_all add: algebra_simps)
  have la: "load_row_major a (int (wm * 16 * K) + int (t * 16)) (int K) =
      (if wm * 16 * K + t * 16 + 15 * K + 15 < length a then Inr (a_tile a K wm t) else Inl OutOfBounds)"
    unfolding of_nat_add [symmetric] load_store_nat a_tile_def by (simp only: ta)
  have lb: "load_col_major b (int (t * 16 * N) + int (wn * 16)) (int N) =
      (if t * 16 * N + wn * 16 + 15 * N + 15 < length b then Inr (b_tile_exchanged b N wn t) else Inl OutOfBounds)"
    unfolding of_nat_add [symmetric] load_store_nat b_tile_exchanged_def by (simp only: tb)
  have e: "int wm * 16 = int (wm * 16)" "int wn * 16 = int (wn * 16)" "int (wm * 16) * int K = int (wm * 16 * K)"
    "int (t * 16) * int N = int (t * 16 * N)" by simp_all
  have cond: "int (wm * 16) < int M \<and> int (t * 16) < int K \<and> int (t * 16) < int K \<and> int (wn * 16) < int N"
    using g i by (simp add: grid_ok_def)
  show ?thesis
    unfolding k_step_def wmma_sizes Let_def e checked_in_range [OF r(1)] checked_in_range [OF r(2)] and_then_simps
      if_P [OF cond] checked_in_range [OF r(3)] checked_in_range [OF r(4)] la lb
    by simp
qed

text \<open>A row-major store with a leading dimension of at least 16 writes every element of the
  tile once.\<close>

lemma tile_index_inj:
  assumes "16 \<le> (ldm::nat)" and "c < 16" and "c' < 16" and "p + r * ldm + c = p + r' * ldm + c'"
  shows "r = r' \<and> c = c'"
proof -
  have eq: "r * ldm + c = r' * ldm + c'" using assms(4) by simp
  have "c < ldm" "c' < ldm" using assms by simp_all
  then have "(r * ldm + c) div ldm = r" "(r' * ldm + c') div ldm = r'" by simp_all
  then have "r = r'" using eq by metis
  then show ?thesis using eq by simp
qed

lemma fold_store_nth:
  assumes "16 \<le> ldm" and "set rcs \<subseteq> {..<16} \<times> {..<16}" and "r < 16" and "c < 16"
    and "p + r * ldm + c < length mem"
  shows "fold (\<lambda>(r, c) m. m[p + r * ldm + c := f r c]) rcs mem ! (p + r * ldm + c) =
    (if (r, c) \<in> set rcs then f r c else mem ! (p + r * ldm + c))"
  using assms(2,5)
proof (induction rcs arbitrary: mem)
  case Nil
  then show ?case by simp
next
  case (Cons x rcs)
  obtain r' c' where x: "x = (r', c')" by fastforce
  have "p + r' * ldm + c' = p + r * ldm + c \<longleftrightarrow> (r', c') = (r, c)"
    using tile_index_inj [OF assms(1), of c' c p r' r] assms(4) Cons.prems x by auto
  then show ?case using Cons x by (auto simp: nth_list_update)
qed

lemma fold_store_other:
  assumes "\<And>r c. (r, c) \<in> set rcs \<Longrightarrow> p + r * ldm + c \<noteq> x"
  shows "fold (\<lambda>(r, c) m. m[p + r * ldm + c := f r c]) rcs mem ! x = mem ! x"
  using assms by (induction rcs arbitrary: mem) (auto simp: nth_list_update)

lemma length_fold_store: "length (fold (\<lambda>(r, c) m. m[p + r * ldm + c := f r c]) rcs mem) = length mem"
  by (induction rcs arbitrary: mem) auto

text \<open>The contents of a row-major matrix with \<open>N\<close> columns after a store at row \<open>16 wm\<close> and column
  \<open>16 wn\<close>.\<close>

lemma store_tile:
  assumes "length c = M * N" and "wm * 16 + 16 \<le> M" and "wn * 16 + 16 \<le> N"
  shows "\<exists>c'. store_row_major c (int (wm * 16 * N) + int (wn * 16)) (int N) f = Inr c' \<and> length c' = length c
    \<and> (\<forall>i < M. \<forall>j < N. c' ! (i * N + j) =
         (if i div 16 = wm \<and> j div 16 = wn then f (i mod 16) (j mod 16) else c ! (i * N + j)))"
proof -
  let ?p = "wm * 16 * N + wn * 16" and ?rcs = "List.product [0..<16] [0..<16]"
  let ?c = "fold (\<lambda>(r, c) m. m[?p + r * N + c := f r c]) ?rcs c"
  have st: "store_row_major c (int (wm * 16 * N) + int (wn * 16)) (int N) f = Inr ?c"
    unfolding of_nat_add [symmetric] load_store_nat using tile_inside_matrix [OF assms(2,3)] assms(1) by simp
  have idx: "?p + r * N + k = (wm * 16 + r) * N + (wn * 16 + k)" for r k by (simp add: algebra_simps)
  have "?c ! (i * N + j) = (if i div 16 = wm \<and> j div 16 = wn then f (i mod 16) (j mod 16) else c ! (i * N + j))"
    if ij: "i < M" "j < N" for i j
  proof (cases "i div 16 = wm \<and> j div 16 = wn")
    case True
    then have eq: "i * N + j = ?p + (i mod 16) * N + (j mod 16)"
      unfolding idx by (metis div_mult_mod_eq)
    have "i * N + j < i * N + N" using ij(2) by simp
    also have "\<dots> \<le> M * N" using ij(1) mult_le_mono1 [of "Suc i" M N] by simp
    finally have "?p + (i mod 16) * N + (j mod 16) < length c" using assms(1) eq by simp
    moreover have "set ?rcs \<subseteq> {..<16} \<times> {..<16}" by auto
    ultimately show ?thesis
      unfolding eq using fold_store_nth [of N ?rcs "i mod 16" "j mod 16" ?p c f] assms(3) True by simp
  next
    case False
    have "?p + r * N + k \<noteq> i * N + j" if "r < 16" "k < 16" for r k
    proof
      assume "?p + r * N + k = i * N + j"
      then have e: "(wm * 16 + r) * N + (wn * 16 + k) = i * N + j" unfolding idx .
      have "wn * 16 + k < N" using that assms(3) by simp
      then have "((wm * 16 + r) * N + (wn * 16 + k)) div N = wm * 16 + r" "(i * N + j) div N = i"
        using ij(2) by simp_all
      then have "i = wm * 16 + r" using e by metis
      moreover from this e have "j = wn * 16 + k" by simp
      ultimately show False using False that by simp
    qed
    then show ?thesis using False by (subst fold_store_other) auto
  qed
  then show ?thesis using st by (simp add: length_fold_store)
qed

text \<open>The loop over full tiles.\<close>

lemma k_loop_full:
  assumes g: "grid_ok a b c M N K wm wn" and full: "full_tiles M N K wm wn" and "K = T * 16" and "t \<le> T"
  shows "k_loop mma a b (int M) (int N) (int K) (int wm) (int wn) (int (t * 16)) acc =
    Inr (fold (\<lambda>s. mma (a_tile a K wm s) (b_tile_exchanged b N wn s)) [t..<T] acc)"
  using assms(4)
proof (induction "T - t" arbitrary: t acc)
  case 0
  then show ?case using assms(3) by (simp add: k_loop.simps)
next
  case (Suc d)
  then have t: "t < T" "t * 16 < K" "t * 16 + 16 \<le> K" using assms(3) by simp_all
  have len: "length a = M * K" "length b = K * N" using g by (simp_all add: grid_ok_def)
  have step: "k_step mma a b (int M) (int N) (int K) (int wm) (int wn) (int (t * 16)) acc =
      Inr (mma (a_tile a K wm t) (b_tile_exchanged b N wn t) acc)"
    using full t(3) tile_inside_matrix [of "wm * 16" M "t * 16" K] tile_inside_matrix [of "t * 16" K "wn * 16" N]
    unfolding k_step_eq [OF g t(2)] len full_tiles_def by simp
  have nx: "int (t * 16) + WMMA_K = int (Suc t * 16)" by (simp add: WMMA_K_def)
  have "int32 (int (Suc t * 16))"
    using t(3) grid_ranges(6) [OF g t(2)] by (intro int32_of_nat) simp
  then show ?case
    using Suc.hyps t step upt_conv_Cons [OF t(1)]
    by (subst k_loop.simps) (simp only: nx of_nat_less_iff if_True sum.case fold_simps comp_apply)
qed

text \<open>A partial tile is found at the latest in the last column of tiles.\<close>

lemma k_loop_partial:
  assumes g: "grid_ok a b c M N K wm wn" and part: "\<not> full_tiles M N K wm wn" and "t * 16 < K"
  shows "k_loop mma a b (int M) (int N) (int K) (int wm) (int wn) (int (t * 16)) acc = Inl OutOfBounds"
  using assms(3)
proof (induction "K - t * 16" arbitrary: t acc rule: less_induct)
  case less
  have len: "length a = M * K" "length b = K * N" using g by (simp_all add: grid_ok_def)
  have nx: "int (t * 16) + WMMA_K = int (Suc t * 16)" by (simp add: WMMA_K_def)
  show ?case
  proof (cases "Suc t * 16 < K")
    case True
    then have "int32 (int (Suc t * 16))"
      using grid_ranges(6) [OF g less.prems] by (intro int32_of_nat) simp
    moreover have "k_loop mma a b (int M) (int N) (int K) (int wm) (int wn) (int (Suc t * 16)) acc' = Inl OutOfBounds" for acc'
      using less.hyps [of "Suc t"] True by simp
    ultimately show ?thesis
      using less.prems by (subst k_loop.simps) (simp add: nx k_step_eq [OF g less.prems] del: of_nat_mult of_nat_Suc mult_Suc)
  next
    case False
    have "\<not> (wm * 16 * K + t * 16 + 15 * K + 15 < length a \<and> t * 16 * N + wn * 16 + 15 * N + 15 < length b)"
    proof (cases "M < wm * 16 + 16")
      case True
      then have "M * K \<le> (wm * 16 + 15) * K" by (intro mult_le_mono1) simp
      then show ?thesis using len by (simp add: algebra_simps)
    next
      case False2: False
      have "K * N \<le> t * 16 * N + wn * 16 + 15 * N + 15"
      proof (cases "Suc t * 16 = K")
        case True
        then have "\<not> wn * 16 + 16 \<le> N" using part False2 by (auto simp: full_tiles_def)
        then show ?thesis using True [symmetric] by (simp add: algebra_simps)
      next
        case neq: False
        then have "K \<le> t * 16 + 15" using False by simp
        then have "K * N \<le> (t * 16 + 15) * N" by (rule mult_le_mono1)
        then show ?thesis by (simp add: algebra_simps)
      qed
      then show ?thesis using len by simp
    qed
    then have "k_step mma a b (int M) (int N) (int K) (int wm) (int wn) (int (t * 16)) acc = Inl OutOfBounds"
      unfolding k_step_eq [OF g less.prems] by (rule if_not_P)
    then show ?thesis
      using less.prems by (subst k_loop.simps) (simp only: of_nat_less_iff if_True sum.case)
  qed
qed

text \<open>The kernel on a grid: the stored tile for full tiles, a fault otherwise.\<close>

lemma kernel_full:
  assumes g: "grid_ok a b c M N K wm wn" and full: "full_tiles M N K wm wn"
  shows "\<exists>c'. tensorCoreMatMulKernel mma zero a b c (int M) (int N) (int K) (int wm) (int wn) = Inr c' \<and> length c' = length c
    \<and> (\<forall>i < M. \<forall>j < N. c' ! (i * N + j) = (if i div 16 = wm \<and> j div 16 = wn
         then fold (\<lambda>t. mma (a_tile a K wm t) (b_tile_exchanged b N wn t)) [0..<K div 16] (\<lambda>_ _. zero) (i mod 16) (j mod 16)
         else c ! (i * N + j)))"
proof -
  let ?f = "fold (\<lambda>t. mma (a_tile a K wm t) (b_tile_exchanged b N wn t)) [0..<K div 16] (\<lambda>_ _. zero)"
  have K: "0 < K" "K = K div 16 * 16" "length c = M * N" using g full by (auto simp: grid_ok_def full_tiles_def)
  note r = grid_ranges [OF g K(1)]
  have kl: "k_loop mma a b (int M) (int N) (int K) (int wm) (int wn) 0 (\<lambda>i j. zero) = Inr ?f"
    using k_loop_full [OF g full K(2), of 0] by simp
  have e: "int wm * 16 = int (wm * 16)" "int wn * 16 = int (wn * 16)" "int (wm * 16) * int N = int (wm * 16 * N)"
    by simp_all
  have cond: "int (wm * 16) < int M \<and> int (wn * 16) < int N" using g by (simp add: grid_ok_def)
  have "tensorCoreMatMulKernel mma zero a b c (int M) (int N) (int K) (int wm) (int wn)
      = store_row_major c (int (wm * 16 * N) + int (wn * 16)) (int N) ?f"
    unfolding tensorCoreMatMulKernel_def kl wmma_sizes e checked_in_range [OF r(1)] checked_in_range [OF r(2)]
      and_then_simps if_P [OF cond] checked_in_range [OF r(5)] ..
  then show ?thesis using store_tile [OF K(3), of wm wn ?f] full by (simp add: full_tiles_def)
qed

section \<open>Properties\<close>


text \<open>Exact multiplication of fragments, for comparison with the matrix product.\<close>

definition exact_mma :: "(nat, nat) mma_unit" where
  "exact_mma a b c = (\<lambda>i j. c i j + (\<Sum>k < 16. a i k * b k j))"



text \<open>C38. The bounds check of the kernel looks only at the first element of a tile. On a grid whose
  products of dimensions fit an \<^verbatim>\<open>int\<close>, a warp whose tile starts inside the matrices accesses memory
  outside the arrays exactly when some tile is partial: in the rows of \<open>a\<close>, in the columns of \<open>b\<close>, or
  in the K dimension.\<close>

theorem partial_tile_out_of_bounds:
  assumes "grid_ok a b c M N K wm wn"
  shows "tensorCoreMatMulKernel mma zero a b c (int M) (int N) (int K) (int wm) (int wn) = Inl OutOfBounds
    \<longleftrightarrow> M < wm * 16 + 16 \<or> N < wn * 16 + 16 \<or> K mod 16 \<noteq> 0"
proof (cases "full_tiles M N K wm wn")
  case True
  then show ?thesis using kernel_full [OF assms True, of mma zero] by (auto simp: full_tiles_def)
next
  case False
  have "0 < K" using assms by (simp add: grid_ok_def)
  then have "tensorCoreMatMulKernel mma zero a b c (int M) (int N) (int K) (int wm) (int wn) = Inl OutOfBounds"
    using k_loop_partial [OF assms False, of 0 mma "\<lambda>i j. zero"] by (simp add: tensorCoreMatMulKernel_def)
  then show ?thesis using False by (auto simp: full_tiles_def dvd_eq_mod_eq_0)
qed

theorem partial_tile_out_of_bounds_witness:
  "tensorCoreMatMulKernel exact_mma 0 (replicate 256 1) (replicate (16 * 17) 1) (replicate (16 * 17) 0) 16 17 16 0 1
     = Inl OutOfBounds"
  using partial_tile_out_of_bounds [of "replicate 256 (1::nat)" "replicate (16 * 17) 1" "replicate (16 * 17) (0::nat)"
      16 17 16 0 1 exact_mma 0]
  by (simp add: grid_ok_def)

end
