(* ===== verification/Wifi_Frame.thy ===== *)
theory Wifi_Frame
  imports Prelude
begin

text \<open>
  \<^verbatim>\<open>src/03-Hardware-Acceleration-and-Networking/wifi-driver-firmware.c\<close>: the bit-fields of
  the frame control word, the packed MAC header and \<^verbatim>\<open>parse_wifi_beacon\<close>. Bit-fields are
  allocated from the least significant bit, as the little-endian ABI does.
\<close>

record ieee802_11_frame_control =
  protocol_version :: "2 word"
  fc_type :: "2 word"
  fc_subtype :: "4 word"
  to_ds :: "1 word"
  from_ds :: "1 word"
  more_frag :: "1 word"
  fc_retry :: "1 word"
  power_mgmt :: "1 word"
  more_data :: "1 word"
  protected_frame :: "1 word"
  fc_order :: "1 word"

text \<open>The bit-field of a given position in the 16-bit unit.\<close>

definition bitfield :: "nat \<Rightarrow> u16 \<Rightarrow> 'a::len word" where
  "bitfield pos w = ucast (drop_bit pos w)"

definition frame_control_of :: "u16 \<Rightarrow> ieee802_11_frame_control" where
  "frame_control_of w =
     \<lparr>protocol_version = bitfield 0 w, fc_type = bitfield 2 w, fc_subtype = bitfield 4 w,
      to_ds = bitfield 8 w, from_ds = bitfield 9 w, more_frag = bitfield 10 w, fc_retry = bitfield 11 w,
      power_mgmt = bitfield 12 w, more_data = bitfield 13 w, protected_frame = bitfield 14 w,
      fc_order = bitfield 15 w\<rparr>"

definition mac_header_fields :: "c_field list" where
  "mac_header_fields =
     [(''fc'', 2, 1), (''duration_id'', 2, 1), (''addr1'', 6, 1), (''addr2'', 6, 1), (''addr3'', 6, 1),
      (''sequence_control'', 2, 1), (''addr4'', 6, 1)]"

text \<open>
  The parser. The comparison with \<^verbatim>\<open>sizeof\<close> converts \<^verbatim>\<open>buffer_len\<close> to an unsigned 64-bit
  number. \<open>None\<close> is a read outside the buffer, \<open>Some r\<close> the return value.
\<close>

definition parse_wifi_beacon :: "byte list \<Rightarrow> int \<Rightarrow> int option" where
  "parse_wifi_beacon raw_radio_buffer buffer_len =
     (if (of_int buffer_len :: size_t) < of_nat (struct_size mac_header_fields) then Some (- 1)
      else (case load_le raw_radio_buffer 0 2 of
              None \<Rightarrow> None
            | Some w \<Rightarrow>
                (let fc = frame_control_of (of_nat w)
                 in if fc_type fc = 0 \<and> fc_subtype fc = 8 then Some 1 else Some 0)))"

lemma mac_header_size: "struct_size mac_header_fields = 30"
  by code_simp

section \<open>Reading the frame control word\<close>

lemma unat_bitfield:
  "unat (bitfield pos w :: 'a::len word) = unat w div 2 ^ pos mod 2 ^ LENGTH('a)"
  unfolding bitfield_def unsigned_ucast_eq unat_drop_bit_eq by (simp add: drop_bit_eq_div take_bit_eq_mod)

text \<open>A management frame of subtype beacon: the upper six bits of the first byte.\<close>

lemma beacon_bits:
  assumes "w = of_nat (unat (b0 :: byte) + 256 * unat (b1 :: byte))"
  shows "(fc_type (frame_control_of w) = 0 \<and> fc_subtype (frame_control_of w) = 8) = (drop_bit 2 b0 = 0x20)"
proof -
  have b: "unat b0 < 256" "unat b1 < 256"
    using unsigned_less [of b0, where ?'a = nat] unsigned_less [of b1, where ?'a = nat] by simp_all
  then have w: "unat w = unat b0 + 256 * unat b1"
    unfolding assms by (simp only: unat_of_nat) simp
  have "(fc_type (frame_control_of w) = 0) = (unat w div 4 mod 4 = 0)"
    by (simp add: frame_control_of_def word_unat_eq_iff unat_bitfield)
  moreover have "(fc_subtype (frame_control_of w) = 8) = (unat w div 16 mod 16 = 8)"
    by (simp add: frame_control_of_def word_unat_eq_iff unat_bitfield)
  moreover have "(drop_bit 2 b0 = 0x20) = (unat b0 div 4 = 32)"
    unfolding word_unat_eq_iff unat_drop_bit_eq by (simp add: drop_bit_eq_div)
  moreover have "unat w div 4 mod 4 = unat b0 div 4 mod 4"
  proof -
    have "unat w div 4 = unat b0 div 4 + 4 * (16 * unat b1)" unfolding w by simp
    then show ?thesis by (simp only: mod_mult_self2)
  qed
  moreover have "unat w div 16 mod 16 = unat b0 div 4 div 4"
  proof -
    have "unat w div 16 = unat b0 div 16 + 16 * unat b1" unfolding w by simp
    then show ?thesis using b(1) by (simp add: div_mult2_eq [symmetric] less_mult_imp_div_less)
  qed
  moreover have "(n mod 4 = 0 \<and> n div 4 = 8) = (n = 32)" for n :: nat
    using div_mult_mod_eq [of n 4] by auto
  ultimately show ?thesis by simp
qed

lemma load_frame_control:
  "load_le buf 0 2 = (case buf of b0 # b1 # _ \<Rightarrow> Some (unat b0 + 256 * unat b1) | _ \<Rightarrow> None)"
  by (auto simp: load_le_def read_at_def numeral_2_eq_2 split: list.split)

lemma beacon_read:
  "(case load_le buf 0 2 of None \<Rightarrow> None
    | Some w \<Rightarrow> if fc_type (frame_control_of (of_nat w)) = 0 \<and> fc_subtype (frame_control_of (of_nat w)) = 8
                then Some 1 else Some 0) =
   (case buf of b0 # b1 # _ \<Rightarrow> Some (if drop_bit 2 b0 = 0x20 then 1 else (0 :: int)) | _ \<Rightarrow> None)"
  unfolding load_frame_control
  by (auto simp only: beacon_bits [OF refl] option.case list.case split: list.split if_split)

text \<open>The usual arithmetic conversion of the length.\<close>

lemma int_to_size_less_30:
  assumes "- (2 ^ 31) \<le> buffer_len" and "buffer_len < 2 ^ 31"
  shows "unat (of_int buffer_len :: size_t) < 30 \<longleftrightarrow> 0 \<le> buffer_len \<and> buffer_len < 30"
proof (cases "0 \<le> buffer_len")
  case True
  then have "(of_int buffer_len :: size_t) = of_nat (nat buffer_len)" by simp
  moreover have "nat buffer_len < 2 ^ 64" using assms(2) by simp
  ultimately have "unat (of_int buffer_len :: size_t) = nat buffer_len"
    by (simp only: unat_of_nat) simp
  then show ?thesis using True by auto
next
  case False
  have "30 \<le> buffer_len + 2 ^ 64" using assms(1) by simp
  also have "\<dots> = (buffer_len + 2 ^ 64) mod 2 ^ 64"
    using False assms(1) by (intro mod_pos_pos_trivial [symmetric]) auto
  also have "\<dots> = uint (of_int buffer_len :: size_t)"
    unfolding mod_add_self2 by (simp add: uint_word_of_int_eq take_bit_eq_mod)
  finally have "30 \<le> unat (of_int buffer_len :: size_t)"
    unfolding unat_eq_nat_uint by (simp only: le_nat_iff zero_le_numeral of_nat_numeral)
  then show ?thesis using False by simp
qed

section \<open>Properties\<close>

text \<open>C27. The parser on every \<^verbatim>\<open>int\<close> length: a length from 0 to 29 is rejected with -1;
  otherwise the first two bytes are read and the result is 1 exactly when the first byte is that
  of a management frame with subtype beacon (in any protocol version), else 0. A negative length
  is converted to a huge unsigned number and passes the check, so the read may leave the
  buffer.\<close>

theorem parse_wifi_beacon_result:
  assumes "- (2 ^ 31) \<le> buffer_len" and "buffer_len < 2 ^ 31"
  shows "parse_wifi_beacon buf buffer_len =
    (if 0 \<le> buffer_len \<and> buffer_len < 30 then Some (- 1)
     else case buf of b0 # b1 # _ \<Rightarrow> Some (if drop_bit 2 b0 = 0x20 then 1 else 0) | _ \<Rightarrow> None)"
proof -
  have "(of_int buffer_len :: size_t) < 30 \<longleftrightarrow> 0 \<le> buffer_len \<and> buffer_len < 30"
    using int_to_size_less_30 [OF assms] by (simp add: word_less_nat_alt)
  then show ?thesis
    unfolding parse_wifi_beacon_def mac_header_size Let_def beacon_read of_nat_numeral by (simp only:)
qed

theorem parse_wifi_beacon_result_witness:
  "parse_wifi_beacon (0x80 # 0 # replicate 28 0) 30 = Some 1 \<and> parse_wifi_beacon [] (- 1) = None"
  using parse_wifi_beacon_result [of 30 "0x80 # 0 # replicate 28 0"] parse_wifi_beacon_result [of "- 1" "[]"]
  by simp

end
