(* ===== verification/Nt_Internals.thy ===== *)
theory Nt_Internals
  imports Prelude
begin

text \<open>
  \<^verbatim>\<open>src/01-Core-Systems-and-Bare-Metal/windows-nt-internals.cpp\<close>: the status macro, the
  layout of the process record, the loop that queries the kernel with a growing buffer, the
  walk over the chain of records, and \<^verbatim>\<open>main\<close>.

  The loader and the kernel are not part of the repository: what their calls answer is the
  argument \<open>nt_env\<close>. The source uses \<open>status\<close>, \<open>buffer\<close> and \<open>bufferSize\<close> without
  declaring them; their initial values are arguments. The query is modelled with the four
  parameters that the function pointer type declares.
\<close>

section \<open>Status codes and record layout\<close>

type_synonym NTSTATUS = u32

definition NT_SUCCESS :: "NTSTATUS \<Rightarrow> bool" where
  "NT_SUCCESS Status \<longleftrightarrow> 0 \<le> sint Status"

definition STATUS_INFO_LENGTH_MISMATCH :: NTSTATUS where
  "STATUS_INFO_LENGTH_MISMATCH = 0xC0000004"

definition unicode_string_fields :: "c_field list" where
  "unicode_string_fields = [(''Length'', 2, 2), (''MaximumLength'', 2, 2), (''Buffer'', 8, 8)]"

definition process_info_fields :: "c_field list" where
  "process_info_fields =
     [(''NextEntryOffset'', 4, 4), (''NumberOfThreads'', 4, 4), (''WorkingSetPrivateSize'', 8, 8),
      (''HardFaultCount'', 4, 4), (''NumberOfThreadsHighWatermark'', 4, 4), (''CycleTime'', 8, 8),
      (''CreateTime'', 8, 8), (''UserTime'', 8, 8), (''KernelTime'', 8, 8),
      (''ImageName'', struct_size unicode_string_fields, 8), (''BasePriority'', 4, 4),
      (''UniqueProcessId'', 8, 8), (''InheritedFromUniqueProcessId'', 8, 8), (''HandleCount'', 4, 4),
      (''SessionId'', 4, 4), (''UniqueProcessKey'', 8, 8), (''PeakVirtualSize'', 8, 8),
      (''VirtualSize'', 8, 8), (''PageFaultCount'', 4, 4), (''PeakWorkingSetSize'', 8, 8),
      (''WorkingSetSize'', 8, 8), (''QuotaPeakPagedPoolUsage'', 8, 8), (''QuotaPagedPoolUsage'', 8, 8),
      (''QuotaPeakNonPagedPoolUsage'', 8, 8), (''QuotaNonPagedPoolUsage'', 8, 8),
      (''PagefileUsage'', 8, 8), (''PeakPagefileUsage'', 8, 8), (''PrivatePageCount'', 8, 8),
      (''ReadOperationCount'', 8, 8), (''WriteOperationCount'', 8, 8), (''OtherOperationCount'', 8, 8),
      (''ReadTransferCount'', 8, 8), (''WriteTransferCount'', 8, 8), (''OtherTransferCount'', 8, 8)]"

text \<open>The load of a member of the record at offset \<open>p\<close>; \<open>None\<close> outside the buffer.\<close>

definition process_info_load :: "byte list \<Rightarrow> nat \<Rightarrow> string \<Rightarrow> nat option" where
  "process_info_load buf p f =
     (case map_of (layout 0 process_info_fields) f of
        None \<Rightarrow> None
      | Some (off, sz) \<Rightarrow> load_le buf (p + off) sz)"

definition image_name_buffer :: "byte list \<Rightarrow> nat \<Rightarrow> nat option" where
  "image_name_buffer buf p =
     (case (offset_of process_info_fields ''ImageName'', offset_of unicode_string_fields ''Buffer'') of
        (Some i, Some b) \<Rightarrow> load_le buf (p + i + b) 8
      | _ \<Rightarrow> None)"

section \<open>The walk over the records\<close>

text \<open>One printed row: the process id cut to 32 bits, the thread count, and the name pointer,
  \<open>None\<close> standing for the text \<^verbatim>\<open>System Process\<close>.\<close>

record process_row =
  row_pid :: u32
  row_threads :: u32
  row_name :: "u64 option"

definition process_row_at :: "byte list \<Rightarrow> nat \<Rightarrow> process_row option" where
  "process_row_at buf p =
     (case (process_info_load buf p ''UniqueProcessId'', process_info_load buf p ''NumberOfThreads'',
            image_name_buffer buf p) of
        (Some pid, Some threads, Some name) \<Rightarrow>
          Some \<lparr>row_pid = of_nat pid, row_threads = of_nat threads,
                row_name = (if name \<noteq> 0 then Some (of_nat name) else None)\<rparr>
      | _ \<Rightarrow> None)"

text \<open>The printing loop: the rows printed, and the offset of the record whose read left the
  buffer, if there is one.\<close>

function process_walk :: "byte list \<Rightarrow> nat \<Rightarrow> process_row list \<times> nat option" where
  "process_walk buf p =
     (case process_row_at buf p of
        None \<Rightarrow> ([], Some p)
      | Some row \<Rightarrow>
          (case process_info_load buf p ''NextEntryOffset'' of
             None \<Rightarrow> ([row], Some p)
           | Some NextEntryOffset \<Rightarrow>
               if NextEntryOffset = 0 then ([row], None)
               else (let (rows, fault) = process_walk buf (p + NextEntryOffset)
                     in (row # rows, fault))))"
  by pat_completeness auto
termination
proof (relation "measure (\<lambda>(buf, p). length buf - p)")
  fix buf p row x
  assume "process_row_at buf p = Some row" and "x \<noteq> 0"
    and "process_info_load buf p ''NextEntryOffset'' = Some x"
  then have "p < length buf"
    by (auto simp: process_info_load_def load_le_def read_at_def split: option.splits if_splits)
       (simp add: process_info_fields_def split: if_splits)
  then show "((buf, p + x), buf, p) \<in> measure (\<lambda>(buf, p). length buf - p)"
    using \<open>x \<noteq> 0\<close> by auto
qed auto

declare process_walk.simps [simp del]

section \<open>Querying the kernel\<close>

text \<open>
  The answers of the environment: whether the library and the symbol are found; the status of the
  \<open>n\<close>-th query for a buffer of a given length, with the bytes the kernel produces and the length it
  stores through \<^verbatim>\<open>&bufferSize\<close>; whether the \<open>n\<close>-th allocation succeeds, and the indeterminate bytes
  of the fresh block.
\<close>

record nt_env =
  LoadLibraryW :: bool
  GetProcAddress :: bool
  NtQuerySystemInformation :: "nat \<Rightarrow> nat option \<Rightarrow> u32 \<Rightarrow> NTSTATUS \<times> byte list \<times> u32"
  malloc_ok :: "nat \<Rightarrow> bool"
  malloc_junk :: "nat \<Rightarrow> nat \<Rightarrow> byte"

text \<open>The heap: the next block number, the blocks in use with their bytes, and whether a block that is
  not in use was freed. A buffer is a block number, or \<open>None\<close> for the null pointer.\<close>

record nt_heap =
  heap_next :: nat
  heap_blocks :: "nat \<rightharpoonup> byte list"
  heap_bad_free :: bool

definition nt_free :: "nat option \<Rightarrow> nt_heap \<Rightarrow> nt_heap" where
  "nt_free b h =
     (case b of
        None \<Rightarrow> h
      | Some i \<Rightarrow> if heap_blocks h i = None then h\<lparr>heap_bad_free := True\<rparr>
                  else h\<lparr>heap_blocks := (heap_blocks h)(i := None)\<rparr>)"

definition nt_malloc :: "nt_env \<Rightarrow> u32 \<Rightarrow> nt_heap \<Rightarrow> nat option \<times> nt_heap" where
  "nt_malloc E sz h =
     (if malloc_ok E (heap_next h)
      then (Some (heap_next h),
            h\<lparr>heap_blocks := (heap_blocks h)(heap_next h \<mapsto> map (malloc_junk E (heap_next h)) [0..<unat sz]),
              heap_next := heap_next h + 1\<rparr>)
      else (None, h\<lparr>heap_next := heap_next h + 1\<rparr>))"

text \<open>What the kernel stores: at most the announced length, from the start of the buffer; nothing through
  a null pointer. The bytes behind what it stores keep their contents.\<close>

definition kernel_store :: "nat option \<Rightarrow> u32 \<Rightarrow> byte list \<Rightarrow> nt_heap \<Rightarrow> nt_heap" where
  "kernel_store b sz bytes h =
     (case b of
        None \<Rightarrow> h
      | Some i \<Rightarrow> h\<lparr>heap_blocks := (heap_blocks h)(i := map_option
          (\<lambda>old. take (min (unat sz) (length old)) bytes @ drop (min (unat sz) (length bytes)) old) (heap_blocks h i))\<rparr>)"

text \<open>The loop: query, and while the status is the length mismatch, free the buffer and
  allocate one of the length the kernel asked for. \<open>None\<close> means that it never returns.\<close>

partial_function (option) query_loop ::
  "nt_env \<Rightarrow> nat \<Rightarrow> nat option \<Rightarrow> u32 \<Rightarrow> nt_heap \<Rightarrow> (NTSTATUS \<times> nat option \<times> nt_heap) option" where
  "query_loop E n buffer bufferSize h =
     (let (status, bytes, bufferSize') = NtQuerySystemInformation E n buffer bufferSize;
          h = kernel_store buffer bufferSize bytes h
      in if status = STATUS_INFO_LENGTH_MISMATCH then
           (let (buffer', h') = nt_malloc E bufferSize' (nt_free buffer h)
            in query_loop E (n + 1) buffer' bufferSize' h')
         else Some (status, buffer, h))"

section \<open>The main function\<close>

datatype nt_output =
    LoadFailed
  | SymbolMissing
  | Listing "process_row list"
  | StatusError NTSTATUS

text \<open>How a run ends: it exits with a code, or it dereferences a pointer that is null or not in use,
  or, after the rows it has printed, the record at an offset reaches outside the buffer. The last two
  are undefined behaviour, and nothing is claimed of what follows them.\<close>

datatype nt_outcome =
    Exit nat nt_output nt_heap
  | BadPointer
  | OutsideBuffer "process_row list" nat

definition nt_main :: "nt_env \<Rightarrow> nat option \<Rightarrow> u32 \<Rightarrow> nt_heap \<Rightarrow> nt_outcome option" where
  "nt_main E buffer0 bufferSize0 h =
     (if \<not> LoadLibraryW E then Some (Exit 1 LoadFailed h)
      else if \<not> GetProcAddress E then Some (Exit 1 SymbolMissing h)
      else (case query_loop E 0 buffer0 bufferSize0 h of
              None \<Rightarrow> None
            | Some (status, buffer, h') \<Rightarrow> Some
                (if \<not> NT_SUCCESS status
                 then (case Option.bind buffer (heap_blocks h') of
                         None \<Rightarrow> BadPointer
                       | Some bytes \<Rightarrow>
                           (case process_walk bytes 0 of
                              (rows, None) \<Rightarrow> Exit 0 (Listing rows) (nt_free buffer h')
                            | (rows, Some p) \<Rightarrow> OutsideBuffer rows p))
                 else Exit 0 (StatusError status) (nt_free buffer h'))))"

section \<open>Reading a chain of records\<close>

lemma process_info_offsets:
  "map_of (layout 0 process_info_fields) ''NextEntryOffset'' = Some (0, 4)"
  "map_of (layout 0 process_info_fields) ''NumberOfThreads'' = Some (4, 4)"
  "map_of (layout 0 process_info_fields) ''UniqueProcessId'' = Some (80, 8)"
  "offset_of process_info_fields ''ImageName'' = Some 56"
  "offset_of unicode_string_fields ''Buffer'' = Some 8"
  by code_simp+

text \<open>A load inside a segment of the buffer only depends on the segment.\<close>

lemma load_le_segment:
  assumes "i + w \<le> length e"
  shows "load_le (pre @ e @ post) (length pre + i) w = load_le e i w"
  using assms by (simp add: load_le_def read_at_def)

lemma process_row_segment:
  assumes "88 \<le> length e"
  shows "process_row_at (pre @ e @ post) (length pre) = process_row_at e 0"
    and "process_info_load (pre @ e @ post) (length pre) ''NextEntryOffset'' = load_le e 0 4"
  using assms load_le_segment [of 80 8 e pre post] load_le_segment [of 4 4 e pre post]
    load_le_segment [of 64 8 e pre post] load_le_segment [of 0 4 e pre post]
  by (simp_all add: process_row_at_def process_info_load_def image_name_buffer_def process_info_offsets
      add.assoc)

lemma process_row_defined: "88 \<le> length e \<Longrightarrow> \<exists>row. process_row_at e 0 = Some row"
  by (simp add: process_row_at_def process_info_load_def image_name_buffer_def process_info_offsets
      load_le_def read_at_def)

text \<open>A chain of records: every record is long enough for the members the program reads, each
  but the last names its own length as the offset of the next one, the last names 0.\<close>

fun record_chain :: "byte list list \<Rightarrow> bool" where
  "record_chain [] = False"
| "record_chain [e] = (88 \<le> length e \<and> load_le e 0 4 = Some 0)"
| "record_chain (e # es) = (88 \<le> length e \<and> load_le e 0 4 = Some (length e) \<and> record_chain es)"

lemma process_walk_chain:
  assumes "record_chain es"
  shows "process_walk (pre @ concat es) (length pre) = (map (\<lambda>e. the (process_row_at e 0)) es, None)"
  using assms
proof (induction es arbitrary: pre rule: record_chain.induct)
  case 1
  then show ?case by simp
next
  case (2 e)
  then have len: "88 \<le> length e" and nxt: "load_le e 0 4 = Some 0" by simp_all
  from len obtain row where "process_row_at e 0 = Some row" using process_row_defined by blast
  then show ?case
    using process_row_segment [OF len, of pre "[]"] nxt by (subst process_walk.simps) simp
next
  case (3 e e' es)
  then have len: "88 \<le> length e" and nxt: "load_le e 0 4 = Some (length e)" by simp_all
  from len obtain row where row: "process_row_at e 0 = Some row" using process_row_defined by blast
  have "process_walk (pre @ concat (e # e' # es)) (length pre + length e)
      = (map (\<lambda>e. the (process_row_at e 0)) (e' # es), None)"
    using "3.IH" [of "pre @ e"] "3.prems" by simp
  then show ?case
    using process_row_segment [OF len, of pre "concat (e' # es)"] nxt row len
    by (subst process_walk.simps) auto
qed

section \<open>The query loop returns and leaks nothing\<close>

text \<open>The heap holds the current buffer and nothing else, and no free went wrong.\<close>

definition heap_ok :: "nat option \<Rightarrow> nt_heap \<Rightarrow> bool" where
  "heap_ok b h \<longleftrightarrow> \<not> heap_bad_free h \<and> dom (heap_blocks h) = set_option b"

lemma heap_ok_block: "heap_ok (Some i) h \<Longrightarrow> \<exists>bytes. heap_blocks h i = Some bytes"
  unfolding heap_ok_def by (metis domD option.set_intros)

lemma nt_free_ok: "heap_ok b h \<Longrightarrow> heap_ok None (nt_free b h)"
  using heap_ok_block [of _ h] by (cases b) (auto simp: heap_ok_def nt_free_def simp del: dom_eq_empty_conv)

lemma nt_malloc_ok: "heap_ok None h \<Longrightarrow> nt_malloc E sz h = (b, h') \<Longrightarrow> heap_ok b h'"
  by (auto simp: heap_ok_def nt_malloc_def split: if_splits)

lemma kernel_store_ok: "heap_ok b h \<Longrightarrow> heap_ok b (kernel_store b sz bytes h)"
  using heap_ok_block [of _ h] by (cases b) (auto simp: heap_ok_def kernel_store_def)

text \<open>The kernel never changes the size of a block.\<close>

lemma kernel_store_length:
  "map_option length (heap_blocks (kernel_store b sz bytes h) i) = map_option length (heap_blocks h i)"
proof -
  have "length (take (min n (length old)) bytes @ drop (min n (length bytes)) old) = length old"
    for n and old :: "byte list" by (auto simp: min_def)
  then show ?thesis
    by (auto simp: kernel_store_def option.map_comp comp_def simp del: length_append split: option.split)
qed

text \<open>The documented contract of the query, from the \<open>k\<close>-th one on: the information needs \<open>req\<close>
  bytes, a buffer of at least this length is not reported as too small, and a mismatch stores a length
  that is enough.\<close>

definition kernel_settles :: "nt_env \<Rightarrow> nat \<Rightarrow> u32 \<Rightarrow> bool" where
  "kernel_settles E k req \<longleftrightarrow> (\<forall>n\<ge>k. \<forall>b sz.
     case NtQuerySystemInformation E n b sz of (status, bytes, sz') \<Rightarrow>
       status = STATUS_INFO_LENGTH_MISMATCH \<longrightarrow> sz < req \<and> req \<le> sz')"

lemma kernel_settlesD:
  assumes "kernel_settles E k req" and "k \<le> n"
    and "NtQuerySystemInformation E n b sz = (STATUS_INFO_LENGTH_MISMATCH, bytes, sz')"
  shows "sz < req \<and> req \<le> sz'"
  using assms by (auto simp: kernel_settles_def dest!: spec [of _ n] spec [of _ b] spec [of _ sz])

text \<open>The rounds left: up to the \<open>k\<close>-th query anything may happen; from it on there is at most one more
  mismatch.\<close>

definition rounds_left :: "nat \<Rightarrow> u32 \<Rightarrow> nat \<Rightarrow> u32 \<Rightarrow> nat" where
  "rounds_left k req n sz = (if n < k then Suc (k - n) else if sz < req then 1 else 0)"

lemma query_loop_returns:
  assumes "kernel_settles E k req" and "heap_ok b h"
  shows "\<exists>status b' h'. query_loop E n b sz h = Some (status, b', h')
     \<and> status \<noteq> STATUS_INFO_LENGTH_MISMATCH \<and> heap_ok b' h'"
  using assms(2)
proof (induction "rounds_left k req n sz" arbitrary: n b sz h rule: less_induct)
  case less
  obtain status bytes sz' where q: "NtQuerySystemInformation E n b sz = (status, bytes, sz')"
    by (metis prod_cases3)
  let ?h = "kernel_store b sz bytes h"
  have ok: "heap_ok b ?h" using less.prems by (rule kernel_store_ok)
  show ?case
  proof (cases "status = STATUS_INFO_LENGTH_MISMATCH")
    case True
    obtain b1 h1 where m: "nt_malloc E sz' (nt_free b ?h) = (b1, h1)" by fastforce
    then have "heap_ok b1 h1" using ok nt_free_ok nt_malloc_ok by blast
    moreover have "rounds_left k req (n + 1) sz' < rounds_left k req n sz"
      using kernel_settlesD [OF assms(1), of n b sz bytes sz'] q True by (auto simp: rounds_left_def not_less)
    ultimately show ?thesis
      using less.hyps [of "n + 1" sz' b1 h1] True q m by (simp add: query_loop.simps [of E n])
  next
    case False
    then show ?thesis using q ok by (simp add: query_loop.simps [of E n])
  qed
qed

section \<open>Properties\<close>

text \<open>C25. Walking a well-formed chain of process records reads only inside the buffer,
  terminates, and prints exactly one row per record, in order, each built from its own record.\<close>

theorem process_walk_prints_chain:
  assumes "record_chain es"
  shows "process_walk (concat es) 0 = (map (\<lambda>e. the (process_row_at e 0)) es, None)"
  using process_walk_chain [OF assms, of "[]"] by simp

definition sample_record :: "nat \<Rightarrow> nat \<Rightarrow> byte list" where
  "sample_record nxt pid = le_bytes 4 nxt @ le_bytes 4 5 @ replicate 72 0 @ le_bytes 8 pid"

theorem process_walk_prints_chain_witness:
  "process_walk (sample_record 88 4 @ sample_record 0 620) 0
   = ([\<lparr>row_pid = 4, row_threads = 5, row_name = None\<rparr>,
       \<lparr>row_pid = 620, row_threads = 5, row_name = None\<rparr>], None)"
proof -
  have "record_chain [sample_record 88 4, sample_record 0 620]" by code_simp
  moreover have "process_row_at (sample_record 88 4) 0 = Some \<lparr>row_pid = 4, row_threads = 5, row_name = None\<rparr>"
    by code_simp
  moreover have "process_row_at (sample_record 0 620) 0 = Some \<lparr>row_pid = 620, row_threads = 5, row_name = None\<rparr>"
    by code_simp
  ultimately show ?thesis
    using process_walk_prints_chain [of "[sample_record 88 4, sample_record 0 620]"] by simp
qed

text \<open>C26. If from some query on the kernel keeps its contract (a buffer of the required length is not
  reported as too small, and a mismatch stores a sufficient length), the query loop returns, with a
  status other than the mismatch, holding exactly one buffer (or none, after a failed allocation), having
  freed all others and none twice. \<^verbatim>\<open>main\<close> then behaves as the inverted branch makes it: a successful
  query is reported as an error, no process is listed, the buffer is freed and the exit code is 0. A
  failed query is parsed: with a null buffer this dereferences null; otherwise the rows of the walk
  over that buffer are printed, and the exit code is 0 with the buffer freed only if the walk stays
  inside it.\<close>

theorem nt_main_outcome:
  assumes "LoadLibraryW E" and "GetProcAddress E" and "kernel_settles E k req" and "heap_ok buffer0 h"
  shows "\<exists>status b h1. query_loop E 0 buffer0 size0 h = Some (status, b, h1)
     \<and> status \<noteq> STATUS_INFO_LENGTH_MISMATCH \<and> dom (heap_blocks h1) = set_option b \<and> \<not> heap_bad_free h1
     \<and> dom (heap_blocks (nt_free b h1)) = {} \<and> \<not> heap_bad_free (nt_free b h1)
     \<and> nt_main E buffer0 size0 h = Some
         (if NT_SUCCESS status then Exit 0 (StatusError status) (nt_free b h1)
          else case b of
            None \<Rightarrow> BadPointer
          | Some i \<Rightarrow> (case process_walk (the (heap_blocks h1 i)) 0 of
                (rows, None) \<Rightarrow> Exit 0 (Listing rows) (nt_free b h1)
              | (rows, Some p) \<Rightarrow> OutsideBuffer rows p))"
proof -
  obtain status b h1 where r: "query_loop E 0 buffer0 size0 h = Some (status, b, h1)"
    and s: "status \<noteq> STATUS_INFO_LENGTH_MISMATCH" and ok: "heap_ok b h1"
    using query_loop_returns [OF assms(3,4), of 0 size0] by auto
  have "\<exists>bytes. heap_blocks h1 i = Some bytes" if "b = Some i" for i
    using heap_ok_block ok that by blast
  then have "nt_main E buffer0 size0 h = Some
      (if NT_SUCCESS status then Exit 0 (StatusError status) (nt_free b h1)
       else case b of None \<Rightarrow> BadPointer
       | Some i \<Rightarrow> (case process_walk (the (heap_blocks h1 i)) 0 of
             (rows, None) \<Rightarrow> Exit 0 (Listing rows) (nt_free b h1)
           | (rows, Some p) \<Rightarrow> OutsideBuffer rows p))"
    using r assms(1,2) by (cases b) (auto simp: nt_main_def)
  then show ?thesis using r s ok nt_free_ok [OF ok] by (auto simp: heap_ok_def)
qed

text \<open>A kernel that needs 176 bytes, and fills a buffer of this length with two records.\<close>

definition sample_env :: nt_env where
  "sample_env = \<lparr>LoadLibraryW = True, GetProcAddress = True,
     NtQuerySystemInformation = (\<lambda>n b sz. if sz < 176 then (STATUS_INFO_LENGTH_MISMATCH, [], 176)
        else (0, sample_record 88 4 @ sample_record 0 620, 176)),
     malloc_ok = (\<lambda>n. True), malloc_junk = (\<lambda>n i. 0xCD)\<rparr>"

theorem nt_main_outcome_witness:
  "\<exists>h'. nt_main sample_env None 0 \<lparr>heap_next = 0, heap_blocks = Map.empty, heap_bad_free = False\<rparr>
     = Some (Exit 0 (StatusError 0) h') \<and> dom (heap_blocks h') = {}"
proof -
  let ?h = "\<lparr>heap_next = 0, heap_blocks = Map.empty, heap_bad_free = False\<rparr>"
  have "kernel_settles sample_env 0 176" "heap_ok None ?h"
    by (simp_all add: kernel_settles_def sample_env_def STATUS_INFO_LENGTH_MISMATCH_def heap_ok_def)
  then obtain status b h1 where r: "query_loop sample_env 0 None 0 ?h = Some (status, b, h1)"
    and d: "dom (heap_blocks (nt_free b h1)) = {}"
    and m: "nt_main sample_env None 0 ?h = Some
         (if NT_SUCCESS status then Exit 0 (StatusError status) (nt_free b h1)
          else case b of
            None \<Rightarrow> BadPointer
          | Some i \<Rightarrow> (case process_walk (the (heap_blocks h1 i)) 0 of
                (rows, None) \<Rightarrow> Exit 0 (Listing rows) (nt_free b h1)
              | (rows, Some p) \<Rightarrow> OutsideBuffer rows p))"
    using nt_main_outcome [of sample_env 0 176 None ?h 0] by (auto simp: sample_env_def)
  have "status = 0"
    using r by (simp add: query_loop.simps sample_env_def STATUS_INFO_LENGTH_MISMATCH_def Let_def
        case_prod_beta nt_malloc_def nt_free_def)
  then show ?thesis using m d by (simp add: NT_SUCCESS_def)
qed

end
