(* ===== verification/Wasm_Filter.thy ===== *)
theory Wasm_Filter
  imports Prelude
begin

text \<open>
  \<^verbatim>\<open>src/06-Platform-Engineering-and-Gateways/envoy-proxy-webassembly-filter.cpp\<close>: the
  contexts of the filter and the request interceptor \<^verbatim>\<open>onRequestHeaders\<close>. The proxy host is
  not part of the repository: the header lookup is an argument, and the calls the filter makes to
  the host are its output, in order.
\<close>

section \<open>Contexts\<close>

record SecurityGatewayRootContext =
  root_id :: u32

record SecurityGatewayContext =
  context_id :: u32
  context_root :: SecurityGatewayRootContext

definition createContext :: "SecurityGatewayRootContext \<Rightarrow> u32 \<Rightarrow> SecurityGatewayContext" where
  "createContext root cid = \<lparr>context_id = cid, context_root = root\<rparr>"

section \<open>The interceptor\<close>

text \<open>\<^verbatim>\<open>std::string::find\<close>: the position of the first occurrence, \<open>None\<close> for
  \<^verbatim>\<open>npos\<close>.\<close>

fun str_find :: "string \<Rightarrow> string \<Rightarrow> nat option" where
  "str_find pat [] = (if pat = [] then Some 0 else None)"
| "str_find pat (c # s) = (if prefix pat (c # s) then Some 0 else map_option Suc (str_find pat s))"

datatype FilterHeadersStatus = Continue | StopIteration

datatype host_call =
    SendLocalResponse nat string string
  | AddRequestHeader string string
  | RemoveRequestHeader string

definition onRequestHeaders ::
  "(string \<Rightarrow> string option) \<Rightarrow> u32 \<Rightarrow> bool \<Rightarrow> FilterHeadersStatus \<times> host_call list" where
  "onRequestHeaders getRequestHeader headers end_of_stream =
     (let user_agent = getRequestHeader ''user-agent'';
          x_api_key = getRequestHeader ''x-api-key''
      in if (case user_agent of None \<Rightarrow> False | Some v \<Rightarrow> str_find ''Nmap'' v \<noteq> None)
         then (StopIteration, [SendLocalResponse 403 ''Forbidden'' ''Malicious scanning tools are prohibited.''])
         else if (case x_api_key of None \<Rightarrow> True | Some v \<Rightarrow> v = [])
         then (StopIteration, [SendLocalResponse 401 ''Unauthorized'' ''Missing mandatory X-API-Key header.''])
         else (Continue, [AddRequestHeader ''x-internal-span-id'' ''spn-78a9c-wasm-generated'',
                          RemoveRequestHeader ''x-forwarded-for'']))"

section \<open>The search\<close>

text \<open>The search finds the leftmost occurrence, and fails only when there is none.\<close>

lemma str_find_Some:
  "str_find pat s = Some i \<Longrightarrow> prefix pat (drop i s) \<and> (\<forall>j < i. \<not> prefix pat (drop j s))"
proof (induction s arbitrary: i)
  case Nil
  then show ?case by (auto split: if_splits)
next
  case (Cons c s)
  show ?case
  proof (cases "prefix pat (c # s)")
    case True
    then show ?thesis using Cons.prems by simp
  next
    case False
    with Cons.prems obtain k where k: "str_find pat s = Some k" "i = Suc k" by auto
    have "\<not> prefix pat (drop j (c # s))" if "j < i" for j
      using that False Cons.IH [OF k(1)] k(2) by (cases j) auto
    then show ?thesis using Cons.IH [OF k(1)] k(2) by auto
  qed
qed

lemma str_find_None: "str_find pat s = None \<longleftrightarrow> \<not> sublist pat s"
proof (induction s)
  case Nil
  then show ?case by auto
next
  case (Cons c s)
  then show ?case by (auto simp: sublist_Cons_right)
qed

section \<open>Properties\<close>

text \<open>C29. The decision of the filter on every request: a user agent that contains the text
  \<^verbatim>\<open>Nmap\<close> (anywhere, with this capitalisation) is answered 403; otherwise a missing or empty
  API key is answered 401; otherwise, and only then, the request continues, and no local response
  is sent. A stopped request gets exactly one local response and no header change.\<close>

theorem filter_decision:
  "onRequestHeaders get n eos =
     (if (\<exists>ua. get ''user-agent'' = Some ua \<and> sublist ''Nmap'' ua)
      then (StopIteration, [SendLocalResponse 403 ''Forbidden'' ''Malicious scanning tools are prohibited.''])
      else if (\<exists>key. get ''x-api-key'' = Some key \<and> key \<noteq> [])
      then (Continue, [AddRequestHeader ''x-internal-span-id'' ''spn-78a9c-wasm-generated'',
                       RemoveRequestHeader ''x-forwarded-for''])
      else (StopIteration, [SendLocalResponse 401 ''Unauthorized'' ''Missing mandatory X-API-Key header.'']))"
  by (auto simp: onRequestHeaders_def str_find_None Let_def split: option.splits)

text \<open>The substring search used by the filter is exact: a result is the leftmost position at
  which the pattern occurs, and there is no result exactly when the pattern does not occur.\<close>

theorem str_find_exact:
  "case str_find pat s of
     None \<Rightarrow> \<not> sublist pat s
   | Some i \<Rightarrow> prefix pat (drop i s) \<and> find (\<lambda>j. prefix pat (drop j s)) [0..<Suc (length s)] = Some i"
proof (cases "str_find pat s")
  case None
  with str_find_None [of pat s] show ?thesis by simp
next
  case (Some i)
  note p = str_find_Some [OF Some]
  have "i \<le> length s" using Some
  proof (induction s arbitrary: i)
    case (Cons c s)
    then show ?case by (auto split: if_splits)
  qed (auto split: if_splits)
  then have "find (\<lambda>j. prefix pat (drop j s)) [0..<Suc (length s)] = Some i"
    using p by (auto simp: find_Some_iff intro!: exI [of _ i] simp del: upt_Suc)
  with p Some show ?thesis by simp
qed

end
