(* ===== verification/Compile_Time_Primes.thy ===== *)
theory Compile_Time_Primes
  imports Prelude "HOL-Library.Signed_Division"
begin

text \<open>
  \<^verbatim>\<open>src/09-Advanced-Metaprogramming-and-Web/compile-time.cpp\<close>: the templates that compute a
  list of primes during compilation. A template instantiation is a function of its template
  arguments; \<open>None\<close> is an instantiation the compiler rejects (a remainder by zero or an overflow is not a
  constant expression, and an ambiguous choice of specialisation is an error). The selection rule is a
  parameter of the generator; \<open>selected_spec\<close> is the one of the language. \<^verbatim>\<open>int\<close> division and remainder truncate (\<open>sdiv\<close>, \<open>smod\<close>).
\<close>

section \<open>The templates\<close>

function IsPrimeHelper :: "int \<Rightarrow> int \<Rightarrow> bool option" where
  "IsPrimeHelper N D =
     (if D = 1 then Some True
      else if D \<le> 0 then None
      else (case IsPrimeHelper N (D - 1) of
              None \<Rightarrow> None
            | Some rest \<Rightarrow> Some (N smod D \<noteq> 0 \<and> rest)))"
  by pat_completeness auto
termination
  by (relation "measure (\<lambda>(N, D). nat D)") auto

declare IsPrimeHelper.simps [simp del]

definition IsPrime :: "int \<Rightarrow> bool option" where
  "IsPrime N =
     (if N = 0 then Some False else if N = 1 then Some False else if N = 2 then Some True
      else IsPrimeHelper N (N sdiv 2))"

text \<open>\<^verbatim>\<open>std::cout << n\<close> for a non-negative number and \<^verbatim>\<open>printPrimes\<close>.\<close>

fun show_nat :: "nat \<Rightarrow> string" where
  "show_nat n = (if n < 10 then [char_of (48 + n)] else show_nat (n div 10) @ [char_of (48 + n mod 10)])"

declare show_nat.simps [simp del]

definition printPrimes :: "int list \<Rightarrow> string" where
  "printPrimes Primes = concat (map (\<lambda>p. show_nat (nat p) @ '' '') Primes) @ [char_of (10 :: nat)]"

section \<open>Partial ordering of the specialisations\<close>

text \<open>
  The three partial specialisations as argument patterns (\<^verbatim>\<open>Current\<close>, \<^verbatim>\<open>Max\<close>,
  \<^verbatim>\<open>CurrentIsPrime\<close>; the trailing pack is the same in all three): a template parameter or
  a fixed value. Deduction binds every parameter to one argument. One specialisation is at
  least as specialised as another when the other can be deduced from its own pattern, its
  parameters standing for unique values.
\<close>

datatype targ = TParam nat | TInt int | TBool bool

fun deduce :: "targ list \<Rightarrow> targ list \<Rightarrow> (nat \<times> targ) list \<Rightarrow> bool" where
  "deduce [] [] s = True"
| "deduce (TParam v # ps) (a # as) s =
     (case map_of s v of None \<Rightarrow> deduce ps as ((v, a) # s) | Some b \<Rightarrow> a = b \<and> deduce ps as s)"
| "deduce (p # ps) (a # as) s = (p = a \<and> deduce ps as s)"
| "deduce _ _ s = False"

definition spec_prime :: "targ list" where "spec_prime = [TParam 0, TParam 1, TBool True]"
definition spec_not_prime :: "targ list" where "spec_not_prime = [TParam 0, TParam 1, TBool False]"
definition spec_base :: "targ list" where "spec_base = [TParam 0, TParam 0, TParam 1]"

definition matching_specs :: "int \<Rightarrow> int \<Rightarrow> bool \<Rightarrow> targ list list" where
  "matching_specs Current MaxN b =
     filter (\<lambda>p. deduce p [TInt Current, TInt MaxN, TBool b] []) [spec_prime, spec_not_prime, spec_base]"

definition more_specialised :: "targ list \<Rightarrow> targ list \<Rightarrow> bool" where
  "more_specialised p q \<longleftrightarrow> deduce q p [] \<and> \<not> deduce p q []"

text \<open>The selected specialisation: the one that is more specialised than all others that match.\<close>

definition selected_spec :: "int \<Rightarrow> int \<Rightarrow> bool \<Rightarrow> targ list option" where
  "selected_spec Current MaxN b =
     (let ms = matching_specs Current MaxN b
      in find (\<lambda>p. list_all (\<lambda>q. q = p \<or> more_specialised p q) ms) ms)"

section \<open>The generator\<close>

text \<open>
  One instantiation of \<^verbatim>\<open>PrimeGenerator\<close>: the argument \<open>select\<close> is the rule by which the compiler
  picks a specialisation, \<open>None\<close> where it picks none. With \<open>selected_spec\<close> this is the program as written.
  \<^verbatim>\<open>Current + 1\<close> beyond the range of \<^verbatim>\<open>int\<close> is not a constant expression and is rejected.
\<close>

function PrimeGenerator ::
  "(int \<Rightarrow> int \<Rightarrow> bool \<Rightarrow> targ list option) \<Rightarrow> int \<Rightarrow> int \<Rightarrow> bool \<Rightarrow> int list \<Rightarrow> int list option" where
  "PrimeGenerator select Current MaxN CurrentIsPrime FoundPrimes =
     (case select Current MaxN CurrentIsPrime of
        None \<Rightarrow> None
      | Some p \<Rightarrow>
          if p = spec_base then Some FoundPrimes
          else if 2 ^ 31 - 1 \<le> Current then None
          else (case IsPrime (Current + 1) of
                  None \<Rightarrow> None
                | Some b \<Rightarrow> PrimeGenerator select (Current + 1) MaxN b
                    (if p = spec_prime then FoundPrimes @ [Current] else FoundPrimes)))"
  by pat_completeness auto
termination
  by (relation "measure (\<lambda>(s, c, m, b, f). nat (2 ^ 31 - c))") auto

declare PrimeGenerator.simps [simp del]

definition PrimesUpTo :: "(int \<Rightarrow> int \<Rightarrow> bool \<Rightarrow> targ list option) \<Rightarrow> int \<Rightarrow> int list option" where
  "PrimesUpTo select MaxN = (case IsPrime 2 of None \<Rightarrow> None | Some b \<Rightarrow> PrimeGenerator select 2 MaxN b [])"

definition primes_main :: "(int \<Rightarrow> int \<Rightarrow> bool \<Rightarrow> targ list option) \<Rightarrow> string option" where
  "primes_main select = map_option (\<lambda>ps.
     ''Compile-time generated prime numbers up to 50: '' @ [char_of (10 :: nat)] @ printPrimes ps)
     (PrimesUpTo select 50)"

text \<open>The selection the comment on the base case describes: the base case wins wherever it matches.\<close>

definition base_case_first :: "int \<Rightarrow> int \<Rightarrow> bool \<Rightarrow> targ list option" where
  "base_case_first Current MaxN b = (if Current = MaxN then Some spec_base else selected_spec Current MaxN b)"

section \<open>Correctness\<close>

text \<open>The reference: a number at least 2 with no divisor strictly between 1 and itself.\<close>

definition prime_int :: "int \<Rightarrow> bool" where
  "prime_int n \<longleftrightarrow> 2 \<le> n \<and> (\<forall>d. 1 < d \<longrightarrow> d < n \<longrightarrow> \<not> d dvd n)"

lemma smod_0_iff: "0 < D \<Longrightarrow> (N::int) smod D = 0 \<longleftrightarrow> D dvd N"
  by (auto simp: signed_modulo_int_def sgn_eq_0_iff simp flip: dvd_eq_mod_eq_0)

lemma IsPrimeHelper_eq:
  assumes "1 \<le> D"
  shows "IsPrimeHelper N D = Some (\<forall>d. 1 < d \<longrightarrow> d \<le> D \<longrightarrow> \<not> d dvd N)"
  using assms
proof (induction N D rule: IsPrimeHelper.induct)
  case (1 N D)
  show ?case
  proof (cases "D = 1")
    case True
    then show ?thesis by (simp add: IsPrimeHelper.simps)
  next
    case False
    with "1.prems" have D: "1 \<le> D - 1" "\<not> D \<le> 0" "0 < D" by auto
    have "IsPrimeHelper N (D - 1) = Some (\<forall>d. 1 < d \<longrightarrow> d \<le> D - 1 \<longrightarrow> \<not> d dvd N)"
      using "1.IH" False D by blast
    moreover have le: "d \<le> D \<longleftrightarrow> d = D \<or> d \<le> D - 1" for d by auto
    have "(\<forall>d. 1 < d \<longrightarrow> d \<le> D \<longrightarrow> \<not> d dvd N) \<longleftrightarrow>
        \<not> D dvd N \<and> (\<forall>d. 1 < d \<longrightarrow> d \<le> D - 1 \<longrightarrow> \<not> d dvd N)"
      using D unfolding le by auto
    ultimately show ?thesis
      using False D by (simp add: IsPrimeHelper.simps [of N D] smod_0_iff)
  qed
qed

text \<open>A proper divisor is at most half the number.\<close>

lemma no_divisor_up_to_half:
  assumes "3 \<le> (N::int)"
  shows "(\<forall>d. 1 < d \<longrightarrow> d \<le> N div 2 \<longrightarrow> \<not> d dvd N) \<longleftrightarrow> (\<forall>d. 1 < d \<longrightarrow> d < N \<longrightarrow> \<not> d dvd N)"
proof -
  have "d \<le> N div 2" if "1 < d" "d < N" "d dvd N" for d
  proof -
    from that(3) obtain k where k: "N = d * k" by (elim dvdE)
    have "\<not> k \<le> 1"
    proof
      assume "k \<le> 1"
      then have "d * k \<le> d * 1" using that(1) by (intro mult_left_mono) auto
      then show False using k that(2) by simp
    qed
    then have "2 \<le> k" by simp
    then have "d * 2 \<le> d * k" using that(1) by (intro mult_left_mono) auto
    then have "2 * d \<le> N" using k by simp
    then show ?thesis by linarith
  qed
  moreover have "N div 2 < N" using assms by linarith
  ultimately show ?thesis by (meson leD not_le order_le_less_trans)
qed

lemma IsPrime_eq:
  assumes "0 \<le> N"
  shows "IsPrime N = Some (prime_int N)"
proof (cases "N \<le> 2")
  case True
  with assms have "N = 0 \<or> N = 1 \<or> N = 2" by auto
  then show ?thesis by (auto simp: IsPrime_def prime_int_def)
next
  case False
  then have "1 \<le> N div 2" "N sdiv 2 = N div 2"
    by (auto simp: signed_divide_int_eq_divide_int)
  then show ?thesis
    using False no_divisor_up_to_half [of N] by (simp add: IsPrime_def IsPrimeHelper_eq prime_int_def)
qed

lemma selected_spec_cases:
  "selected_spec m m b = None"
  "c \<noteq> m \<Longrightarrow> selected_spec c m b = Some (if b then spec_prime else spec_not_prime)"
  by (cases b; simp add: selected_spec_def matching_specs_def more_specialised_def
      spec_prime_def spec_not_prime_def spec_base_def)+

lemma specs_distinct: "spec_prime \<noteq> spec_base" "spec_not_prime \<noteq> spec_base" "spec_not_prime \<noteq> spec_prime"
  by (simp_all add: spec_prime_def spec_not_prime_def spec_base_def)

lemma PrimeGenerator_eq:
  assumes "2 \<le> c" and "c \<le> m" and "m < 2 ^ 31" and "b = prime_int c"
  shows "PrimeGenerator base_case_first c m b found = Some (found @ filter prime_int [c..m - 1])"
  using assms
proof (induction "nat (m - c)" arbitrary: c b found)
  case 0
  then show ?case by (simp add: PrimeGenerator.simps base_case_first_def)
next
  case (Suc k)
  then have lt: "c < m" by simp
  then have ivl: "[c..m - 1] = c # [c + 1..m - 1]" by (simp add: upto_rec1)
  have sel: "base_case_first c m b = Some (if b then spec_prime else spec_not_prime)"
    using lt by (simp add: base_case_first_def selected_spec_cases)
  have p: "IsPrime (c + 1) = Some (prime_int (c + 1))" using Suc.prems by (simp add: IsPrime_eq)
  have "PrimeGenerator base_case_first (c + 1) m (prime_int (c + 1)) f
      = Some (f @ filter prime_int [c + 1..m - 1])" for f
    using Suc.hyps(1) [of "c + 1"] Suc.hyps(2) Suc.prems lt by simp
  then show ?case
    unfolding PrimeGenerator.simps [of _ c m] sel using lt Suc.prems by (simp add: p ivl specs_distinct)
qed

text \<open>An instantiation past the bound never meets a base case; as written, none ever does.\<close>

lemma PrimeGenerator_rejected:
  assumes "select = selected_spec \<or> select = base_case_first \<and> (m < c \<or> 2 ^ 31 \<le> m)"
    and "c < 2 ^ 31"
  shows "PrimeGenerator select c m b found = None"
  using assms
proof (induction select c m b found rule: PrimeGenerator.induct)
  case (1 select c m b found)
  show ?case
  proof (cases "select c m b")
    case (Some p)
    have "select c m b = Some (if b then spec_prime else spec_not_prime)"
      using "1.prems" Some by (cases "c = m") (auto simp: base_case_first_def selected_spec_cases)
    then have p: "p \<noteq> spec_base" using Some specs_distinct by (auto split: if_splits)
    show ?thesis
      using "1.IH" [OF Some p] "1.prems"
      by (auto simp: PrimeGenerator.simps [of _ c] Some p split: option.split)
  qed (simp add: PrimeGenerator.simps)
qed

section \<open>Properties\<close>

text \<open>C23. \<^verbatim>\<open>IsPrime\<close> is primality: for every non-negative argument the instantiation is
  accepted and its value is true exactly for the primes; a negative argument is rejected.\<close>

theorem IsPrime_correct:
  "IsPrime N = (if N < 0 then None else Some (prime_int N))"
proof (cases "N < 0")
  case True
  then have "\<bar>N\<bar> div 2 \<ge> 0" by simp
  then have "N sdiv 2 \<le> 0" using True by (simp add: signed_divide_int_def)
  then show ?thesis using True by (simp add: IsPrime_def IsPrimeHelper.simps)
qed (simp add: IsPrime_eq)

text \<open>C24. What the generator yields under each selection rule. Under the rule of the language, by which
  the specialisation must be more specialised than all others that match, every bound is rejected, so
  \<^verbatim>\<open>main\<close> does not compile. If the base case took precedence, as its comment assumes, the list would be exactly the
  ascending primes from 2 up to, but not including, the bound, for every bound from 2 on in the
  range of \<^verbatim>\<open>int\<close>; smaller bounds would be rejected. The comment promises the primes up to the
  bound: a prime bound is left out.\<close>

theorem PrimesUpTo_correct:
  "PrimesUpTo selected_spec m = None \<and> primes_main selected_spec = None
   \<and> PrimesUpTo base_case_first m =
       (if m < 2 \<or> 2 ^ 31 \<le> m then None else Some (filter prime_int [2..m - 1]))"
proof -
  have two: "IsPrime 2 = Some True" by (simp add: IsPrime_def)
  have "prime_int 2" by (simp add: prime_int_def)
  then show ?thesis
    using PrimeGenerator_eq [of 2 m True "[]"] by (simp add: primes_main_def PrimesUpTo_def two PrimeGenerator_rejected)
qed

text \<open>What \<^verbatim>\<open>main\<close> would print if the base case took precedence.\<close>

lemma primes_main_output:
  "primes_main base_case_first = Some (''Compile-time generated prime numbers up to 50: '' @ [char_of (10 :: nat)]
     @ ''2 3 5 7 11 13 17 19 23 29 31 37 41 43 47 '' @ [char_of (10 :: nat)])"
  by code_simp

text \<open>C33. As written the program is rejected: where \<^verbatim>\<open>Current\<close> equals \<^verbatim>\<open>Max\<close> two
  partial specialisations match and neither is more specialised than the other, so the base
  case is never selected; everywhere else exactly one specialisation is selected.\<close>

theorem base_case_ambiguous:
  "selected_spec m m b = None \<and> length (matching_specs m m b) = 2
   \<and> (c = m \<or> selected_spec c m b = Some (if b then spec_prime else spec_not_prime))"
  by (cases b) (auto simp: selected_spec_def matching_specs_def more_specialised_def
      spec_prime_def spec_not_prime_def spec_base_def)

end
