(* ===== verification/Nvenc_Encoder.thy ===== *)
theory Nvenc_Encoder
  imports Prelude
begin

text \<open>
  \<^verbatim>\<open>src/10-Media-and-Transcoding/zero-copy-hardware-acceleration.cpp\<close>: the class
  \<^verbatim>\<open>NvencHardwareEncoder\<close> with its constructor, destructor and \<^verbatim>\<open>encodeFrame\<close>. The
  encoder driver and the constants of its header are not part of the repository: they are the
  argument \<open>nvenc_api\<close>. The calls made to the driver are recorded in order.
\<close>

section \<open>Parameters of the driver calls\<close>

record rc_params =
  rateControlMode :: nat
  averageBitRate :: u32

record nv_config =
  cfg_rc :: rc_params
  cfg_rest :: nat

record init_params =
  encodeGUID :: nat
  presetGUID :: nat
  encodeWidth :: u32
  encodeHeight :: u32
  darWidth :: u32
  darHeight :: u32
  frameRateNum :: u32
  frameRateDen :: u32
  enablePTD :: u32

record pic_params =
  inputBuffer :: u64
  bufferFmt :: nat
  inputWidth :: u32
  inputHeight :: u32
  outputBitstream :: u64
  pictureStruct :: nat

text \<open>
  The driver: the header's constants; for \<^verbatim>\<open>NvEncodeAPIGetMaxSupportedVersion\<close> the status and the
  value it stores, if it stores one; for \<^verbatim>\<open>NvEncodeAPICreateInstance\<close> the status and whether it
  fills in the function pointers; the status and handle of a new session, the status and contents
  of a preset configuration, and the status of the initialisation and of an encoded picture (0 is
  \<^verbatim>\<open>NV_ENC_SUCCESS\<close>).
\<close>

record nvenc_api =
  NVENCAPI_MAJOR_VERSION :: u32
  NVENCAPI_MINOR_VERSION :: u32
  HEVC_GUID :: nat
  P4_GUID :: nat
  RC_CBR :: nat
  FORMAT_IYUV :: nat
  STRUCT_FRAME :: nat
  get_max_version :: "nat \<times> u32 option"
  create_instance :: "nat \<times> bool"
  open_session :: "u64 \<Rightarrow> nat \<times> u64"
  preset_config :: "u64 \<Rightarrow> nat \<Rightarrow> nat \<Rightarrow> nat \<times> nv_config"
  initialize_encoder :: "u64 \<Rightarrow> init_params \<Rightarrow> nv_config \<Rightarrow> nat"
  encode_picture :: "u64 \<Rightarrow> pic_params \<Rightarrow> nat"

datatype nv_call =
    GetMaxSupportedVersion
  | CreateInstance
  | OpenEncodeSessionEx u64
  | GetEncodePresetConfig u64 nat nat
  | InitializeEncoder u64 init_params nv_config
  | EncodePicture u64 pic_params
  | DestroyEncoder u64

record NvencHardwareEncoder =
  hEncoder :: u64
  cudaContext :: u64

text \<open>How a member function ends: the exception, \<^verbatim>\<open>exit(1)\<close> after a driver error with this
  status, a call through a function pointer that was never set (undefined behaviour), or a normal
  return.\<close>

datatype 'a nv_outcome = Threw string | Exited nat | UnsetPointer | Returned 'a

section \<open>Member functions\<close>

definition currentVersion :: "nvenc_api \<Rightarrow> u32" where
  "currentVersion api = push_bit 4 (NVENCAPI_MAJOR_VERSION api) OR NVENCAPI_MINOR_VERSION api"

definition make_init_params :: "nvenc_api \<Rightarrow> u32 \<Rightarrow> u32 \<Rightarrow> init_params" where
  "make_init_params api width height =
     \<lparr>encodeGUID = HEVC_GUID api, presetGUID = P4_GUID api, encodeWidth = width, encodeHeight = height,
      darWidth = width, darHeight = height, frameRateNum = 60, frameRateDen = 1, enablePTD = 1\<rparr>"

text \<open>The overrides written after the preset was fetched. \<^verbatim>\<open>initParams.encodeConfig\<close> points
  to this configuration, so the driver sees them at initialisation.\<close>

definition force_cbr :: "nvenc_api \<Rightarrow> nv_config \<Rightarrow> nv_config" where
  "force_cbr api cfg = cfg\<lparr>cfg_rc := (cfg_rc cfg)\<lparr>rateControlMode := RC_CBR api, averageBitRate := 8000000\<rparr>\<rparr>"

text \<open>The constructor. The statuses of the first two calls are discarded: \<^verbatim>\<open>version\<close> keeps its
  initial 0 unless the first call stores a value, and the members of \<^verbatim>\<open>nvencAPI\<close> stay indeterminate
  unless the second one fills them in.\<close>

definition construct :: "nvenc_api \<Rightarrow> u64 \<Rightarrow> u32 \<Rightarrow> u32 \<Rightarrow> nv_call list \<times> NvencHardwareEncoder nv_outcome" where
  "construct api ctx width height =
     (let (ignored1, stored) = get_max_version api;
          version = (case stored of None \<Rightarrow> 0 | Some v \<Rightarrow> v)
      in if currentVersion api > version then
        ([GetMaxSupportedVersion], Threw ''NVIDIA Display Driver does not support this NVENC SDK version.'')
      else
        let (ignored2, pointers_set) = create_instance api
        in if \<not> pointers_set then ([GetMaxSupportedVersion, CreateInstance], UnsetPointer)
      else
        let (st1, h) = open_session api ctx;
            log1 = [GetMaxSupportedVersion, CreateInstance, OpenEncodeSessionEx ctx]
        in if st1 \<noteq> 0 then (log1, Exited st1)
           else
             let ip = make_init_params api width height;
                 (st2, preset) = preset_config api h (encodeGUID ip) (presetGUID ip);
                 log2 = log1 @ [GetEncodePresetConfig h (encodeGUID ip) (presetGUID ip)]
             in if st2 \<noteq> 0 then (log2, Exited st2)
                else
                  let cfg = force_cbr api preset;
                      st3 = initialize_encoder api h ip cfg;
                      log3 = log2 @ [InitializeEncoder h ip cfg]
                  in if st3 \<noteq> 0 then (log3, Exited st3)
                     else (log3, Returned \<lparr>hEncoder = h, cudaContext = ctx\<rparr>))"

definition destruct :: "NvencHardwareEncoder \<Rightarrow> nv_call list" where
  "destruct enc = (if hEncoder enc \<noteq> 0 then [DestroyEncoder (hEncoder enc)] else [])"

definition make_pic_params :: "nvenc_api \<Rightarrow> u64 \<Rightarrow> u64 \<Rightarrow> pic_params" where
  "make_pic_params api d_frameBuffer out =
     \<lparr>inputBuffer = d_frameBuffer, bufferFmt = FORMAT_IYUV api, inputWidth = 1920, inputHeight = 1080,
      outputBitstream = out, pictureStruct = STRUCT_FRAME api\<rparr>"

definition encodeFrame :: "nvenc_api \<Rightarrow> NvencHardwareEncoder \<Rightarrow> u64 \<Rightarrow> u64 \<Rightarrow> nv_call list \<times> unit nv_outcome" where
  "encodeFrame api enc d_frameBuffer out =
     (let pic = make_pic_params api d_frameBuffer out;
          st = encode_picture api (hEncoder enc) pic
      in ([EncodePicture (hEncoder enc) pic], if st \<noteq> 0 then Exited st else Returned ()))"

text \<open>The frames of a clip in order; a driver error ends the process, and then the destructor
  does not run.\<close>

fun encode_clip :: "nvenc_api \<Rightarrow> NvencHardwareEncoder \<Rightarrow> (u64 \<times> u64) list \<Rightarrow> nv_call list \<times> unit nv_outcome" where
  "encode_clip api enc [] = (destruct enc, Returned ())"
| "encode_clip api enc ((f, out) # fs) =
     (case encodeFrame api enc f out of
        (calls, Returned u) \<Rightarrow> (let (calls', r) = encode_clip api enc fs in (calls @ calls', r))
      | (calls, r) \<Rightarrow> (calls, r))"

text \<open>The lifetime of one encoder object.\<close>

definition session :: "nvenc_api \<Rightarrow> u64 \<Rightarrow> u32 \<Rightarrow> u32 \<Rightarrow> (u64 \<times> u64) list \<Rightarrow> nv_call list \<times> unit nv_outcome" where
  "session api ctx width height frames =
     (case construct api ctx width height of
        (calls, Returned enc) \<Rightarrow> (let (calls', r) = encode_clip api enc frames in (calls @ calls', r))
      | (calls, Threw e) \<Rightarrow> (calls, Threw e)
      | (calls, Exited st) \<Rightarrow> (calls, Exited st)
      | (calls, UnsetPointer) \<Rightarrow> (calls, UnsetPointer))"

section \<open>Lifetime of the encoder\<close>

lemma encode_clip_returned:
  assumes "encode_clip api enc fs = (calls, Returned ())"
  shows "calls = map (\<lambda>(f, out). EncodePicture (hEncoder enc) (make_pic_params api f out)) fs @ destruct enc"
  using assms
proof (induction fs arbitrary: calls)
  case Nil
  then show ?case by simp
next
  case (Cons x fs)
  obtain f out where x: "x = (f, out)" by fastforce
  show ?case
    using Cons x by (auto simp: encodeFrame_def Let_def split: if_splits prod.splits)
qed

lemma construct_returned:
  assumes "construct api ctx w h = (calls, Returned enc)"
  shows "\<exists>preset. calls = [GetMaxSupportedVersion, CreateInstance, OpenEncodeSessionEx ctx,
       GetEncodePresetConfig (hEncoder enc) (HEVC_GUID api) (P4_GUID api),
       InitializeEncoder (hEncoder enc) (make_init_params api w h) (force_cbr api preset)]
     \<and> open_session api ctx = (0, hEncoder enc)
     \<and> initialize_encoder api (hEncoder enc) (make_init_params api w h) (force_cbr api preset) = 0
     \<and> cudaContext enc = ctx"
  using assms
  by (auto simp: construct_def Let_def make_init_params_def not_less split: if_splits prod.splits)

section \<open>Properties\<close>

text \<open>C30. A session that ends normally makes exactly the calls a driver needs, in order: version
  check, instance, one session on the given context, the preset, one initialisation, one picture
  per frame on the same handle, and one destruction at the end when the handle is not null. The
  initialisation always asks for HEVC at the constructor's size with constant bit rate at
  8 Mbit/s, whatever the preset contained.\<close>

theorem session_calls:
  assumes "session api ctx width height frames = (calls, Returned ())"
  shows "\<exists>h preset. rateControlMode (cfg_rc (force_cbr api preset)) = RC_CBR api
    \<and> averageBitRate (cfg_rc (force_cbr api preset)) = 8000000
    \<and> calls = [GetMaxSupportedVersion, CreateInstance, OpenEncodeSessionEx ctx,
         GetEncodePresetConfig h (HEVC_GUID api) (P4_GUID api),
         InitializeEncoder h (make_init_params api width height) (force_cbr api preset)]
       @ map (\<lambda>(f, out). EncodePicture h (make_pic_params api f out)) frames
       @ (if h = 0 then [] else [DestroyEncoder h])"
proof -
  obtain c1 r1 where c: "construct api ctx width height = (c1, r1)" by fastforce
  then obtain enc c2 where r1: "r1 = Returned enc" and e: "encode_clip api enc frames = (c2, Returned ())"
    and calls: "calls = c1 @ c2"
    using assms by (auto simp: session_def split: nv_outcome.splits prod.splits)
  obtain preset where p: "c1 = [GetMaxSupportedVersion, CreateInstance, OpenEncodeSessionEx ctx,
         GetEncodePresetConfig (hEncoder enc) (HEVC_GUID api) (P4_GUID api),
         InitializeEncoder (hEncoder enc) (make_init_params api width height) (force_cbr api preset)]"
    using construct_returned [of api ctx width height c1 enc] c r1 by blast
  show ?thesis
    using encode_clip_returned [OF e] calls p
    by (intro exI [of _ "hEncoder enc"] exI [of _ preset]) (simp add: force_cbr_def destruct_def)
qed

definition sample_api :: nvenc_api where
  "sample_api = \<lparr>NVENCAPI_MAJOR_VERSION = 12, NVENCAPI_MINOR_VERSION = 1, HEVC_GUID = 7, P4_GUID = 4,
     RC_CBR = 2, FORMAT_IYUV = 256, STRUCT_FRAME = 1, get_max_version = (0, Some 0xC2), create_instance = (0, True),
     open_session = (\<lambda>ctx. (0, 77)),
     preset_config = (\<lambda>h g p. (0, \<lparr>cfg_rc = \<lparr>rateControlMode = 1, averageBitRate = 5\<rparr>, cfg_rest = 0\<rparr>)),
     initialize_encoder = (\<lambda>h ip cfg. 0), encode_picture = (\<lambda>h p. 0)\<rparr>"

theorem session_calls_witness:
  "\<exists>calls. session sample_api 5 1280 720 [(10, 11)] = (calls, Returned ()) \<and> last calls = DestroyEncoder 77
     \<and> length calls = 7"
proof -
  obtain calls where s: "session sample_api 5 1280 720 [(10, 11)] = (calls, Returned ())"
    and l: "last calls = DestroyEncoder 77"
    by (simp add: session_def construct_def currentVersion_def sample_api_def make_init_params_def
        encodeFrame_def destruct_def Let_def)
  show ?thesis using session_calls [OF s] s l by (auto split: if_splits)
qed

text \<open>C31. The constructor makes exactly the driver calls up to and including the first step that
  goes wrong, and how it ends depends only on which step that is: a version that is too low (also 0,
  when none was stored) throws before the instance is created; an instance without function pointers
  makes the next call undefined behaviour; a failing session, preset or initialisation ends the process
  with that status; if no step goes wrong the object is returned. The statuses of the version
  query and of the instance creation make no difference.\<close>

theorem construct_outcomes:
  "let handle = snd (open_session api ctx);
       (st2, preset) = preset_config api handle (HEVC_GUID api) (P4_GUID api);
       ip = make_init_params api w h;
       st3 = initialize_encoder api handle ip (force_cbr api preset);
       steps = [(GetMaxSupportedVersion, currentVersion api \<le> (case snd (get_max_version api) of None \<Rightarrow> 0 | Some v \<Rightarrow> v)),
                (CreateInstance, snd (create_instance api)),
                (OpenEncodeSessionEx ctx, fst (open_session api ctx) = 0),
                (GetEncodePresetConfig handle (HEVC_GUID api) (P4_GUID api), st2 = 0),
                (InitializeEncoder handle ip (force_cbr api preset), st3 = 0)];
       good = length (takeWhile snd steps)
   in construct api ctx w h =
      (map fst (take (Suc good) steps),
       [Threw ''NVIDIA Display Driver does not support this NVENC SDK version.'', UnsetPointer,
        Exited (fst (open_session api ctx)), Exited st2, Exited st3,
        Returned \<lparr>hEncoder = handle, cudaContext = ctx\<rparr>] ! good)"
  by (auto simp: construct_def Let_def make_init_params_def not_less not_le case_prod_beta)

text \<open>The picture parameters ignore the size the encoder was created with: the size given to
  the driver for every frame agrees with the initialised size only for 1920 by 1080.\<close>

lemma frame_size_hard_coded:
  "(inputWidth (make_pic_params api f out) = encodeWidth (make_init_params api width height)
    \<and> inputHeight (make_pic_params api f out) = encodeHeight (make_init_params api width height))
   = (width = 1920 \<and> height = 1080)"
  by (auto simp: make_pic_params_def make_init_params_def)

end
