(* ===== verification/Snpe_Inference.thy ===== *)
theory Snpe_Inference
  imports Prelude
begin

text \<open>
  \<^verbatim>\<open>src/03-Hardware-Acceleration-and-Networking/snpe-snippet.cpp\<close>: the aligned allocation,
  the choice of a runtime when the network is built, and the binding of the input buffer of an
  inference. The SDK is not part of the repository: its answers are arguments. A null pointer
  that the code tests is \<open>None\<close>; one that it dereferences without a test is the fault
  \<open>NullDereference\<close>.
\<close>

section \<open>Operations\<close>

text \<open>\<^verbatim>\<open>posix_memalign(&ptr, 128, size)\<close> answers a status and an address.\<close>

definition allocateAlignedMemory :: "(u64 \<Rightarrow> size_t \<Rightarrow> nat \<times> u64) \<Rightarrow> size_t \<Rightarrow> u64 option" where
  "allocateAlignedMemory posix_memalign sz =
     (let (status, ptr) = posix_memalign 128 sz in if status \<noteq> 0 then None else Some ptr)"

datatype Runtime_t = DSP | GPU | CPU

datatype PerformanceProfile_t = BURST

record snpe_config =
  outputLayers :: "string list"
  runtimeProcessorOrder :: "Runtime_t list"
  useUserSuppliedBuffers :: bool
  performanceProfile :: PerformanceProfile_t

definition chooseRuntimes :: "(Runtime_t \<Rightarrow> bool) \<Rightarrow> Runtime_t list" where
  "chooseRuntimes isRuntimeAvailable =
     (let targetRuntime = DSP
      in if isRuntimeAvailable targetRuntime then [targetRuntime]
         else if isRuntimeAvailable GPU then [GPU]
         else [CPU])"

text \<open>\<open>container\<close> is the answer of \<^verbatim>\<open>IDlContainer::open\<close>, \<open>build\<close> the answer of the
  builder for a container and a configuration.\<close>

definition buildNeuralNet ::
  "(Runtime_t \<Rightarrow> bool) \<Rightarrow> ('c \<Rightarrow> snpe_config \<Rightarrow> 's option) \<Rightarrow> 'c option \<Rightarrow> 's option" where
  "buildNeuralNet isRuntimeAvailable build container =
     (case container of
        None \<Rightarrow> None
      | Some c \<Rightarrow>
          build c \<lparr>outputLayers = [], runtimeProcessorOrder = chooseRuntimes isRuntimeAvailable,
                   useUserSuppliedBuffers = True, performanceProfile = BURST\<rparr>)"

record user_buffer =
  ub_data :: u64
  ub_size :: size_t
  ub_strides :: "nat list"

text \<open>A loaded network: its input names (null when the SDK fails), the strides of an input
  (null for an unknown name), and the answer of \<^verbatim>\<open>execute\<close> for the two buffer maps.\<close>

record snpe =
  getInputTensorNames :: "string list option"
  getInputDimensions :: "string \<Rightarrow> nat list option"
  snpe_execute :: "(string \<times> user_buffer) list \<Rightarrow> (string \<times> user_buffer) list \<Rightarrow> bool"

datatype snpe_fault = NullDereference | IndexOutOfRange

definition executeInference :: "snpe \<Rightarrow> u64 \<Rightarrow> size_t \<Rightarrow> snpe_fault + bool" where
  "executeInference net rawInputData inputSize =
     (case getInputTensorNames net of
        None \<Rightarrow> Inl NullDereference
      | Some [] \<Rightarrow> Inl IndexOutOfRange
      | Some (inputName # _) \<Rightarrow>
          (case getInputDimensions net inputName of
             None \<Rightarrow> Inl NullDereference
           | Some strides \<Rightarrow>
               Inr (snpe_execute net
                      [(inputName, \<lparr>ub_data = rawInputData, ub_size = inputSize * 4, ub_strides = strides\<rparr>)] [])))"

section \<open>What the SDK is asked for\<close>

text \<open>The network is built on exactly one runtime: the first available of DSP and GPU, and otherwise
  the CPU, whether that is available or not.\<close>

lemma build_uses_best_runtime:
  "buildNeuralNet avail build container =
     Option.bind container (\<lambda>c. build c
       \<lparr>outputLayers = [], runtimeProcessorOrder = [hd (filter avail [DSP, GPU] @ [CPU])],
        useUserSuppliedBuffers = True, performanceProfile = BURST\<rparr>)"
  by (auto simp: buildNeuralNet_def chooseRuntimes_def split: option.splits)

text \<open>A completed inference bound exactly the caller's memory to the first input, with the
  byte size of that many floats whenever it fits in \<^verbatim>\<open>size_t\<close>, and no output buffer, and
  returned what the runtime answered; the code faults exactly when the network has no input or
  the SDK answers a null pointer.\<close>

lemma inference_binding:
  "executeInference net p n =
     (case Option.bind (getInputTensorNames net) (\<lambda>ns. if ns = [] then None
             else map_option (Pair (hd ns)) (getInputDimensions net (hd ns))) of
        None \<Rightarrow> Inl (if getInputTensorNames net = Some [] then IndexOutOfRange else NullDereference)
      | Some (name, strides) \<Rightarrow>
          Inr (snpe_execute net [(name, \<lparr>ub_data = p, ub_size = of_nat (unat n * 4 mod 2 ^ 64), ub_strides = strides\<rparr>)] []))"
proof -
  have "(of_nat (unat n * 4 mod 2 ^ 64) :: size_t) = n * 4"
    by (rule word_unat_eq_iff [THEN iffD2]) (simp add: unat_word_ariths unat_of_nat take_bit_eq_mod)
  then show ?thesis
    by (auto simp: executeInference_def split: option.splits list.splits)
qed

end
