(* ===== verification/Spec2Isabelle.thy ===== *)
theory Spec2Isabelle
  imports Ring_Memory_Orders Heap_Allocator Order_Book Market_Data P4_Switch Wavefront_Scan
    Sycl_Reduction Tensor_Core Wifi_Frame Nt_Internals Wasm_Filter Compile_Time_Primes
    Nvenc_Encoder Snpe_Inference
begin

text \<open>
  \<^bold>\<open>The program.\<close> The repository is a collection of independent programs. This development covers
  its C and C++ code: eleven C++ files (one of them a P4 program in a C++ file) and three C
  files. The files do not call each other; inside a file the parts interact through shared memory (the
  ring buffer between two threads, the linked orders of several price levels, the block headers inside
  the heap) or through a sequence of calls to a device or host. Each file is one theory, except
  the ring buffer, which has three.

  \<^bold>\<open>Theories and sources\<close> (under \<^verbatim>\<open>src/\<close>).

  \<^item> \<open>Prelude\<close>: machine types, powers of two and masks, little-endian bytes, reads inside a buffer,
    the C layout of a structure (offsets, padding, size), computations that may stop with an error, and
    the range check of \<^verbatim>\<open>int\<close>, shared by the components.

  \<^item> \<open>Ring_Buffer\<close>: \<^verbatim>\<open>02-High-Frequency-Trading-Engine/lock-free-ring-buffer.cpp\<close>, class
    \<^verbatim>\<open>LockFreeMempoolBuffer\<close>. The record keeps the array and the two 64-bit counters; \<open>push\<close>
    and \<open>pop\<close> are the methods. The locale \<open>bounded_fifo\<close> states what a bounded queue promises; the
    buffer is an interpretation of it, and sequences of calls are FIFO, also where the counters wrap.

  \<^item> \<open>Ring_Interleaving\<close>: \<^verbatim>\<open>simulate_gossip_protocol\<close> of the same file. Two program counters, one
    step per load, store or element access, any interleaving; reachable states by rule induction. The
    received transactions are a prefix of those sent, complete at the join, the threads never access one
    element at the same time, and every reachable state can still finish. Capacity and number of transactions are
    parameters; the number must not be the largest 64-bit value, for which the loop
    \<^verbatim>\<open>i <= n\<close> of the source would not end.

  \<^item> \<open>Ring_Memory_Orders\<close>: the same two threads under the memory orders of the source. A load of the other
    thread's counter may be stale; release stores carry clocks that acquire loads take over, and
    element accesses are checked for data races with them. With the orders of the source there is no
    race and the result is that of the interleavings; with a relaxed head store or load there is one.

  \<^item> \<open>Heap_Allocator\<close>: \<^verbatim>\<open>01-Core-Systems-and-Bare-Metal/custom-memory-allocator.c\<close>.
    Byte-addressed memory with the headers in it; \<open>my_malloc\<close> and \<open>my_free\<close> with the mutex, the
    first-fit search and \<open>request_space\<close>, each ending with a result or a fault. They refine a list of
    blocks; every client state reached with requests below 2^63 - 24 bytes keeps allocations disjoint and
    intact; a larger size stores beyond the break when the kernel grants the wrapped increment.

  \<^item> \<open>Order_Book\<close>: \<^verbatim>\<open>02-High-Frequency-Trading-Engine/cache-line-optimized-limit-order-book.c\<close>.
    An explicit store of nodes; insertion and cancellation refine the arrival queue (locale
    \<open>order_queue\<close>), levels sharing the store do not disturb each other, and the pool hands out its slots
    in order, with 64-bit addresses that are distinct up to 2^58 slots.

  \<^item> \<open>Market_Data\<close>: \<^verbatim>\<open>02-High-Frequency-Trading-Engine/zero-allocation-market-data-parser.cpp\<close>.
    The branchless integer parser, the packed message, and the buffer loop: the loop on well-framed
    input, the views for senders in host and in network byte order, and the behaviour on truncated input.

  \<^item> \<open>P4_Switch\<close>: \<^verbatim>\<open>03-Hardware-Acceleration-and-Networking/ethernet-switch.cpp\<close>. Parser and
    ingress control over bit strings. The lookup belongs to the target and is an argument; the locale
    \<open>ranked_lookup\<close> is the contract of longest prefix match, and a reference lookup interprets it. Routing of
    a packet, effect of forwarding, time to live and checksum.

  \<^item> \<open>Wavefront_Scan\<close>: \<^verbatim>\<open>03-Hardware-Acceleration-and-Networking/rocm-hip.cpp\<close>. The kernel is a prefix
    sum per wavefront modulo 2^32; the host function with its size computations.

  \<^item> \<open>Sycl_Reduction\<close>: \<^verbatim>\<open>oneapi-data-parallel.cpp\<close> of the same directory. Float addition and the
    reduction of a sub-group are arguments. The result adds up every element once, in some order, and
    for an addition with bounded relative error it has a bounded error.

  \<^item> \<open>Tensor_Core\<close>: \<^verbatim>\<open>tensor-core-matrix.cpp\<close> of the same directory. Indices are checked 32-bit
    \<^verbatim>\<open>int\<close> products, the multiplication of fragments is an argument. What a warp stores for full tiles, and
    that partial tiles leave the arrays.

  \<^item> \<open>Wifi_Frame\<close>, \<open>Snpe_Inference\<close>: \<^verbatim>\<open>wifi-driver-firmware.c\<close> and \<^verbatim>\<open>snpe-snippet.cpp\<close> of the same
    directory. The frame parser is decided for every length; the choice of runtime and the binding of
    the input buffer.

  \<^item> \<open>Nt_Internals\<close>: \<^verbatim>\<open>01-Core-Systems-and-Bare-Metal/windows-nt-internals.cpp\<close>. Layout of the
    kernel records, the query loop with its buffers, the walk over the records, \<open>nt_main\<close>. A null buffer or a
    record outside the buffer ends \<open>nt_main\<close> in a fault.

  \<^item> \<open>Wasm_Filter\<close>: \<^verbatim>\<open>06-Platform-Engineering-and-Gateways/envoy-proxy-webassembly-filter.cpp\<close>,
    the decision of the filter on every request.

  \<^item> \<open>Compile_Time_Primes\<close>: \<^verbatim>\<open>09-Advanced-Metaprogramming-and-Web/compile-time.cpp\<close>. The
    templates as functions, where a rejected instantiation is \<open>None\<close>; primality; the selection among
    partial specialisations, which is ambiguous at the base case, so that the program is rejected; the list
    it would generate if the base case took precedence.

  \<^item> \<open>Nvenc_Encoder\<close>: \<^verbatim>\<open>10-Media-and-Transcoding/zero-copy-hardware-acceleration.cpp\<close>. Constructor,
    frames and destructor as sequences of driver calls, with the outcome of each failing step.

  \<^bold>\<open>Conventions.\<close> The target is a little-endian LP64 machine with signed \<^verbatim>\<open>char\<close>. Integers that can
  wrap in the source are words of their width; \<^verbatim>\<open>int\<close> arithmetic is on \<open>int\<close> with the overflow as a fault where
  an operand can be large. Offsets into a buffer are \<open>nat\<close>, and so are the addresses of the allocator,
  whose heap lies below 2^63. Several files do not compile as written because of misspellings; the
  model takes the evident reading (for example \<^verbatim>\<open>current_tail + 1\<close> for \<^verbatim>\<open>current_tail _ 1\<close>); the prime
  generator, which is rejected for its meaning and not for a misspelling, is modelled as rejected.
  A read or write outside a buffer, a null dereference, a call through an unset pointer and a loop
  that never ends are values (\<open>None\<close>, a fault constructor). Code outside the repository (kernel,
  drivers, SDKs, the lookup and the arithmetic of devices, \<^verbatim>\<open>sbrk\<close>, \<^verbatim>\<open>posix_memalign\<close>) is an argument of the
  definitions, and what is assumed of it is a named hypothesis: \<open>kernel_limits\<close> (the break stays in the
  address space), \<open>kernel_settles\<close> (from some query on the kernel asks for a sufficient size),
  \<open>ranked_lookup\<close> (longest prefix match), \<open>group_reduction\<close> and \<open>float_rounding\<close> (a reduction adds each element
  once; addition has bounded relative error), or an explicit premise.

  \<^bold>\<open>Loops and bounds.\<close> Loops over buffers are functions with a termination proof. The two loops that need
  not end, \<open>query_loop\<close> and \<open>find_loop\<close>, are partial functions with \<open>None\<close> for divergence, and are
  proved to return under their hypotheses. Theorems bound the size of their data only by what the
  machine types can hold, except where the code fails earlier, which the theorem then states.

  \<^bold>\<open>Not modelled.\<close> The bits of floating-point numbers; memory orders other than those of the ring buffer, and
  reorderings that the acquire and release orders forbid; alignment and the page granularity of the heap
  segment; several threads inside the allocator, whose mutex serialises them; formatting of console
  output; the programs in other languages of the repository, which are separate from the C and C++ code.
\<close>

end
